(* ===== verification/Prelude.thy ===== *)
theory Prelude
  imports Main "HOL-Library.Word" "HOL-Library.Sublist" "HOL-Library.Multiset"
begin

text \<open>
  Shared vocabulary of the development: the machine integers and durations of the Rust code,
  the few standard-library operations the crates use on options, strings, vectors and hash
  maps, and the generic lemmas the component theories share.
\<close>

section \<open>Integers and durations\<close>

type_synonym u64 = "64 word"

text \<open>A \<open>std::time::Duration\<close> is kept as its number of nanoseconds.\<close>

type_synonym duration = nat

definition saturating_add :: "u64 \<Rightarrow> u64 \<Rightarrow> u64" where
  "saturating_add a b = (if unat a + unat b < 2 ^ 64 then a + b else - 1)"

definition saturating_sub :: "u64 \<Rightarrow> u64 \<Rightarrow> u64" where
  "saturating_sub a b = (if b \<le> a then a - b else 0)"

text \<open>\<open>Duration::as_millis() as u64\<close>: whole milliseconds, truncated to 64 bits.\<close>

definition as_millis_u64 :: "duration \<Rightarrow> u64" where
  "as_millis_u64 d = of_nat (d div 1000000)"

abbreviation from_millis :: "nat \<Rightarrow> duration" where
  "from_millis n \<equiv> n * 1000000"

abbreviation from_secs :: "nat \<Rightarrow> duration" where
  "from_secs n \<equiv> n * 1000000000"

lemma unat_u64_max: "unat (- 1 :: u64) = 2 ^ 64 - 1"
  by (simp add: unsigned_minus_1_eq_mask mask_eq_exp_minus_1)

lemma unat_less_u64: "unat (a :: u64) < 2 ^ 64"
  using unsigned_less [of a] by simp

lemma unat_saturating_add: "unat (saturating_add a b) = min (unat a + unat b) (2 ^ 64 - 1)"
  by (auto simp: saturating_add_def unat_word_ariths unat_u64_max)

lemma saturating_add_1_less: "saturating_add a 1 < b \<longleftrightarrow> unat a + 1 < unat b"
  using unat_less_u64 [of b] by (auto simp: word_less_nat_alt unat_saturating_add)

lemma not_saturating_add_1_less: "\<not> saturating_add a 1 < b \<Longrightarrow> c < b \<Longrightarrow> c \<le> a"
  unfolding saturating_add_1_less by (simp add: word_less_nat_alt word_le_nat_alt)

section \<open>Options\<close>

definition is_some_and :: "'a option \<Rightarrow> ('a \<Rightarrow> bool) \<Rightarrow> bool" where
  "is_some_and x p = (case x of None \<Rightarrow> False | Some a \<Rightarrow> p a)"

definition is_none_or :: "'a option \<Rightarrow> ('a \<Rightarrow> bool) \<Rightarrow> bool" where
  "is_none_or x p = (case x of None \<Rightarrow> True | Some a \<Rightarrow> p a)"

definition unwrap_or :: "'a option \<Rightarrow> 'a \<Rightarrow> 'a" where
  "unwrap_or x d = (case x of None \<Rightarrow> d | Some a \<Rightarrow> a)"

definition or_else :: "'a option \<Rightarrow> 'a option \<Rightarrow> 'a option" where
  "or_else x y = (case x of None \<Rightarrow> y | Some a \<Rightarrow> Some a)"

lemma is_some_and_simps [simp]:
  "is_some_and None p = False" "is_some_and (Some a) p = p a"
  by (simp_all add: is_some_and_def)

lemma is_none_or_simps [simp]:
  "is_none_or None p = True" "is_none_or (Some a) p = p a"
  by (simp_all add: is_none_or_def)

lemma unwrap_or_simps [simp]: "unwrap_or None d = d" "unwrap_or (Some a) d = a"
  by (simp_all add: unwrap_or_def)

lemma or_else_simps [simp]: "or_else None y = y" "or_else (Some a) y = Some a"
  by (simp_all add: or_else_def)

section \<open>Strings\<close>

text \<open>
  A Rust string is its list of bytes. \<open>str::contains\<close>, \<open>starts_with\<close> and
  \<open>ends_with\<close> with a string pattern search for the pattern's bytes.
\<close>

fun str_contains :: "string \<Rightarrow> string \<Rightarrow> bool" where
  "str_contains [] n = (n = [])"
| "str_contains (c # cs) n = (prefix n (c # cs) \<or> str_contains cs n)"

abbreviation starts_with :: "string \<Rightarrow> string \<Rightarrow> bool" where
  "starts_with s p \<equiv> prefix p s"

abbreviation ends_with :: "string \<Rightarrow> string \<Rightarrow> bool" where
  "ends_with s p \<equiv> prefix (rev p) (rev s)"

lemma str_contains_iff: "str_contains s n \<longleftrightarrow> sublist n s"
  by (induction s) (auto simp: sublist_Cons_right)

lemma ends_with_iff: "ends_with s p \<longleftrightarrow> suffix p s"
  by (simp add: suffix_to_prefix)

text \<open>\<open>Path::join\<close> with a relative path: a separator is added where one is missing.\<close>

definition path_join :: "string \<Rightarrow> string \<Rightarrow> string" where
  "path_join base rel = (if base = '''' \<or> ends_with base ''/'' then base @ rel else base @ ''/'' @ rel)"

definition ascii_lower :: "char \<Rightarrow> char" where
  "ascii_lower c = (if 65 \<le> (of_char c :: nat) \<and> (of_char c :: nat) \<le> 90
     then char_of ((of_char c :: nat) + 32) else c)"

definition to_ascii_lowercase :: "string \<Rightarrow> string" where
  "to_ascii_lowercase = map ascii_lower"

section \<open>Vectors\<close>

text \<open>\<open>Vec::swap_remove\<close>: the last element takes the place of the removed one.\<close>

definition swap_remove :: "nat \<Rightarrow> 'a list \<Rightarrow> 'a list" where
  "swap_remove i xs = (butlast xs)[i := last xs]"

text \<open>\<open>Iterator::position\<close>.\<close>

fun position :: "('a \<Rightarrow> bool) \<Rightarrow> 'a list \<Rightarrow> nat option" where
  "position p [] = None"
| "position p (x # xs) = (if p x then Some 0 else map_option Suc (position p xs))"

definition remove_index :: "nat \<Rightarrow> 'a list \<Rightarrow> 'a list" where
  "remove_index i xs = take i xs @ drop (Suc i) xs"

text \<open>The last \<open>n\<close> elements of a list: what a queue of capacity \<open>n\<close> retains.\<close>

definition take_last :: "nat \<Rightarrow> 'a list \<Rightarrow> 'a list" where
  "take_last n xs = drop (length xs - n) xs"

lemma length_swap_remove [simp]: "length (swap_remove i xs) = length xs - 1"
  by (simp add: swap_remove_def)

lemma mset_swap_remove:
  assumes "i < length xs"
  shows "add_mset (xs ! i) (mset (swap_remove i xs)) = mset xs"
proof -
  from assms obtain ys y where xs: "xs = ys @ [y]" by (cases xs rule: rev_cases) auto
  show ?thesis
  proof (cases "i < length ys")
    case True
    then show ?thesis by (simp add: xs swap_remove_def nth_append mset_update)
  next
    case False
    with assms xs have "i = length ys" by simp
    then show ?thesis by (simp add: xs swap_remove_def list_update_beyond)
  qed
qed

lemma swap_remove_unchanged_below: "j < i \<Longrightarrow> i < length xs \<Longrightarrow> swap_remove i xs ! j = xs ! j"
  by (simp add: swap_remove_def nth_butlast)

lemma position_Some:
  "position p xs = Some i \<Longrightarrow> i < length xs \<and> p (xs ! i) \<and> (\<forall>j < i. \<not> p (xs ! j))"
proof (induction xs arbitrary: i)
  case Nil
  then show ?case by simp
next
  case (Cons x xs)
  show ?case
  proof (cases "p x")
    case True
    with Cons.prems show ?thesis by simp
  next
    case False
    with Cons.prems obtain k where k: "position p xs = Some k" "i = Suc k" by auto
    with Cons.IH [OF k(1)] False show ?thesis by (auto simp: less_Suc_eq_0_disj)
  qed
qed

lemma position_None: "position p xs = None \<longleftrightarrow> (\<forall>x \<in> set xs. \<not> p x)"
  by (induction xs) auto

lemma length_remove_index [simp]:
  "length (remove_index i xs) = (if i < length xs then length xs - 1 else length xs)"
  by (auto simp: remove_index_def min_def)

lemma mset_remove_index:
  "i < length xs \<Longrightarrow> add_mset (xs ! i) (mset (remove_index i xs)) = mset xs"
proof -
  assume "i < length xs"
  then have "xs = take i xs @ xs ! i # drop (Suc i) xs" by (rule id_take_nth_drop)
  then have "mset xs = mset (take i xs @ xs ! i # drop (Suc i) xs)" by simp
  then show ?thesis by (simp add: remove_index_def)
qed

lemma subseq_remove_index: "subseq (remove_index i xs) xs"
proof (cases "i < length xs")
  case True
  then have "xs = take i xs @ [xs ! i] @ drop (Suc i) xs" by (simp add: id_take_nth_drop)
  moreover have "subseq (take i xs @ [] @ drop (Suc i) xs) (take i xs @ [xs ! i] @ drop (Suc i) xs)"
    by (intro list_emb_append_mono subseq_order.refl) simp_all
  ultimately show ?thesis by (simp add: remove_index_def)
next
  case False
  then show ?thesis by (simp add: remove_index_def)
qed

lemma subseq_set: "subseq xs ys \<Longrightarrow> set xs \<subseteq> set ys"
  by (auto simp: subseq_conv_nths dest: set_nths_subset [THEN subsetD])

lemma subseq_distinct: "subseq xs ys \<Longrightarrow> distinct ys \<Longrightarrow> distinct xs"
  by (auto simp: subseq_conv_nths distinct_nthsI)

lemma subseq_filter_complete:
  assumes "subseq xs ys" "distinct ys" "\<And>y. y \<in> set ys \<Longrightarrow> P y \<Longrightarrow> y \<in> set xs"
  shows "filter P xs = filter P ys"
proof -
  have sub: "subseq (filter P xs) (filter P ys)" by (rule subseq_filter [OF assms(1)])
  have "distinct (filter P xs)" "distinct (filter P ys)"
    using assms(2) subseq_distinct [OF assms(1,2)] by simp_all
  moreover have "set (filter P xs) = set (filter P ys)"
    using assms(3) subseq_set [OF assms(1)] by auto
  ultimately have "length (filter P xs) = length (filter P ys)" by (metis distinct_card)
  with sub show ?thesis by (metis subseq_same_length)
qed

lemma remove_index_0_Cons [simp]: "remove_index 0 (x # xs) = xs"
  by (simp add: remove_index_def)

lemma take_last_snoc:
  assumes "0 < n"
  shows "take_last n (take_last n xs @ [x]) = take_last n (xs @ [x])"
proof (cases "length xs < n")
  case True
  then show ?thesis by (simp add: take_last_def)
next
  case False
  with assms show ?thesis by (simp add: take_last_def Suc_diff_le)
qed

lemma length_take_last [simp]: "length (take_last n xs) = min (length xs) n"
  by (simp add: take_last_def)

lemma take_last_decomp: "\<exists>ys. xs = ys @ take_last n xs"
  unfolding take_last_def by (metis append_take_drop_id)

section \<open>Hash maps\<close>

text \<open>
  A \<open>HashMap\<close> is a partial function. \<open>map_retain\<close> is \<open>HashMap::retain\<close>.
\<close>

definition map_retain :: "('k \<Rightarrow> 'v \<Rightarrow> bool) \<Rightarrow> ('k \<rightharpoonup> 'v) \<Rightarrow> ('k \<rightharpoonup> 'v)" where
  "map_retain p m = (\<lambda>k. case m k of None \<Rightarrow> None | Some v \<Rightarrow> if p k v then Some v else None)"

lemma map_retain_Some [simp]: "map_retain p m k = Some v \<longleftrightarrow> m k = Some v \<and> p k v"
  by (auto simp: map_retain_def split: option.splits)

lemma dom_map_retain: "dom (map_retain p m) \<subseteq> dom m"
  by (auto simp: map_retain_def split: option.splits)

end
