(* ===== verification/Json.thy ===== *)
theory Json
  imports Prelude
begin

text \<open>
  The JSON values the crates exchange with the app-server, with the accessors of
  \<open>serde_json::Value\<close> that the code calls, as that crate documents them: the variants
  of \<open>Value\<close>, lookup by key, and the \<open>as_*\<close> conversions that answer
  \<open>None\<close> on any other variant. An object is the list of its members; its keys are
  distinct in a value built by the code. Printing and parsing of JSON text are never
  defined here: where the code prints or parses, the model takes the function as an argument.
\<close>

datatype json_number = PosInt u64 | NegInt "64 word" | Float "64 word"

datatype json =
    JNull
  | JBool bool
  | JNumber json_number
  | JString string
  | JArray "json list"
  | JObject "(string \<times> json) list"

fun jget :: "string \<Rightarrow> json \<Rightarrow> json option" where
  "jget k (JObject members) = map_of members k"
| "jget k _ = None"

text \<open>Indexing \<open>value[key]\<close> answers \<open>Null\<close> where the key is missing.\<close>

definition jindex :: "json \<Rightarrow> string \<Rightarrow> json" where
  "jindex v k = unwrap_or (jget k v) JNull"

fun as_str :: "json \<Rightarrow> string option" where
  "as_str (JString s) = Some s"
| "as_str _ = None"

fun as_bool :: "json \<Rightarrow> bool option" where
  "as_bool (JBool b) = Some b"
| "as_bool _ = None"

fun as_array :: "json \<Rightarrow> json list option" where
  "as_array (JArray vs) = Some vs"
| "as_array _ = None"

fun as_u64 :: "json \<Rightarrow> u64 option" where
  "as_u64 (JNumber (PosInt n)) = Some n"
| "as_u64 _ = None"

fun as_i64 :: "json \<Rightarrow> int option" where
  "as_i64 (JNumber (PosInt n)) = (if uint n < 2 ^ 63 then Some (uint n) else None)"
| "as_i64 (JNumber (NegInt n)) = Some (sint n)"
| "as_i64 _ = None"

text \<open>A lookup that converts: \<open>value.get(key).and_then(Value::as_str)\<close>.\<close>

definition get_str :: "string \<Rightarrow> json \<Rightarrow> string option" where
  "get_str k v = Option.bind (jget k v) as_str"

lemma as_str_Some: "as_str v = Some s \<longleftrightarrow> v = JString s"
  by (cases v) auto

lemma as_array_Some: "as_array v = Some xs \<longleftrightarrow> v = JArray xs"
  by (cases v) auto

lemma get_str_Some: "get_str k v = Some s \<longleftrightarrow> jget k v = Some (JString s)"
  by (auto simp: get_str_def as_str_Some Option.bind_eq_Some_conv)

lemma get_str_JObject [simp]: "get_str k (JObject ms) = Option.bind (map_of ms k) as_str"
  by (simp add: get_str_def)

lemma jget_Some_JObject: "jget k v = Some w \<Longrightarrow> \<exists>ms. v = JObject ms \<and> map_of ms k = Some w"
  by (cases v) auto

end
