(* ===== verification/Protocol.thy ===== *)
theory Protocol
  imports Json
begin

text \<open>
  The wire types of \<open>src/protocol/src/lib.rs\<close>: request ids, the incoming frame and its
  parser, the method classifiers, the sequenced event every consumer sees, and the request and
  notification envelopes the client writes. The types generated from the JSON Schema at build
  time are not used by any of this and are not modelled.
\<close>

section \<open>Frames\<close>

type_synonym sequence = u64

datatype rpc_id = RpcNumber u64 | RpcString string

datatype plane = Lifecycle | Delta

datatype known_message =
    ThreadStarted
  | ThreadStatusChanged
  | TurnStarted
  | TurnCompleted
  | TurnDiffUpdated
  | ItemLifecycle
  | ReviewerRequest

datatype incoming_frame =
    Response rpc_id "json option" "json option" json
  | Notification string json "known_message option" json
  | ServerRequest rpc_id string json "known_message option" json

text \<open>
  \<open>RpcId\<close> is an untagged enum: a JSON integer in the range of \<open>u64\<close> is a number,
  a JSON string is a string, anything else does not deserialize.
\<close>

fun rpc_id_of_value :: "json \<Rightarrow> rpc_id option" where
  "rpc_id_of_value (JNumber (PosInt n)) = Some (RpcNumber n)"
| "rpc_id_of_value (JString s) = Some (RpcString s)"
| "rpc_id_of_value _ = None"

fun rpc_id_value :: "rpc_id \<Rightarrow> json" where
  "rpc_id_value (RpcNumber n) = JNumber (PosInt n)"
| "rpc_id_value (RpcString s) = JString s"

definition classify :: "string \<Rightarrow> known_message option" where
  "classify m =
     (if m = ''thread/started'' then Some ThreadStarted
      else if m = ''thread/status/changed'' then Some ThreadStatusChanged
      else if m = ''turn/started'' then Some TurnStarted
      else if m = ''turn/completed'' then Some TurnCompleted
      else if m = ''turn/diff/updated'' then Some TurnDiffUpdated
      else if starts_with m ''item/'' \<and> \<not> str_contains m ''delta'' then Some ItemLifecycle
      else if str_contains m ''approval'' \<or> str_contains m ''requestUserInput''
        then Some ReviewerRequest
      else None)"

definition parse_frame :: "json \<Rightarrow> string + incoming_frame" where
  "parse_frame raw =
     (let id = jget ''id'' raw; meth = get_str ''method'' raw
      in case (id, meth) of
           (Some i, Some m) \<Rightarrow>
             (case rpc_id_of_value i of
                None \<Rightarrow> Inl ''invalid request id''
              | Some rid \<Rightarrow>
                  Inr (ServerRequest rid m (unwrap_or (jget ''params'' raw) JNull) (classify m) raw))
         | (None, Some m) \<Rightarrow>
             Inr (Notification m (unwrap_or (jget ''params'' raw) JNull) (classify m) raw)
         | (Some i, None) \<Rightarrow>
             (case rpc_id_of_value i of
                None \<Rightarrow> Inl ''invalid response id''
              | Some rid \<Rightarrow> Inr (Response rid (jget ''result'' raw) (jget ''error'' raw) raw))
         | (None, None) \<Rightarrow> Inl ''frame has neither method nor id'')"

fun frame_raw :: "incoming_frame \<Rightarrow> json" where
  "frame_raw (Response _ _ _ raw) = raw"
| "frame_raw (Notification _ _ _ raw) = raw"
| "frame_raw (ServerRequest _ _ _ _ raw) = raw"

fun frame_method :: "incoming_frame \<Rightarrow> string option" where
  "frame_method (Notification m _ _ _) = Some m"
| "frame_method (ServerRequest _ m _ _ _) = Some m"
| "frame_method (Response _ _ _ _) = None"

fun frame_params :: "incoming_frame \<Rightarrow> json option" where
  "frame_params (Notification _ p _ _) = Some p"
| "frame_params (ServerRequest _ _ p _ _) = Some p"
| "frame_params (Response _ _ _ _) = None"

fun is_server_request :: "incoming_frame \<Rightarrow> bool" where
  "is_server_request (ServerRequest _ _ _ _ _) = True"
| "is_server_request _ = False"

section \<open>Sequenced events\<close>

definition plane_for_method :: "string \<Rightarrow> plane" where
  "plane_for_method m =
     (if str_contains m ''delta'' \<or> ends_with m ''/updated'' \<or> str_contains m ''output''
      then Delta else Lifecycle)"

definition extract_thread_id :: "json \<Rightarrow> string option" where
  "extract_thread_id v =
     or_else (get_str ''threadId'' v)
       (or_else (Option.bind (jget ''thread'' v) (get_str ''id''))
         (Option.bind (jget ''turn'' v) (get_str ''threadId'')))"

definition extract_turn_id :: "json \<Rightarrow> string option" where
  "extract_turn_id v =
     or_else (get_str ''turnId'' v) (Option.bind (jget ''turn'' v) (get_str ''id''))"

definition extract_emitted_at_ms :: "json \<Rightarrow> u64 option" where
  "extract_emitted_at_ms v =
     Option.bind (or_else (jget ''emittedAtMs'' v) (jget ''emitted_at_ms'' v)) as_u64"

record sequenced_event =
  ev_sequence :: sequence
  ev_unix_receipt_ms :: u64
  ev_monotonic_ms :: u64
  ev_emitted_at_ms :: "u64 option"
  ev_plane :: plane
  ev_thread_id :: "string option"
  ev_turn_id :: "string option"
  ev_frame :: incoming_frame
  ev_reconstructed :: bool

text \<open>
  The wall clock is an argument: the duration since the Unix epoch, \<open>None\<close> when the
  clock reads a time before the epoch (\<open>duration_since\<close> fails, and the code takes the
  default duration).
\<close>

definition unix_receipt :: "duration option \<Rightarrow> u64" where
  "unix_receipt now = as_millis_u64 (unwrap_or now 0)"

definition from_frame :: "duration option \<Rightarrow> sequence \<Rightarrow> duration \<Rightarrow> incoming_frame \<Rightarrow> sequenced_event" where
  "from_frame now seq monotonic frame =
     (let params = frame_params frame; meth = unwrap_or (frame_method frame) ''''
      in \<lparr> ev_sequence = seq,
           ev_unix_receipt_ms = unix_receipt now,
           ev_monotonic_ms = as_millis_u64 monotonic,
           ev_emitted_at_ms = Option.bind params extract_emitted_at_ms,
           ev_plane = plane_for_method meth,
           ev_thread_id = Option.bind params extract_thread_id,
           ev_turn_id = Option.bind params extract_turn_id,
           ev_frame = frame,
           ev_reconstructed = False \<rparr>)"

definition anchor_raw :: "string \<Rightarrow> string \<Rightarrow> json" where
  "anchor_raw thread turn =
     JObject [(''jsonrpc'', JString ''2.0''),
              (''method'', JString ''turn/started''),
              (''params'', JObject [(''threadId'', JString thread),
                                    (''turn'', JObject [(''id'', JString turn)])])]"

text \<open>
  The constructor parses its own literal and unwraps the result (\<open>expect\<close>): a parse
  error would be a panic, here \<open>None\<close>.
\<close>

definition reconstructed_active_turn ::
  "duration option \<Rightarrow> sequence \<Rightarrow> duration \<Rightarrow> string \<Rightarrow> string \<Rightarrow> sequenced_event option" where
  "reconstructed_active_turn now seq monotonic thread turn =
     (case parse_frame (anchor_raw thread turn) of
        Inl _ \<Rightarrow> None
      | Inr frame \<Rightarrow>
          Some \<lparr> ev_sequence = seq,
                 ev_unix_receipt_ms = unix_receipt now,
                 ev_monotonic_ms = as_millis_u64 monotonic,
                 ev_emitted_at_ms = None,
                 ev_plane = Lifecycle,
                 ev_thread_id = Some thread,
                 ev_turn_id = Some turn,
                 ev_frame = frame,
                 ev_reconstructed = True \<rparr>)"

definition ev_method :: "sequenced_event \<Rightarrow> string option" where
  "ev_method e = frame_method (ev_frame e)"

text \<open>
  The encoded length is the length of what the JSON encoder answers, \<open>0\<close> where it
  fails; the encoder is an argument.
\<close>

definition encoded_len :: "(sequenced_event \<Rightarrow> 8 word list option) \<Rightarrow> sequenced_event \<Rightarrow> nat" where
  "encoded_len to_vec e = (case to_vec e of None \<Rightarrow> 0 | Some bytes \<Rightarrow> length bytes)"

section \<open>Outgoing envelopes\<close>

definition request_envelope :: "rpc_id \<Rightarrow> string \<Rightarrow> json \<Rightarrow> json" where
  "request_envelope i m p =
     JObject [(''jsonrpc'', JString ''2.0''), (''id'', rpc_id_value i),
              (''method'', JString m), (''params'', p)]"

definition notification_envelope :: "string \<Rightarrow> json \<Rightarrow> json" where
  "notification_envelope m p =
     JObject [(''jsonrpc'', JString ''2.0''), (''method'', JString m), (''params'', p)]"

section \<open>Lemmas\<close>

lemma rpc_id_roundtrip [simp]: "rpc_id_of_value (rpc_id_value i) = Some i"
  by (cases i) auto

lemma rpc_id_of_value_Some: "rpc_id_of_value v = Some i \<longleftrightarrow> v = rpc_id_value i"
  by (cases v; cases i) (auto elim: rpc_id_of_value.elims)

lemma parse_frame_raw: "parse_frame v = Inr f \<Longrightarrow> frame_raw f = v"
  by (auto simp: parse_frame_def Let_def split: option.splits)

lemma parse_frame_method: "parse_frame v = Inr f \<Longrightarrow> frame_method f = get_str ''method'' v"
  by (auto simp: parse_frame_def Let_def split: option.splits)

lemma from_frame_simps [simp]:
  "ev_sequence (from_frame now s m f) = s"
  "ev_frame (from_frame now s m f) = f"
  "ev_reconstructed (from_frame now s m f) = False"
  "ev_method (from_frame now s m f) = frame_method f"
  "ev_thread_id (from_frame now s m f) = Option.bind (frame_params f) extract_thread_id"
  "ev_turn_id (from_frame now s m f) = Option.bind (frame_params f) extract_turn_id"
  "ev_plane (from_frame now s m f) = plane_for_method (unwrap_or (frame_method f) '''')"
  by (simp_all add: from_frame_def ev_method_def Let_def)

lemma anchor_parses:
  "parse_frame (anchor_raw thread turn) =
     Inr (Notification ''turn/started''
            (JObject [(''threadId'', JString thread), (''turn'', JObject [(''id'', JString turn)])])
            (Some TurnStarted) (anchor_raw thread turn))"
  by (simp add: parse_frame_def anchor_raw_def Let_def classify_def)

lemma reconstructed_Some: "reconstructed_active_turn now s m thread turn \<noteq> None"
  by (simp add: reconstructed_active_turn_def anchor_parses)

lemma reconstructed_fields:
  assumes "reconstructed_active_turn now s m thread turn = Some e"
  shows "ev_thread_id e = Some thread" "ev_turn_id e = Some turn" "ev_sequence e = s"
    "ev_plane e = Lifecycle" "ev_reconstructed e" "ev_method e = Some ''turn/started''"
  using assms by (auto simp: reconstructed_active_turn_def anchor_parses ev_method_def)

section \<open>Sample events\<close>

text \<open>Notifications of one turn, for the closed instances of the properties.\<close>

definition sample_event :: "sequence \<Rightarrow> string \<Rightarrow> string \<Rightarrow> string \<Rightarrow> sequenced_event" where
  "sample_event seq m thread turn =
     from_frame (Some 0) seq 0
       (Notification m (JObject [(''threadId'', JString thread), (''turnId'', JString turn)])
          (classify m) JNull)"

lemma sample_event_simps [simp]:
  "ev_sequence (sample_event s m k t) = s"
  "ev_method (sample_event s m k t) = Some m"
  "ev_thread_id (sample_event s m k t) = Some k"
  "ev_turn_id (sample_event s m k t) = Some t"
  "ev_plane (sample_event s m k t) = plane_for_method m"
  "ev_reconstructed (sample_event s m k t) = False"
  by (simp_all add: sample_event_def extract_thread_id_def extract_turn_id_def)

lemma sample_planes [simp]:
  "plane_for_method ''turn/started'' = Lifecycle"
  "plane_for_method ''turn/completed'' = Lifecycle"
  "plane_for_method ''item/agentMessage/delta'' = Delta"
  by (simp_all add: plane_for_method_def)

lemma rpc_id_of_value_None: "rpc_id_of_value v = None \<longleftrightarrow> (\<forall>i. v \<noteq> rpc_id_value i)"
  by (metis not_None_eq rpc_id_of_value_Some)

text \<open>
  The method tests are case sensitive and ordered: the daemon's approval and user-input
  requests are named under \<open>item/\<close> and so are item lifecycle, never reviewer requests; and
  the streamed reasoning deltas, spelled with a capital D, are lifecycle events although the
  other streamed deltas are not.
\<close>

lemma item_methods_classified_by_prefix:
  "classify ''item/commandExecution/requestApproval'' = Some ItemLifecycle"
  "classify ''item/tool/requestUserInput'' = Some ItemLifecycle"
  "plane_for_method ''item/reasoning/textDelta'' = Lifecycle"
  "plane_for_method ''item/reasoning/summaryTextDelta'' = Lifecycle"
  by (simp_all add: classify_def plane_for_method_def)

section \<open>Properties\<close>

text \<open>The parser accepts exactly the frames with a well-formed id or a method, and loses
  nothing. An error names the reason: an id that is neither a \<open>u64\<close> nor a string, or
  neither id nor method. An accepted frame keeps the whole raw value, has the raw value's method,
  is a server request exactly when the value has both an id and a method, and a request or a
  response carries the id it was sent with.\<close>

theorem parse_frame_exact:
  shows "case parse_frame v of
      Inl reason \<Rightarrow>
        (if jget ''id'' v = None then get_str ''method'' v = None \<and> reason = ''frame has neither method nor id''
         else (\<forall>i. jget ''id'' v \<noteq> Some (rpc_id_value i)) \<and>
           reason = (if get_str ''method'' v = None then ''invalid response id'' else ''invalid request id''))
    | Inr f \<Rightarrow> frame_raw f = v \<and> frame_method f = get_str ''method'' v \<and>
        is_server_request f = (jget ''id'' v \<noteq> None \<and> get_str ''method'' v \<noteq> None) \<and>
        (case f of Notification m p k raw \<Rightarrow> jget ''id'' v = None
         | ServerRequest i m p k raw \<Rightarrow> jget ''id'' v = Some (rpc_id_value i)
         | Response i res err raw \<Rightarrow> jget ''id'' v = Some (rpc_id_value i) \<and>
             res = jget ''result'' v \<and> err = jget ''error'' v)"
  by (cases "jget ''id'' v"; cases "get_str ''method'' v")
    (auto simp: parse_frame_def Let_def rpc_id_of_value_Some rpc_id_of_value_None split: option.splits)

text \<open>What the client writes is what a peer reads: parsing a request or notification
  envelope gives back its id, method and parameters.\<close>

theorem envelopes_round_trip:
  shows "parse_frame (request_envelope i m p) =
      Inr (ServerRequest i m p (classify m) (request_envelope i m p)) \<and>
    parse_frame (notification_envelope m p) =
      Inr (Notification m p (classify m) (notification_envelope m p))"
  by (simp add: parse_frame_def request_envelope_def notification_envelope_def Let_def get_str_def)

text \<open>A reconstructed anchor is the event the parser would build from the anchor's own
  frame, with the reconstructed mark and nothing else changed; building it never panics.\<close>

theorem anchor_agrees_with_parser:
  shows "\<exists>f. parse_frame (anchor_raw thread turn) = Inr f \<and>
    reconstructed_active_turn now s monotonic thread turn =
      Some ((from_frame now s monotonic f)\<lparr>ev_reconstructed := True\<rparr>)"
  by (simp add: anchor_parses reconstructed_active_turn_def from_frame_def Let_def plane_for_method_def
      extract_emitted_at_ms_def extract_thread_id_def extract_turn_id_def get_str_def)

end
