(* ===== verification/Interfaces.thy ===== *)
theory Interfaces
  imports Prelude
begin

text \<open>
  The contracts between components, as locales: what a client of a component relies on, with
  the client-side lemmas proved once from the contract. Each is interpreted on the model's own
  definitions in the theory of the component that provides it.
\<close>

section \<open>Bounded replay log\<close>

text \<open>
  A log that keeps the last \<open>cap\<close> of the entries accepted by \<open>keep\<close>, each entry
  carrying a sequence number. The client asks for everything after a sequence number.
\<close>

locale bounded_log =
  fixes push :: "'e \<Rightarrow> 's \<Rightarrow> 's"
    and log :: "'s \<Rightarrow> 'e list"
    and cap :: "'s \<Rightarrow> nat"
    and keep :: "'e \<Rightarrow> bool"
    and seqno :: "'e \<Rightarrow> u64"
    and inv :: "'s \<Rightarrow> bool"
  assumes push_log: "inv s \<Longrightarrow>
      log (push e s) = (if keep e then take_last (cap s) (log s @ [e]) else log s)"
    and push_cap: "inv s \<Longrightarrow> cap (push e s) = cap s"
    and push_inv: "inv s \<Longrightarrow> inv (push e s)"
    and cap_pos: "inv s \<Longrightarrow> 0 < cap s"
    and log_bounded: "inv s \<Longrightarrow> length (log s) \<le> cap s"
begin

lemma fold_inv: "inv s \<Longrightarrow> inv (fold push es s)"
  by (induction es arbitrary: s) (auto simp: push_inv)

lemma fold_cap: "inv s \<Longrightarrow> cap (fold push es s) = cap s"
  by (induction es arbitrary: s) (auto simp: push_inv push_cap)

lemma fold_log: "inv s \<Longrightarrow> log (fold push es s) = take_last (cap s) (log s @ filter keep es)"
proof (induction es rule: rev_induct)
  case Nil
  then show ?case using log_bounded [of s] by (simp add: take_last_def)
next
  case (snoc e es)
  let ?s = "fold push es s"
  have "inv ?s" "cap ?s = cap s" using snoc.prems by (auto simp: fold_inv fold_cap)
  with snoc cap_pos [of s] show ?case
    by (simp add: push_log take_last_snoc flip: append_assoc)
qed

text \<open>
  The client's lemma: with strictly increasing sequence numbers, a log whose oldest entry
  is not beyond \<open>after + 1\<close> still holds every entry ever kept after \<open>after\<close>.
\<close>

lemma since_suffix:
  assumes inv: "inv s" and l: "log s = take_last (cap s) (filter keep es)"
    and sorted: "sorted_wrt (<) (map seqno es)"
    and nogap: "log s \<noteq> [] \<Longrightarrow> \<not> saturating_add after 1 < seqno (hd (log s))"
  shows "filter (\<lambda>e. after < seqno e) (log s) = filter (\<lambda>e. after < seqno e) (filter keep es)"
proof -
  obtain old where split: "filter keep es = old @ log s"
    using take_last_decomp l by metis
  have "filter (\<lambda>e. after < seqno e) old = []"
  proof (cases "log s = []")
    case True
    with l have "length (filter keep es) \<le> length (filter keep es) - cap s"
      by (simp add: take_last_def)
    with cap_pos [OF inv] have "length (filter keep es) = 0" by linarith
    then have "filter keep es = []" by simp
    with split show ?thesis by simp
  next
    case False
    have "sorted_wrt (<) (map seqno (filter keep es))"
      using sorted by (simp add: sorted_wrt_map sorted_wrt_filter)
    then have "\<forall>x \<in> set old. seqno x < seqno (hd (log s))"
      using False by (auto simp: split sorted_wrt_append sorted_wrt_map)
    with nogap [OF False] show ?thesis
      by (auto simp: filter_empty_conv dest: not_saturating_add_1_less)
  qed
  with split show ?thesis by (metis append_Nil filter_append)
qed

lemma since_complete:
  assumes inv: "inv s" and empty: "log s = []"
    and sorted: "sorted_wrt (<) (map seqno es)"
    and nogap: "log (fold push es s) \<noteq> [] \<Longrightarrow>
        \<not> saturating_add after 1 < seqno (hd (log (fold push es s)))"
  shows "filter (\<lambda>e. after < seqno e) (log (fold push es s)) =
      filter (\<lambda>e. after < seqno e) (filter keep es)"
  using since_suffix [OF fold_inv [OF inv] _ sorted nogap] fold_log [OF inv, of es]
  by (simp add: empty fold_cap [OF inv])

end

section \<open>Waiters\<close>

text \<open>
  A service that fires one-shot waiters: a client registers a predicate, and the first event
  applied afterwards that satisfies it is delivered, once. The client's lemma says that what
  is delivered after any run of events is exactly the first match.
\<close>

locale waiter_service =
  fixes register :: "('e \<Rightarrow> bool) \<Rightarrow> 's \<Rightarrow> 's \<times> nat"
    and deliver :: "'e \<Rightarrow> 's \<Rightarrow> 's"
    and pending :: "'s \<Rightarrow> nat \<Rightarrow> ('e \<Rightarrow> bool) option"
    and delivered :: "'s \<Rightarrow> nat \<Rightarrow> 'e option"
    and inv :: "'s \<Rightarrow> bool"
  assumes register_new: "inv s \<Longrightarrow> register p s = (t, i) \<Longrightarrow>
      inv t \<and> pending t i = Some p \<and> delivered t i = None"
    and deliver_inv: "inv s \<Longrightarrow> inv (deliver e s)"
    and deliver_hit: "inv s \<Longrightarrow> pending s i = Some p \<Longrightarrow> p e \<Longrightarrow>
      delivered (deliver e s) i = Some e"
    and deliver_miss: "inv s \<Longrightarrow> pending s i = Some p \<Longrightarrow> \<not> p e \<Longrightarrow>
      pending (deliver e s) i = Some p \<and> delivered (deliver e s) i = delivered s i"
    and deliver_sticky: "inv s \<Longrightarrow> delivered s i = Some x \<Longrightarrow>
      delivered (deliver e s) i = Some x"
begin

lemma run_inv: "inv s \<Longrightarrow> inv (fold deliver es s)"
  by (induction es arbitrary: s) (auto simp: deliver_inv)

lemma run_sticky: "inv s \<Longrightarrow> delivered s i = Some x \<Longrightarrow> delivered (fold deliver es s) i = Some x"
  by (induction es arbitrary: s) (auto simp: deliver_inv deliver_sticky)

lemma run_pending:
  "inv s \<Longrightarrow> pending s i = Some p \<Longrightarrow> delivered s i = None \<Longrightarrow>
     delivered (fold deliver es s) i = find p es"
proof (induction es arbitrary: s)
  case Nil
  then show ?case by simp
next
  case (Cons e es)
  show ?case
  proof (cases "p e")
    case True
    with Cons.prems show ?thesis by (simp add: deliver_hit deliver_inv run_sticky)
  next
    case False
    with Cons.prems show ?thesis by (simp add: Cons.IH deliver_miss deliver_inv)
  qed
qed

lemma await_first_match:
  "inv s \<Longrightarrow> register p s = (t, i) \<Longrightarrow> delivered (fold deliver es t) i = find p es"
  using register_new run_pending by blast

end

text \<open>
  The same service when other tasks run operations of their own besides: an operation either
  delivers one event or leaves what is pending and what was delivered alone.
\<close>

locale shared_waiter_service = waiter_service +
  fixes exec :: "'o \<Rightarrow> 's \<Rightarrow> 's"
    and event_of :: "'o \<Rightarrow> 'e option"
  assumes exec_event: "event_of x = Some e \<Longrightarrow> exec x s = deliver e s"
    and exec_inv: "inv s \<Longrightarrow> inv (exec x s)"
    and exec_pending: "inv s \<Longrightarrow> event_of x = None \<Longrightarrow> pending s i = Some p \<Longrightarrow> pending (exec x s) i = Some p"
    and exec_delivered: "inv s \<Longrightarrow> event_of x = None \<Longrightarrow> pending s i \<noteq> None \<or> delivered s i \<noteq> None \<Longrightarrow>
      delivered (exec x s) i = delivered s i"
begin

lemma exec_run_inv: "inv s \<Longrightarrow> inv (fold exec xs s)"
  by (induction xs arbitrary: s) (auto simp: exec_inv)

lemma exec_run_sticky: "inv s \<Longrightarrow> delivered s i = Some e \<Longrightarrow> delivered (fold exec xs s) i = Some e"
proof (induction xs arbitrary: s)
  case (Cons x xs)
  then have "delivered (exec x s) i = Some e"
    by (cases "event_of x") (auto simp: exec_event deliver_sticky exec_delivered)
  with Cons show ?case by (simp add: exec_inv)
qed simp

lemma exec_run_pending:
  "inv s \<Longrightarrow> pending s i = Some p \<Longrightarrow> delivered s i = None \<Longrightarrow>
     delivered (fold exec xs s) i = find p (List.map_filter event_of xs) \<and>
     (find p (List.map_filter event_of xs) = None \<longrightarrow> pending (fold exec xs s) i = Some p)"
proof (induction xs arbitrary: s)
  case Nil
  then show ?case by (simp add: List.map_filter_simps)
next
  case (Cons x xs)
  show ?case
  proof (cases "event_of x")
    case None
    with Cons.prems have "pending (exec x s) i = Some p" "delivered (exec x s) i = None"
      by (simp_all add: exec_pending exec_delivered)
    with Cons.IH [OF exec_inv [OF Cons.prems(1)]] None show ?thesis by (simp add: List.map_filter_simps)
  next
    case (Some e)
    note x = exec_event [OF Some, of s] exec_inv [OF Cons.prems(1), of x]
    show ?thesis
    proof (cases "p e")
      case True
      with Cons.prems Some x exec_run_sticky [of "deliver e s" i e xs] show ?thesis
        by (simp add: deliver_hit List.map_filter_simps)
    next
      case False
      with Cons.prems Some x Cons.IH [of "deliver e s"] show ?thesis
        by (simp add: deliver_miss List.map_filter_simps)
    qed
  qed
qed

lemma shared_first_match:
  assumes "inv s" and "register p s = (t, i)"
  shows "delivered (fold exec xs t) i = find p (List.map_filter event_of xs)"
    and "delivered (fold exec xs t) i = None \<Longrightarrow> pending (fold exec xs t) i = Some p"
  using exec_run_pending [of t i p xs] register_new [OF assms] by auto

end

section \<open>Iteration order of a hash map\<close>

text \<open>
  A hash map is iterated in some order that visits every key, in a way the program cannot
  rely on otherwise. The client's lemmas are about a search through the entries.
\<close>

locale hash_order =
  fixes order :: "('k \<rightharpoonup> 'v) \<Rightarrow> 'k list"
  assumes order_keys: "finite (dom m) \<Longrightarrow> set (order m) = dom m"
begin

lemma find_entry_None:
  "finite (dom m) \<Longrightarrow>
     find (\<lambda>k. is_some_and (m k) p) (order m) = None \<longleftrightarrow> (\<forall>k v. m k = Some v \<longrightarrow> \<not> p v)"
  by (fastforce simp: find_None_iff order_keys is_some_and_def split: option.splits)

lemma find_entry_unique:
  assumes "finite (dom m)" and "\<And>k v. m k = Some v \<Longrightarrow> p v \<Longrightarrow> k = k0"
  shows "find (\<lambda>k. is_some_and (m k) p) (order m) =
    (if is_some_and (m k0) p then Some k0 else None)"
proof (cases "is_some_and (m k0) p")
  case True
  then obtain v where v: "m k0 = Some v" "p v" by (cases "m k0") auto
  then obtain k where k: "find (\<lambda>k. is_some_and (m k) p) (order m) = Some k"
    using find_entry_None [OF assms(1), of p] by (cases "find (\<lambda>k. is_some_and (m k) p) (order m)") auto
  then have "is_some_and (m k) p" by (auto simp: find_Some_iff)
  then have "k = k0" using assms(2) by (cases "m k") auto
  with k True show ?thesis by simp
next
  case False
  then have "\<forall>k v. m k = Some v \<longrightarrow> \<not> p v" using assms(2) by auto
  with False show ?thesis using find_entry_None [OF assms(1), of p] by simp
qed

end

section \<open>Event sinks\<close>

text \<open>
  A component that takes events one by one, always accepts, and keeps a subsequence of what
  it was given.
\<close>

locale event_sink =
  fixes put :: "'e \<Rightarrow> 's \<Rightarrow> 's option"
    and contents :: "'s \<Rightarrow> 'e list"
    and inv :: "'s \<Rightarrow> bool"
  assumes put_total: "inv s \<Longrightarrow> \<exists>t. put e s = Some t \<and> inv t"
    and put_subseq: "inv s \<Longrightarrow> put e s = Some t \<Longrightarrow> subseq (contents t) (contents s @ [e])"
begin

fun put_all :: "'e list \<Rightarrow> 's \<Rightarrow> 's option" where
  "put_all [] s = Some s"
| "put_all (e # es) s = Option.bind (put e s) (put_all es)"

lemma put_all_total:
  "inv s \<Longrightarrow> \<exists>t. put_all es s = Some t \<and> inv t \<and> subseq (contents t) (contents s @ es)"
proof (induction es arbitrary: s)
  case Nil
  then show ?case by simp
next
  case (Cons e es)
  obtain u where u: "put e s = Some u" "inv u" using put_total [OF Cons.prems] by blast
  obtain t where t: "put_all es u = Some t" "inv t" "subseq (contents t) (contents u @ es)"
    using Cons.IH [OF u(2)] by blast
  have "subseq (contents u @ es) ((contents s @ [e]) @ es)"
    using put_subseq [OF Cons.prems u(1)] by (rule list_emb_append_mono) simp
  with t u show ?case by (auto dest: subseq_order.trans)
qed

end

section \<open>Runs of steps\<close>

text \<open>
  A component that is driven by a list of inputs, each of which may be impossible where it
  stands. What every step keeps, a run keeps; what every step adds to a history, a run adds.
\<close>

locale stepwise_run =
  fixes step :: "'x \<Rightarrow> 's \<Rightarrow> 's option"
    and run :: "'x list \<Rightarrow> 's \<Rightarrow> 's option"
  assumes run_Nil: "run [] s = Some s"
    and run_Cons: "run (x # xs) s = Option.bind (step x s) (run xs)"
begin

lemma run_append: "run (xs @ ys) s = Option.bind (run xs s) (run ys)"
proof (induction xs arbitrary: s)
  case (Cons x xs)
  then show ?case by (cases "step x s") (simp_all add: run_Cons)
qed (simp add: run_Nil)

lemma run_snoc: "run (xs @ [x]) s = Some u \<longleftrightarrow> (\<exists>t. run xs s = Some t \<and> step x t = Some u)"
  by (auto simp: run_append run_Nil run_Cons bind_eq_Some_conv)

lemma run_history:
  assumes "I [] s" and "\<And>xs x t u. run xs s = Some t \<Longrightarrow> I xs t \<Longrightarrow> step x t = Some u \<Longrightarrow> I (xs @ [x]) u"
  shows "run xs s = Some t \<Longrightarrow> I xs t"
proof (induction xs arbitrary: t rule: rev_induct)
  case Nil
  with assms(1) show ?case by (simp add: run_Nil)
next
  case (snoc x xs)
  from snoc.prems obtain u where u: "run xs s = Some u" "step x u = Some t" by (auto simp: run_snoc)
  with assms(2) snoc.IH show ?case by blast
qed

lemma run_invariant:
  assumes "I s" and "\<And>x t u. I t \<Longrightarrow> step x t = Some u \<Longrightarrow> I u" and "run xs s = Some t"
  shows "I t"
  by (rule run_history [of "\<lambda>_. I" s, OF assms(1) _ assms(3)]) (rule assms(2))

lemma run_simulation:
  assumes "I s" and "\<And>x t u. I t \<Longrightarrow> step x t = Some u \<Longrightarrow> I u"
    and "\<And>x t u. I t \<Longrightarrow> step x t = Some u \<Longrightarrow> R\<^sup>*\<^sup>* (view t) (view u)" and "run xs s = Some t"
  shows "R\<^sup>*\<^sup>* (view s) (view t)"
proof -
  have "I t \<and> R\<^sup>*\<^sup>* (view s) (view t)"
  proof (rule run_history [of "\<lambda>_ u. I u \<and> R\<^sup>*\<^sup>* (view s) (view u)", OF _ _ assms(4)])
    fix xs x u v
    assume "I u \<and> R\<^sup>*\<^sup>* (view s) (view u)" and "step x u = Some v"
    with assms(2,3) show "I v \<and> R\<^sup>*\<^sup>* (view s) (view v)" by (meson rtranclp_trans)
  qed (simp add: assms(1))
  then show ?thesis ..
qed

end

end
