(* ===== verification/Store.thy ===== *)
theory Store
  imports Protocol Interfaces "HOL-Library.Char_ord" "HOL-Library.List_Lexorder"
begin

text \<open>
  The bounded event store of \<open>src/store/src/lib.rs\<close>: a queue of events with byte
  accounting, evicted by age and by two byte caps, and the per-thread record of what was
  evicted. Three things outside the crate are arguments of the operations: the JSON encoder
  (\<open>tv\<close>) that decides an event's size, the iteration order of the \<open>HashMap\<close> of
  per-thread byte counts (\<open>order\<close>), and the clocks.
\<close>

section \<open>State\<close>

definition MIB :: nat where "MIB = 1024 * 1024"

record store_config =
  sc_retention :: duration
  sc_per_thread_bytes :: nat
  sc_global_bytes :: nat
  sc_emitted_at_tolerance :: duration

definition store_config_default :: store_config where
  "store_config_default =
     \<lparr> sc_retention = from_secs (10 * 60), sc_per_thread_bytes = 8 * MIB,
       sc_global_bytes = 64 * MIB, sc_emitted_at_tolerance = from_secs 2 \<rparr>"

record retention_gap =
  gap_before_sequence :: "sequence option"
  gap_summarized_delta_events :: u64
  gap_evicted_lifecycle_events :: u64

definition retention_gap_default :: retention_gap where
  "retention_gap_default =
     \<lparr> gap_before_sequence = None, gap_summarized_delta_events = 0,
       gap_evicted_lifecycle_events = 0 \<rparr>"

record query_result =
  qr_events :: "sequenced_event list"
  qr_gap :: "retention_gap option"

record inner =
  in_events :: "sequenced_event list"
  in_bytes :: nat
  in_thread_bytes :: "string \<rightharpoonup> nat"
  in_gaps :: "string option \<rightharpoonup> retention_gap"

record event_store =
  es_config :: store_config
  es_inner :: inner
  es_started_at :: duration

type_synonym encoder = "sequenced_event \<Rightarrow> 8 word list option"
type_synonym key_order = "(string \<rightharpoonup> nat) \<Rightarrow> string list"

definition inner_new :: inner where
  "inner_new = \<lparr> in_events = [], in_bytes = 0, in_thread_bytes = Map.empty, in_gaps = Map.empty \<rparr>"

definition store_new :: "store_config \<Rightarrow> duration \<Rightarrow> event_store" where
  "store_new cfg now = \<lparr> es_config = cfg, es_inner = inner_new, es_started_at = now \<rparr>"

section \<open>Eviction\<close>

definition evict_gap :: "sequenced_event \<Rightarrow> retention_gap \<Rightarrow> retention_gap" where
  "evict_gap e g0 =
     (let g = g0\<lparr>gap_before_sequence := Some (case gap_before_sequence g0 of
                  None \<Rightarrow> ev_sequence e | Some s \<Rightarrow> max s (ev_sequence e))\<rparr>
      in if ev_plane e = Delta
         then g\<lparr>gap_summarized_delta_events := gap_summarized_delta_events g + 1\<rparr>
         else g\<lparr>gap_evicted_lifecycle_events := gap_evicted_lifecycle_events g + 1\<rparr>)"

definition remove_at :: "encoder \<Rightarrow> nat \<Rightarrow> inner \<Rightarrow> inner" where
  "remove_at tv pos i0 =
     (if pos < length (in_events i0) then
        (let e = in_events i0 ! pos;
             size = encoded_len tv e;
             i1 = i0\<lparr>in_events := remove_index pos (in_events i0), in_bytes := in_bytes i0 - size\<rparr>;
             i2 = (case ev_thread_id e of
                     None \<Rightarrow> i1
                   | Some t \<Rightarrow> i1\<lparr>in_thread_bytes := (in_thread_bytes i1)(t \<mapsto>
                                   unwrap_or (in_thread_bytes i1 t) 0 - size)\<rparr>);
             gap = unwrap_or (in_gaps i2 (ev_thread_id e)) retention_gap_default
         in i2\<lparr>in_gaps := (in_gaps i2)(ev_thread_id e \<mapsto> evict_gap e gap)\<rparr>)
      else i0)"

text \<open>The loop that drops events older than the cutoff from the front.\<close>

function prune_age :: "encoder \<Rightarrow> u64 \<Rightarrow> inner \<Rightarrow> inner" where
  "prune_age tv cutoff i =
     (case in_events i of
        [] \<Rightarrow> i
      | e # _ \<Rightarrow> if ev_monotonic_ms e < cutoff then prune_age tv cutoff (remove_at tv 0 i) else i)"
  by pat_completeness auto
termination
proof (relation "measure (\<lambda>(tv, cutoff, i). length (in_events i))", simp)
  fix tv :: encoder and cutoff :: u64 and i :: inner and e es
  assume "in_events i = e # es"
  then show "((tv, cutoff, remove_at tv 0 i), tv, cutoff, i) \<in> measure (\<lambda>(tv, cutoff, i). length (in_events i))"
    by (simp add: remove_at_def Let_def split: option.splits)
qed

declare prune_age.simps [simp del]

definition over_thread :: "key_order \<Rightarrow> store_config \<Rightarrow> inner \<Rightarrow> string option" where
  "over_thread order cfg i =
     find (\<lambda>t. is_some_and (in_thread_bytes i t) (\<lambda>b. sc_per_thread_bytes cfg < b))
       (order (in_thread_bytes i))"

definition evict_position :: "string option \<Rightarrow> inner \<Rightarrow> nat" where
  "evict_position over i =
     unwrap_or (position (\<lambda>e. ev_plane e = Delta \<and> is_none_or over (\<lambda>t. ev_thread_id e = Some t))
       (in_events i)) 0"

text \<open>
  The byte-cap loop. It removes one event per turn while a cap is exceeded; that it stops
  at all rests on the accounting, so not stopping is the value \<open>None\<close>.
\<close>

partial_function (option) prune_caps :: "encoder \<Rightarrow> key_order \<Rightarrow> store_config \<Rightarrow> inner \<Rightarrow> inner option" where
  "prune_caps tv order cfg i =
     (if \<not> sc_global_bytes cfg < in_bytes i \<and> over_thread order cfg i = None then Some i
      else prune_caps tv order cfg (remove_at tv (evict_position (over_thread order cfg i) i) i))"

definition age_cutoff :: "store_config \<Rightarrow> inner \<Rightarrow> u64" where
  "age_cutoff cfg i =
     saturating_sub (if in_events i = [] then 0 else ev_monotonic_ms (last (in_events i)))
       (as_millis_u64 (sc_retention cfg))"

definition prune_locked :: "encoder \<Rightarrow> key_order \<Rightarrow> store_config \<Rightarrow> inner \<Rightarrow> inner option" where
  "prune_locked tv order cfg i = prune_caps tv order cfg (prune_age tv (age_cutoff cfg i) i)"

section \<open>Recording\<close>

definition push_event :: "encoder \<Rightarrow> sequenced_event \<Rightarrow> inner \<Rightarrow> inner" where
  "push_event tv e i0 =
     (let size = encoded_len tv e;
          i1 = i0\<lparr>in_bytes := in_bytes i0 + size\<rparr>;
          i2 = (case ev_thread_id e of
                  None \<Rightarrow> i1
                | Some t \<Rightarrow> i1\<lparr>in_thread_bytes := (in_thread_bytes i1)(t \<mapsto>
                                unwrap_or (in_thread_bytes i1 t) 0 + size)\<rparr>)
      in i2\<lparr>in_events := in_events i2 @ [e]\<rparr>)"

definition record_locked :: "encoder \<Rightarrow> key_order \<Rightarrow> store_config \<Rightarrow> sequenced_event \<Rightarrow> inner \<Rightarrow> inner option" where
  "record_locked tv order cfg e i = prune_locked tv order cfg (push_event tv e i)"

definition record_event :: "encoder \<Rightarrow> key_order \<Rightarrow> sequenced_event \<Rightarrow> event_store \<Rightarrow> event_store option" where
  "record_event tv order e st =
     map_option (\<lambda>i. st\<lparr>es_inner := i\<rparr>) (record_locked tv order (es_config st) e (es_inner st))"

definition genuine_start :: "string \<Rightarrow> string \<Rightarrow> sequenced_event \<Rightarrow> bool" where
  "genuine_start thread turn e \<longleftrightarrow>
     \<not> ev_reconstructed e \<and> ev_method e = Some ''turn/started'' \<and>
     ev_thread_id e = Some thread \<and> ev_turn_id e = Some turn"

text \<open>
  The outer \<open>option\<close> is the panic of the anchor's constructor or a loop that does not stop.
\<close>

definition record_reconstructed_active_turn ::
  "encoder \<Rightarrow> key_order \<Rightarrow> duration option \<Rightarrow> duration \<Rightarrow> sequence \<Rightarrow> string \<Rightarrow> string \<Rightarrow>
     event_store \<Rightarrow> (bool \<times> event_store) option" where
  "record_reconstructed_active_turn tv order unix_now now seq thread turn st =
     (if list_ex (genuine_start thread turn) (in_events (es_inner st)) then Some (False, st)
      else Option.bind
             (reconstructed_active_turn unix_now seq (now - es_started_at st) thread turn)
             (\<lambda>e. map_option (\<lambda>i. (True, st\<lparr>es_inner := i\<rparr>))
                   (record_locked tv order (es_config st) e (es_inner st))))"

section \<open>Queries\<close>

definition query_sequence :: "string option \<Rightarrow> sequence \<Rightarrow> sequence option \<Rightarrow> event_store \<Rightarrow> query_result" where
  "query_sequence thread after through st =
     \<lparr> qr_events = filter (\<lambda>e. after < ev_sequence e \<and>
                      is_none_or through (\<lambda>end. ev_sequence e \<le> end) \<and>
                      is_none_or thread (\<lambda>t. ev_thread_id e = Some t)) (in_events (es_inner st)),
       qr_gap = in_gaps (es_inner st) thread \<rparr>"

definition query_time :: "string option \<Rightarrow> u64 \<Rightarrow> u64 \<Rightarrow> event_store \<Rightarrow> query_result" where
  "query_time thread start_ms end_ms st =
     (let tolerance = as_millis_u64 (sc_emitted_at_tolerance (es_config st))
      in \<lparr> qr_events = filter (\<lambda>e.
             let timestamp = unwrap_or (ev_emitted_at_ms e) (ev_unix_receipt_ms e)
             in start_ms \<le> saturating_add timestamp tolerance \<and>
                timestamp \<le> saturating_add end_ms tolerance \<and>
                is_none_or thread (\<lambda>t. ev_thread_id e = Some t)) (in_events (es_inner st)),
           qr_gap = in_gaps (es_inner st) thread \<rparr>)"

section \<open>Idle content\<close>

text \<open>The loop runs the position from the end of the queue down to the front.\<close>

fun evict_idle_loop :: "encoder \<Rightarrow> string list \<Rightarrow> nat \<Rightarrow> inner \<Rightarrow> inner" where
  "evict_idle_loop tv idle 0 i = i"
| "evict_idle_loop tv idle (Suc pos) i =
     evict_idle_loop tv idle pos
       (if ev_plane (in_events i ! pos) = Delta \<and>
           is_some_and (ev_thread_id (in_events i ! pos)) (\<lambda>t. t \<in> set idle)
        then remove_at tv pos i else i)"

definition evict_idle_content :: "encoder \<Rightarrow> string list \<Rightarrow> event_store \<Rightarrow> event_store" where
  "evict_idle_content tv idle st =
     st\<lparr>es_inner := evict_idle_loop tv idle (length (in_events (es_inner st))) (es_inner st)\<rparr>"

definition store_len :: "event_store \<Rightarrow> nat" where
  "store_len st = length (in_events (es_inner st))"

definition store_is_empty :: "event_store \<Rightarrow> bool" where
  "store_is_empty st \<longleftrightarrow> in_events (es_inner st) = []"

definition store_bytes :: "event_store \<Rightarrow> nat" where
  "store_bytes st = in_bytes (es_inner st)"

section \<open>Iteration order\<close>

text \<open>One admissible iteration order: the sorted one.\<close>

definition sorted_keys :: "key_order" where
  "sorted_keys m = sorted_list_of_set (dom m)"

interpretation sorted_order: hash_order sorted_keys
  by unfold_locales (simp add: sorted_keys_def)

section \<open>Evictions\<close>

text \<open>Every eviction of the store is a sequence of removals.\<close>

inductive evicts :: "encoder \<Rightarrow> inner \<Rightarrow> inner \<Rightarrow> bool" for tv where
  evicts_refl: "evicts tv i i"
| evicts_step: "evicts tv (remove_at tv pos i) j \<Longrightarrow> evicts tv i j"

lemma evicts_remove_at: "evicts tv i (remove_at tv pos i)"
  by (rule evicts_step [OF evicts_refl])

lemma evicts_trans: "evicts tv i j \<Longrightarrow> evicts tv j k \<Longrightarrow> evicts tv i k"
  by (induction rule: evicts.induct) (auto intro: evicts.intros)

lemma evicts_prune_age: "evicts tv i (prune_age tv cutoff i)"
proof (induction tv cutoff i rule: prune_age.induct)
  case (1 tv cutoff i)
  show ?case
    by (subst prune_age.simps) (auto split: list.splits intro: evicts.intros 1)
qed

lemma prune_caps_run:
  assumes "prune_caps tv order cfg i = Some j"
  shows "evicts tv i j \<and> \<not> sc_global_bytes cfg < in_bytes j \<and> over_thread order cfg j = None"
proof (rule prune_caps.raw_induct [where P = "\<lambda>tv order cfg i j. evicts tv i j \<and>
    \<not> sc_global_bytes cfg < in_bytes j \<and> over_thread order cfg j = None", OF _ assms])
  fix f tv order cfg i j
  assume IH: "\<And>tv order cfg i j. f tv order cfg i = Some j \<Longrightarrow> evicts tv i j \<and>
      \<not> sc_global_bytes cfg < in_bytes j \<and> over_thread order cfg j = None"
    and eq: "(if \<not> sc_global_bytes cfg < in_bytes i \<and> over_thread order cfg i = None then Some i
      else f tv order cfg (remove_at tv (evict_position (over_thread order cfg i) i) i)) = Some j"
  show "evicts tv i j \<and> \<not> sc_global_bytes cfg < in_bytes j \<and> over_thread order cfg j = None"
  proof (cases "\<not> sc_global_bytes cfg < in_bytes i \<and> over_thread order cfg i = None")
    case True
    with eq show ?thesis by (auto intro: evicts_refl)
  next
    case False
    with eq have "f tv order cfg (remove_at tv (evict_position (over_thread order cfg i) i) i) = Some j"
      by (simp only: if_False)
    from IH [OF this] show ?thesis by (blast intro: evicts_step)
  qed
qed

lemma evicts_idle_loop: "evicts tv i (evict_idle_loop tv idle n i)"
  by (induction tv idle n i rule: evict_idle_loop.induct)
    (auto intro: evicts_refl evicts_trans [OF evicts_remove_at])

lemma prune_locked_run:
  assumes "prune_locked tv order cfg i = Some j"
  shows "evicts tv i j" "\<not> sc_global_bytes cfg < in_bytes j" "over_thread order cfg j = None"
  using prune_caps_run [OF assms [unfolded prune_locked_def]]
  by (auto intro: evicts_trans [OF evicts_prune_age])

section \<open>Accounting\<close>

definition bytes_of :: "encoder \<Rightarrow> sequenced_event list \<Rightarrow> nat" where
  "bytes_of tv es = sum_list (map (encoded_len tv) es)"

abbreviation of_thread :: "string option \<Rightarrow> sequenced_event \<Rightarrow> bool" where
  "of_thread k e \<equiv> ev_thread_id e = k"

definition accounted :: "encoder \<Rightarrow> inner \<Rightarrow> bool" where
  "accounted tv i \<longleftrightarrow>
     in_bytes i = bytes_of tv (in_events i) \<and>
     (\<forall>t. unwrap_or (in_thread_bytes i t) 0 = bytes_of tv (filter (of_thread (Some t)) (in_events i))) \<and>
     finite (dom (in_thread_bytes i))"

lemma bytes_of_Nil [simp]: "bytes_of tv [] = 0"
  by (simp add: bytes_of_def)

lemma bytes_of_Cons [simp]: "bytes_of tv (e # es) = encoded_len tv e + bytes_of tv es"
  by (simp add: bytes_of_def)

lemma bytes_of_append [simp]: "bytes_of tv (es @ fs) = bytes_of tv es + bytes_of tv fs"
  by (simp add: bytes_of_def)

lemma remove_index_split:
  "pos < length xs \<Longrightarrow> \<exists>ys zs. xs = ys @ xs ! pos # zs \<and> remove_index pos xs = ys @ zs"
  unfolding remove_index_def using id_take_nth_drop by blast

lemma remove_at_events: "in_events (remove_at tv pos i) = remove_index pos (in_events i)"
  by (simp add: remove_at_def remove_index_def Let_def split: option.splits)

lemma accounted_push: "accounted tv i \<Longrightarrow> accounted tv (push_event tv e i)"
  by (cases "ev_thread_id e") (auto simp: accounted_def push_event_def Let_def)

lemma accounted_remove_at:
  assumes "accounted tv i"
  shows "accounted tv (remove_at tv pos i)"
proof (cases "pos < length (in_events i)")
  case False
  with assms show ?thesis by (simp add: remove_at_def)
next
  case True
  then obtain ys zs where split: "in_events i = ys @ in_events i ! pos # zs"
    "remove_index pos (in_events i) = ys @ zs" using remove_index_split by blast
  let ?e = "in_events i ! pos"
  have bytes: "in_bytes i = encoded_len tv ?e + bytes_of tv (ys @ zs)"
    using assms unfolding accounted_def by (subst (asm) split(1)) simp
  have thr: "unwrap_or (in_thread_bytes i t) 0 =
      (if ev_thread_id ?e = Some t then encoded_len tv ?e else 0) +
      bytes_of tv (filter (of_thread (Some t)) (ys @ zs))" for t
    using assms unfolding accounted_def by (subst (asm) (2) split(1)) auto
  have fin: "finite (dom (in_thread_bytes i))" using assms by (simp add: accounted_def)
  show ?thesis
    using True bytes thr fin
    by (cases "ev_thread_id ?e") (auto simp: accounted_def remove_at_def Let_def split(2))
qed

lemma accounted_evicts: "evicts tv i j \<Longrightarrow> accounted tv i \<Longrightarrow> accounted tv j"
  by (induction rule: evicts.induct) (auto simp: accounted_remove_at)

lemma evicts_subseq: "evicts tv i j \<Longrightarrow> subseq (in_events j) (in_events i)"
  by (induction rule: evicts.induct)
    (auto simp: remove_at_events intro: subseq_order.trans [OF _ subseq_remove_index])

lemma push_event_events: "in_events (push_event tv e i) = in_events i @ [e]"
  by (simp add: push_event_def Let_def split: option.splits)

lemma push_event_bytes: "in_bytes (push_event tv e i) = in_bytes i + encoded_len tv e"
  by (simp add: push_event_def Let_def split: option.splits)

text \<open>Evictions only lower the counters.\<close>

lemma remove_at_bytes: "in_bytes (remove_at tv pos i) \<le> in_bytes i"
  by (simp add: remove_at_def Let_def split: option.splits)

lemma remove_at_thread_bytes:
  "unwrap_or (in_thread_bytes (remove_at tv pos i) t) 0 \<le> unwrap_or (in_thread_bytes i t) 0"
  by (simp add: remove_at_def Let_def split: option.splits)

section \<open>The byte-cap loop stops\<close>

lemma accounted_empty_within:
  assumes "accounted tv i" and "in_events i = []"
  shows "in_bytes i = 0" "over_thread order cfg i = None"
proof -
  show "in_bytes i = 0" using assms by (simp add: accounted_def)
  have "\<And>t. unwrap_or (in_thread_bytes i t) 0 = 0" using assms by (simp add: accounted_def)
  then have "\<not> is_some_and (in_thread_bytes i t) (\<lambda>b. n < b)" for t n
    by (cases "in_thread_bytes i t") (auto dest: meta_spec [of _ t])
  then show "over_thread order cfg i = None" by (simp add: over_thread_def find_None_iff)
qed

lemma evict_position_less: "in_events i \<noteq> [] \<Longrightarrow> evict_position over i < length (in_events i)"
  unfolding evict_position_def
  by (cases "position (\<lambda>e. ev_plane e = Delta \<and> is_none_or over (\<lambda>t. ev_thread_id e = Some t)) (in_events i)")
    (auto dest: position_Some)

lemma prune_caps_total: "accounted tv i \<Longrightarrow> \<exists>j. prune_caps tv order cfg i = Some j"
proof (induction "length (in_events i)" arbitrary: i rule: less_induct)
  case less
  show ?case
  proof (cases "in_events i = []")
    case True
    with accounted_empty_within [OF less.prems True] show ?thesis
      by (subst prune_caps.simps) simp
  next
    case False
    let ?j = "remove_at tv (evict_position (over_thread order cfg i) i) i"
    have "length (in_events ?j) < length (in_events i)"
      using evict_position_less [OF False] False by (simp add: remove_at_events)
    from less.hyps [OF this accounted_remove_at [OF less.prems]] show ?thesis
      by (subst prune_caps.simps) auto
  qed
qed

lemma record_locked_total:
  assumes "accounted tv i"
  shows "\<exists>j. record_locked tv order cfg e i = Some j"
  unfolding record_locked_def prune_locked_def
  by (rule prune_caps_total [OF accounted_evicts [OF evicts_prune_age accounted_push [OF assms]]])

lemma record_locked_run:
  assumes "record_locked tv order cfg e i = Some j"
  shows "evicts tv (push_event tv e i) j" "\<not> sc_global_bytes cfg < in_bytes j"
    "over_thread order cfg j = None"
  using prune_locked_run [OF assms [unfolded record_locked_def]] by auto

section \<open>Caps and iteration order\<close>

definition caps_ok :: "store_config \<Rightarrow> inner \<Rightarrow> bool" where
  "caps_ok cfg i \<longleftrightarrow> in_bytes i \<le> sc_global_bytes cfg \<and>
     (\<forall>t. unwrap_or (in_thread_bytes i t) 0 \<le> sc_per_thread_bytes cfg)"

definition store_inv :: "encoder \<Rightarrow> event_store \<Rightarrow> bool" where
  "store_inv tv st \<longleftrightarrow> accounted tv (es_inner st) \<and> caps_ok (es_config st) (es_inner st)"

lemma over_thread_None:
  assumes "hash_order order" and "accounted tv i"
  shows "over_thread order cfg i = None \<longleftrightarrow>
    (\<forall>t. unwrap_or (in_thread_bytes i t) 0 \<le> sc_per_thread_bytes cfg)"
proof -
  have fin: "finite (dom (in_thread_bytes i))" using assms(2) by (simp add: accounted_def)
  show ?thesis
    unfolding over_thread_def hash_order.find_entry_None [OF assms(1) fin]
    by (auto simp: unwrap_or_def not_less split: option.splits)
qed

lemma record_locked_inv:
  assumes "hash_order order" and "accounted tv i" and "record_locked tv order cfg e i = Some j"
  shows "accounted tv j" "caps_ok cfg j"
proof -
  note run = record_locked_run [OF assms(3)]
  show acc: "accounted tv j" by (rule accounted_evicts [OF run(1) accounted_push [OF assms(2)]])
  show "caps_ok cfg j"
    using run(2,3) over_thread_None [OF assms(1) acc] by (simp add: caps_ok_def)
qed

lemma store_inv_new: "store_inv tv (store_new cfg t0)"
  by (simp add: store_inv_def store_new_def inner_new_def accounted_def caps_ok_def)

lemma caps_ok_remove_at: "caps_ok cfg i \<Longrightarrow> caps_ok cfg (remove_at tv pos i)"
  unfolding caps_ok_def by (meson remove_at_bytes remove_at_thread_bytes le_trans)

lemma caps_ok_evicts: "evicts tv i j \<Longrightarrow> caps_ok cfg i \<Longrightarrow> caps_ok cfg j"
  by (induction rule: evicts.induct) (auto simp: caps_ok_remove_at)

lemma record_event_total:
  assumes "hash_order order" and "store_inv tv st"
  shows "\<exists>st'. record_event tv order e st = Some st' \<and> store_inv tv st' \<and> es_config st' = es_config st"
proof -
  have acc: "accounted tv (es_inner st)" using assms(2) by (simp add: store_inv_def)
  then obtain j where j: "record_locked tv order (es_config st) e (es_inner st) = Some j"
    using record_locked_total by blast
  with record_locked_inv [OF assms(1) acc j] show ?thesis
    by (simp add: record_event_def store_inv_def)
qed

lemma record_event_Some:
  assumes "record_event tv order e st = Some st'"
  shows "evicts tv (push_event tv e (es_inner st)) (es_inner st')" "es_config st' = es_config st"
    "es_started_at st' = es_started_at st"
  using assms record_locked_run(1) by (auto simp: record_event_def)

interpretation store_sink: event_sink "record_event tv sorted_keys"
    "\<lambda>st. in_events (es_inner st)" "store_inv tv" for tv
proof (unfold_locales, goal_cases)
  case (1 s e)
  then show ?case using record_event_total [OF sorted_order.hash_order_axioms, of tv s e] by blast
next
  case (2 s e t)
  from evicts_subseq [OF record_event_Some(1) [OF 2(2)]] show ?case
    by (simp add: push_event_events)
qed

text \<open>
  Only the thread of the event being recorded can exceed its cap, so the search for a thread
  over its cap has at most one answer, whatever the iteration order.
\<close>

definition only_over :: "store_config \<Rightarrow> string option \<Rightarrow> inner \<Rightarrow> bool" where
  "only_over cfg k i \<longleftrightarrow>
     (\<forall>t. Some t \<noteq> k \<longrightarrow> unwrap_or (in_thread_bytes i t) 0 \<le> sc_per_thread_bytes cfg)"

lemma only_over_push: "caps_ok cfg i \<Longrightarrow> only_over cfg (ev_thread_id e) (push_event tv e i)"
  by (cases "ev_thread_id e") (auto simp: only_over_def caps_ok_def push_event_def Let_def)

lemma only_over_remove_at: "only_over cfg k i \<Longrightarrow> only_over cfg k (remove_at tv pos i)"
  unfolding only_over_def by (meson remove_at_thread_bytes le_trans)

lemma only_over_evicts: "evicts tv i j \<Longrightarrow> only_over cfg k i \<Longrightarrow> only_over cfg k j"
  by (induction rule: evicts.induct) (auto simp: only_over_remove_at)

lemma over_thread_order_irrelevant:
  assumes "hash_order o1" "hash_order o2" "accounted tv i" "only_over cfg k i"
  shows "over_thread o1 cfg i = over_thread o2 cfg i"
proof (cases k)
  case None
  with assms show ?thesis by (simp add: only_over_def over_thread_None [THEN iffD2])
next
  case (Some k0)
  have fin: "finite (dom (in_thread_bytes i))" using assms(3) by (simp add: accounted_def)
  have "t = k0" if "in_thread_bytes i t = Some b" "sc_per_thread_bytes cfg < b" for t b
    using assms(4) that Some by (force simp: only_over_def dest: spec [of _ t])
  then show ?thesis
    unfolding over_thread_def
    by (simp add: hash_order.find_entry_unique [OF assms(1) fin, of _ k0]
        hash_order.find_entry_unique [OF assms(2) fin, of _ k0])
qed

lemma prune_caps_order_irrelevant:
  assumes "hash_order o1" "hash_order o2"
  shows "accounted tv i \<Longrightarrow> only_over cfg k i \<Longrightarrow> prune_caps tv o1 cfg i = prune_caps tv o2 cfg i"
proof (induction "length (in_events i)" arbitrary: i rule: less_induct)
  case less
  note same = over_thread_order_irrelevant [OF assms less.prems]
  show ?case
  proof (cases "in_events i = []")
    case True
    then show ?thesis
      using accounted_empty_within [OF less.prems(1) True]
      by (simp add: prune_caps.simps [of tv o1] prune_caps.simps [of tv o2])
  next
    case False
    let ?j = "remove_at tv (evict_position (over_thread o2 cfg i) i) i"
    have "length (in_events ?j) < length (in_events i)"
      using evict_position_less [OF False] False by (simp add: remove_at_events)
    from less.hyps [OF this accounted_remove_at [OF less.prems(1)] only_over_remove_at [OF less.prems(2)]]
    show ?thesis
      by (simp only: prune_caps.simps [of tv o1 cfg i] prune_caps.simps [of tv o2 cfg i] same)
  qed
qed

section \<open>A newest event that fits stays\<close>

text \<open>
  A lifecycle event that is no larger than the caps is retained by the pruning that follows its
  recording: older events go first, whatever their thread.
\<close>

definition fits :: "encoder \<Rightarrow> store_config \<Rightarrow> sequenced_event \<Rightarrow> bool" where
  "fits tv cfg e \<longleftrightarrow> encoded_len tv e \<le> sc_per_thread_bytes cfg \<and> encoded_len tv e \<le> sc_global_bytes cfg"

lemma remove_at_keeps_last:
  assumes "in_events i = es @ [e]" and "pos < length es"
  shows "\<exists>fs. in_events (remove_at tv pos i) = fs @ [e]"
  using assms by (auto simp: remove_at_events remove_index_def)

lemma prune_age_keeps_last:
  "in_events i = es @ [e] \<Longrightarrow> \<not> ev_monotonic_ms e < cutoff \<Longrightarrow> \<exists>fs. in_events (prune_age tv cutoff i) = fs @ [e]"
proof (induction tv cutoff i arbitrary: es rule: prune_age.induct)
  case (1 tv cutoff i)
  show ?case
  proof (cases es)
    case Nil
    with "1.prems" show ?thesis by (simp add: prune_age.simps [of tv cutoff i])
  next
    case (Cons f fs)
    have "in_events (remove_at tv 0 i) = fs @ [e]" using "1.prems"(1) Cons by (simp add: remove_at_events remove_index_def)
    with 1 Cons show ?thesis by (auto simp: prune_age.simps [of tv cutoff i])
  qed
qed

lemma alone_within:
  assumes "accounted tv i" and "in_events i = [e]" and "fits tv cfg e"
  shows "\<not> sc_global_bytes cfg < in_bytes i" "over_thread order cfg i = None"
proof -
  show "\<not> sc_global_bytes cfg < in_bytes i" using assms by (simp add: accounted_def fits_def)
  have "unwrap_or (in_thread_bytes i t) 0 \<le> sc_per_thread_bytes cfg" for t
    using assms by (auto simp: accounted_def fits_def)
  then have "\<not> is_some_and (in_thread_bytes i t) (\<lambda>b. sc_per_thread_bytes cfg < b)" for t
    by (cases "in_thread_bytes i t") (auto simp: not_less dest: meta_spec [of _ t])
  then show "over_thread order cfg i = None" by (simp add: over_thread_def find_None_iff)
qed

lemma evict_position_before_last:
  assumes "in_events i = es @ [e]" and "ev_plane e = Lifecycle" and "es \<noteq> []"
  shows "evict_position over i < length es"
proof -
  let ?p = "\<lambda>e. ev_plane e = Delta \<and> is_none_or over (\<lambda>t. ev_thread_id e = Some t)"
  show ?thesis
  proof (cases "position ?p (in_events i)")
    case (Some n)
    from position_Some [OF this] have "n < length (in_events i)" "?p (in_events i ! n)" by auto
    with assms(1,2) have "n \<noteq> length es" by auto
    with \<open>n < length (in_events i)\<close> Some assms(1) show ?thesis by (simp add: evict_position_def)
  qed (use assms(3) in \<open>simp add: evict_position_def\<close>)
qed

lemma prune_caps_keeps_last:
  assumes "prune_caps tv order cfg i = Some j" and "accounted tv i" and "in_events i = es @ [e]"
    and "ev_plane e = Lifecycle" and "fits tv cfg e"
  shows "\<exists>fs. in_events j = fs @ [e]"
proof -
  have "accounted tv i \<longrightarrow> (\<forall>es. in_events i = es @ [e] \<longrightarrow> fits tv cfg e \<longrightarrow> (\<exists>fs. in_events j = fs @ [e]))"
  proof (rule prune_caps.raw_induct [OF _ assms(1), where P = "\<lambda>tv order cfg i j. accounted tv i \<longrightarrow>
      (\<forall>es. in_events i = es @ [e] \<longrightarrow> fits tv cfg e \<longrightarrow> (\<exists>fs. in_events j = fs @ [e]))"], intro impI allI, goal_cases)
    case (1 f tv order cfg i j es)
    show ?case
    proof (cases "\<not> sc_global_bytes cfg < in_bytes i \<and> over_thread order cfg i = None")
      case True
      with 1 show ?thesis by auto
    next
      case False
      let ?i = "remove_at tv (evict_position (over_thread order cfg i) i) i"
      have "es \<noteq> []" using False alone_within [OF 1(3) _ 1(5)] 1(4) by auto
      from remove_at_keeps_last [OF 1(4) evict_position_before_last [OF 1(4) assms(4) this]]
      obtain fs where "in_events ?i = fs @ [e]" by blast
      with 1(1) [of tv order cfg ?i j] 1(2,5) False accounted_remove_at [OF 1(3)] show ?thesis by (auto split: if_splits)
    qed
  qed
  with assms show ?thesis by blast
qed

lemma record_keeps_last:
  assumes "record_event tv order e st = Some st'" and "store_inv tv st"
    and "ev_plane e = Lifecycle" and "fits tv (es_config st) e"
  shows "\<exists>es. in_events (es_inner st') = es @ [e]"
proof -
  let ?i = "push_event tv e (es_inner st)"
  have acc: "accounted tv ?i" using assms(2) by (simp add: store_inv_def accounted_push)
  have "\<not> ev_monotonic_ms e < age_cutoff (es_config st) ?i"
    by (simp add: age_cutoff_def push_event_events saturating_sub_def not_less word_le_nat_alt unat_sub_if')
  from prune_age_keeps_last [OF push_event_events this, of tv] obtain es where
    "in_events (prune_age tv (age_cutoff (es_config st) ?i) ?i) = es @ [e]" by blast
  moreover have "prune_caps tv order (es_config st) (prune_age tv (age_cutoff (es_config st) ?i) ?i) = Some (es_inner st')"
    using assms(1) by (auto simp: record_event_def record_locked_def prune_locked_def)
  ultimately show ?thesis using prune_caps_keeps_last accounted_evicts [OF evicts_prune_age acc] assms(3,4) by blast
qed

section \<open>What is evicted first\<close>

abbreviation deltas :: "inner \<Rightarrow> sequenced_event list" where
  "deltas i \<equiv> filter (\<lambda>e. ev_plane e = Delta) (in_events i)"

abbreviation lifecycles :: "inner \<Rightarrow> sequenced_event list" where
  "lifecycles i \<equiv> filter (\<lambda>e. ev_plane e = Lifecycle) (in_events i)"

lemma plane_not_Delta: "(pl \<noteq> Delta) = (pl = Lifecycle)"
  by (cases pl) auto

lemma evict_global_step:
  assumes "in_events i \<noteq> []"
  shows "let j = remove_at tv (evict_position None i) i
    in deltas j = tl (deltas i) \<and>
       (if deltas i = [] then lifecycles j = tl (lifecycles i) else lifecycles j = lifecycles i)"
proof (cases "position (\<lambda>e. ev_plane e = Delta) (in_events i)")
  case None
  then have no: "\<forall>e \<in> set (in_events i). ev_plane e = Lifecycle"
    by (simp add: position_None plane_not_Delta)
  obtain e es where "in_events i = e # es" using assms by (cases "in_events i") auto
  with no None show ?thesis
    by (simp add: evict_position_def remove_at_events Let_def filter_empty_conv)
next
  case (Some p)
  note pos = position_Some [OF Some]
  have split: "in_events i = take p (in_events i) @ in_events i ! p # drop (Suc p) (in_events i)"
    using pos by (simp add: id_take_nth_drop)
  have pre: "\<forall>e \<in> set (take p (in_events i)). ev_plane e = Lifecycle"
    using pos by (auto simp: in_set_conv_nth plane_not_Delta)
  have d: "deltas i = in_events i ! p # filter (\<lambda>e. ev_plane e = Delta) (drop (Suc p) (in_events i))"
    using pre pos by (subst split) (auto simp: filter_empty_conv)
  have l: "lifecycles i = take p (in_events i) @ filter (\<lambda>e. ev_plane e = Lifecycle) (drop (Suc p) (in_events i))"
    using pre pos by (subst split) (auto simp: filter_id_conv)
  have ev: "in_events (remove_at tv (evict_position None i) i) =
      take p (in_events i) @ drop (Suc p) (in_events i)"
    using Some by (simp add: evict_position_def remove_at_events remove_index_def)
  have fd: "filter (\<lambda>e. ev_plane e = Delta) (take p (in_events i)) = []"
    using pre by (auto simp: filter_empty_conv)
  have fl: "filter (\<lambda>e. ev_plane e = Lifecycle) (take p (in_events i)) = take p (in_events i)"
    using pre by (auto simp: filter_id_conv)
  show ?thesis by (simp add: Let_def ev d l fd fl)
qed

lemma over_thread_remove_at:
  assumes "hash_order order" "accounted tv i" "over_thread order cfg i = None"
  shows "over_thread order cfg (remove_at tv pos i) = None"
  using assms over_thread_None [OF assms(1) assms(2)]
    over_thread_None [OF assms(1) accounted_remove_at [OF assms(2)]]
    remove_at_thread_bytes le_trans by metis

lemma prune_caps_delta_first:
  assumes "hash_order order"
  shows "accounted tv i \<Longrightarrow> over_thread order cfg i = None \<Longrightarrow> prune_caps tv order cfg i = Some j \<Longrightarrow>
    \<exists>n m. deltas j = drop n (deltas i) \<and> lifecycles j = drop m (lifecycles i) \<and>
      (m = 0 \<or> deltas j = [])"
proof (induction "length (in_events i)" arbitrary: i rule: less_induct)
  case less
  show ?case
  proof (cases "sc_global_bytes cfg < in_bytes i")
    case False
    with less.prems(2,3) have "j = i" by (simp add: prune_caps.simps [of tv order cfg i])
    then show ?thesis by (intro exI [of _ 0]) simp
  next
    case True
    then have ne: "in_events i \<noteq> []" using less.prems(1) by (auto simp: accounted_def)
    let ?k = "remove_at tv (evict_position None i) i"
    have len: "length (in_events ?k) < length (in_events i)"
      using evict_position_less [OF ne] ne by (simp add: remove_at_events)
    have "prune_caps tv order cfg ?k = Some j"
      using less.prems(2,3) True by (simp add: prune_caps.simps [of tv order cfg i])
    from less.hyps [OF len accounted_remove_at [OF less.prems(1)]
        over_thread_remove_at [OF assms less.prems(1,2)] this]
    obtain n m where nm: "deltas j = drop n (deltas ?k)" "lifecycles j = drop m (lifecycles ?k)"
      "m = 0 \<or> deltas j = []" by blast
    from evict_global_step [OF ne, of tv]
    have step: "deltas ?k = tl (deltas i)"
      "lifecycles ?k = (if deltas i = [] then tl (lifecycles i) else lifecycles i)"
      by (auto simp: Let_def)
    show ?thesis
    proof (cases "deltas i = []")
      case True
      with nm step show ?thesis
        by (intro exI [of _ "Suc n"] exI [of _ "Suc m"]) (simp add: drop_Suc)
    next
      case False
      with nm step show ?thesis
        by (intro exI [of _ "Suc n"] exI [of _ m]) (simp add: drop_Suc)
    qed
  qed
qed

section \<open>What is reported as evicted\<close>

definition gap_of :: "inner \<Rightarrow> string option \<Rightarrow> retention_gap" where
  "gap_of i k = unwrap_or (in_gaps i k) retention_gap_default"

definition gap_counter :: "plane \<Rightarrow> retention_gap \<Rightarrow> u64" where
  "gap_counter pl g = (case pl of Delta \<Rightarrow> gap_summarized_delta_events g
     | Lifecycle \<Rightarrow> gap_evicted_lifecycle_events g)"

abbreviation of_kind :: "plane \<Rightarrow> string option \<Rightarrow> sequenced_event \<Rightarrow> bool" where
  "of_kind pl k e \<equiv> ev_plane e = pl \<and> ev_thread_id e = k"

text \<open>Evicted plus retained events of one plane and thread, as the counters report them.\<close>

definition tally :: "plane \<Rightarrow> string option \<Rightarrow> inner \<Rightarrow> u64" where
  "tally pl k i = gap_counter pl (gap_of i k) + of_nat (length (filter (of_kind pl k) (in_events i)))"

text \<open>An event is covered when it is retained or lies at or before its thread's gap mark.\<close>

definition covered :: "inner \<Rightarrow> sequenced_event \<Rightarrow> bool" where
  "covered i e \<longleftrightarrow> e \<in> set (in_events i) \<or>
     is_some_and (gap_before_sequence (gap_of i (ev_thread_id e))) (\<lambda>s. ev_sequence e \<le> s)"

lemma gap_of_remove_at:
  assumes "pos < length (in_events i)"
  shows "gap_of (remove_at tv pos i) k =
    (if ev_thread_id (in_events i ! pos) = k then evict_gap (in_events i ! pos) (gap_of i k) else gap_of i k)"
  using assms by (auto simp: gap_of_def remove_at_def Let_def split: option.splits)

lemma remove_at_beyond: "\<not> pos < length (in_events i) \<Longrightarrow> remove_at tv pos i = i"
  by (simp add: remove_at_def)

lemma gap_counter_evict:
  "gap_counter pl (evict_gap e g) = gap_counter pl g + (if ev_plane e = pl then 1 else 0)"
  by (cases pl; cases "ev_plane e") (auto simp: gap_counter_def evict_gap_def Let_def)

lemma tally_remove_at: "tally pl k (remove_at tv pos i) = tally pl k i"
proof (cases "pos < length (in_events i)")
  case False
  then show ?thesis by (simp add: remove_at_beyond)
next
  case True
  then obtain ys zs where split: "in_events i = ys @ in_events i ! pos # zs"
    "remove_index pos (in_events i) = ys @ zs" using remove_index_split by blast
  have "length (filter (of_kind pl k) (in_events i)) =
      length (filter (of_kind pl k) (ys @ zs)) + (if of_kind pl k (in_events i ! pos) then 1 else 0)"
    by (subst split(1)) simp
  then show ?thesis
    using True by (simp add: tally_def gap_of_remove_at remove_at_events split(2) gap_counter_evict)
qed

lemma tally_evicts: "evicts tv i j \<Longrightarrow> tally pl k j = tally pl k i"
  by (induction rule: evicts.induct) (auto simp: tally_remove_at)

lemma tally_push: "tally pl k (push_event tv e i) = tally pl k i + (if of_kind pl k e then 1 else 0)"
  by (auto simp: tally_def gap_of_def push_event_def Let_def split: option.splits)

lemma gap_before_evict:
  "gap_before_sequence (evict_gap e g) = Some (case gap_before_sequence g of
     None \<Rightarrow> ev_sequence e | Some s \<Rightarrow> max s (ev_sequence e))"
  by (simp add: evict_gap_def Let_def)

lemma covered_remove_at:
  assumes "covered i e"
  shows "covered (remove_at tv pos i) e"
proof (cases "pos < length (in_events i)")
  case False
  with assms show ?thesis by (simp add: remove_at_beyond)
next
  case True
  from mset_remove_index [OF this] have "set (in_events i) =
      insert (in_events i ! pos) (set (remove_index pos (in_events i)))"
    by (metis set_mset_add_mset_insert set_mset_mset)
  with assms True show ?thesis
    by (auto simp: covered_def gap_of_remove_at gap_before_evict remove_at_events is_some_and_def
        le_max_iff_disj split: option.splits)
qed

lemma covered_evicts: "evicts tv i j \<Longrightarrow> covered i e \<Longrightarrow> covered j e"
  by (induction rule: evicts.induct) (auto simp: covered_remove_at)

lemma covered_push: "covered i e \<or> e = f \<Longrightarrow> covered (push_event tv f i) e"
  by (auto simp: covered_def push_event_events gap_of_def push_event_def Let_def split: option.splits)

lemma gaps_evicts_None:
  "evicts tv i j \<Longrightarrow> in_gaps i None = None \<Longrightarrow> \<forall>e \<in> set (in_events i). ev_thread_id e \<noteq> None \<Longrightarrow>
     in_gaps j None = None"
proof (induction rule: evicts.induct)
  case (evicts_step pos i j)
  have "set (in_events (remove_at tv pos i)) \<subseteq> set (in_events i)"
    by (simp add: remove_at_events subseq_set [OF subseq_remove_index])
  moreover have "pos < length (in_events i) \<Longrightarrow> ev_thread_id (in_events i ! pos) \<noteq> None"
    using evicts_step.prems(2) nth_mem by blast
  then have "in_gaps (remove_at tv pos i) None = None"
    using evicts_step.prems(1) by (auto simp: remove_at_def Let_def split: option.splits)
  ultimately show ?case using evicts_step by blast
qed simp

section \<open>Runs of the store\<close>

text \<open>
  A run from an empty store with the list of events it was given: events recorded, anchors
  the store accepted, and passes over idle content.
\<close>

inductive store_run :: "encoder \<Rightarrow> key_order \<Rightarrow> store_config \<Rightarrow> sequenced_event list \<Rightarrow> event_store \<Rightarrow> bool"
  for tv order cfg where
  run_new: "store_run tv order cfg [] (store_new cfg t0)"
| run_record: "store_run tv order cfg h st \<Longrightarrow> record_event tv order e st = Some st' \<Longrightarrow>
    store_run tv order cfg (h @ [e]) st'"
| run_anchor: "store_run tv order cfg h st \<Longrightarrow>
    record_reconstructed_active_turn tv order unix_now now seq thread turn st = Some (True, st') \<Longrightarrow>
    reconstructed_active_turn unix_now seq (now - es_started_at st) thread turn = Some e \<Longrightarrow>
    store_run tv order cfg (h @ [e]) st'"
| run_evict_idle: "store_run tv order cfg h st \<Longrightarrow> store_run tv order cfg h (evict_idle_content tv idle st)"

inductive_cases store_run_newE: "store_run tv order cfg [] st"

lemma anchor_Some:
  assumes "record_reconstructed_active_turn tv order unix_now now seq thread turn st = Some (True, st')"
    and "reconstructed_active_turn unix_now seq (now - es_started_at st) thread turn = Some e"
  shows "record_event tv order e st = Some st'"
  using assms by (auto simp: record_reconstructed_active_turn_def record_event_def split: if_splits)

lemma anchor_total:
  assumes "hash_order order" "store_inv tv st"
  shows "\<exists>b st'. record_reconstructed_active_turn tv order unix_now now seq thread turn st = Some (b, st')"
proof -
  obtain e where "reconstructed_active_turn unix_now seq (now - es_started_at st) thread turn = Some e"
    using reconstructed_Some by blast
  moreover have "\<exists>j. record_locked tv order (es_config st) e (es_inner st) = Some j" for e
    using record_locked_total assms(2) unfolding store_inv_def by blast
  ultimately show ?thesis
    unfolding record_reconstructed_active_turn_def by (metis bind.bind_lunit option.simps(9))
qed

lemma evict_idle_content_evicts:
  "evicts tv (es_inner st) (es_inner (evict_idle_content tv idle st))"
  "es_config (evict_idle_content tv idle st) = es_config st"
  by (simp_all add: evict_idle_content_def evicts_idle_loop)

lemma store_run_inv:
  "store_run tv order cfg h st \<Longrightarrow> hash_order order \<Longrightarrow> store_inv tv st \<and> es_config st = cfg"
proof (induction rule: store_run.induct)
  case (run_new t0)
  show ?case using store_inv_new by (simp add: store_new_def)
next
  case (run_record h st e st')
  then show ?case using record_event_total [of order tv st e] by auto
next
  case (run_anchor h st unix_now now seq thread turn st' e)
  then show ?case using record_event_total [of order tv st e] anchor_Some by fastforce
next
  case (run_evict_idle h st idle)
  then show ?case
    by (auto simp: store_inv_def evict_idle_content_evicts(2)
        intro: accounted_evicts caps_ok_evicts evict_idle_content_evicts(1))
qed

lemma store_run_subseq: "store_run tv order cfg h st \<Longrightarrow> subseq (in_events (es_inner st)) h"
proof (induction rule: store_run.induct)
  case (run_new t0)
  show ?case by (simp add: store_new_def inner_new_def)
next
  case (run_record h st e st')
  from evicts_subseq [OF record_event_Some(1) [OF run_record(2)]] run_record.IH show ?case
    by (metis push_event_events list_emb_append_mono subseq_order.refl subseq_order.trans)
next
  case (run_anchor h st unix_now now seq thread turn st' e)
  from evicts_subseq [OF record_event_Some(1) [OF anchor_Some [OF run_anchor(2,3)]]] run_anchor.IH
  show ?case by (metis push_event_events list_emb_append_mono subseq_order.refl subseq_order.trans)
next
  case (run_evict_idle h st idle)
  then show ?case using evicts_subseq [OF evict_idle_content_evicts(1)] subseq_order.trans by blast
qed

lemma store_run_tally:
  "store_run tv order cfg h st \<Longrightarrow>
     tally pl k (es_inner st) = of_nat (length (filter (of_kind pl k) h))"
proof (induction rule: store_run.induct)
  case (run_new t0)
  show ?case
    by (cases pl) (simp_all add: tally_def store_new_def inner_new_def gap_of_def gap_counter_def retention_gap_default_def)
next
  case (run_record h st e st')
  from tally_evicts [OF record_event_Some(1) [OF run_record(2)], of pl k] run_record.IH show ?case
    by (simp add: tally_push)
next
  case (run_anchor h st unix_now now seq thread turn st' e)
  from tally_evicts [OF record_event_Some(1) [OF anchor_Some [OF run_anchor(2,3)]], of pl k] run_anchor.IH
  show ?case by (simp add: tally_push)
next
  case (run_evict_idle h st idle)
  then show ?case using tally_evicts [OF evict_idle_content_evicts(1)] by metis
qed

lemma store_run_covered: "store_run tv order cfg h st \<Longrightarrow> e \<in> set h \<Longrightarrow> covered (es_inner st) e"
proof (induction rule: store_run.induct)
  case (run_record h st f st')
  have "covered (push_event tv f (es_inner st)) e"
    by (rule covered_push) (use run_record in auto)
  then show ?case by (rule covered_evicts [OF record_event_Some(1) [OF run_record(2)]])
next
  case (run_anchor h st unix_now now seq thread turn st' f)
  have "covered (push_event tv f (es_inner st)) e"
    by (rule covered_push) (use run_anchor in auto)
  then show ?case by (rule covered_evicts [OF record_event_Some(1) [OF anchor_Some [OF run_anchor(2,3)]]])
next
  case (run_evict_idle h st idle)
  then show ?case using covered_evicts [OF evict_idle_content_evicts(1)] by blast
qed simp

text \<open>Single operations on a store in any state.\<close>

lemma covered_record:
  assumes "record_event tv order f st = Some st'"
  shows "covered (es_inner st) e \<Longrightarrow> covered (es_inner st') e" and "covered (es_inner st') f"
  using covered_evicts [OF record_event_Some(1) [OF assms]] covered_push by blast+

lemma anchor_cases:
  assumes "record_reconstructed_active_turn tv order unix_now now seq thread turn st = Some (b, st')"
  shows "st' = st \<or> (\<exists>e. record_event tv order e st = Some st')"
  using assms by (auto simp: record_reconstructed_active_turn_def record_event_def bind_eq_Some_conv
      split: if_splits)

lemma record_keeps_inv:
  assumes "hash_order order" and "store_inv tv st" and "record_event tv order e st = Some st'"
  shows "store_inv tv st'"
  using record_event_total [OF assms(1), of tv st e] assms by auto

section \<open>Idle content\<close>

definition idle_delta :: "string list \<Rightarrow> sequenced_event \<Rightarrow> bool" where
  "idle_delta idle e \<longleftrightarrow> ev_plane e = Delta \<and> is_some_and (ev_thread_id e) (\<lambda>t. t \<in> set idle)"

lemma evict_idle_loop_events:
  "n \<le> length (in_events i) \<Longrightarrow>
     in_events (evict_idle_loop tv idle n i) =
       filter (\<lambda>e. \<not> idle_delta idle e) (take n (in_events i)) @ drop n (in_events i)"
proof (induction n arbitrary: i)
  case 0
  then show ?case by simp
next
  case (Suc n)
  then have n: "n < length (in_events i)" by simp
  let ?e = "in_events i ! n"
  have take: "take (Suc n) (in_events i) = take n (in_events i) @ [?e]"
    using n by (simp add: take_Suc_conv_app_nth)
  have drop: "drop n (in_events i) = ?e # drop (Suc n) (in_events i)"
    using n by (simp add: Cons_nth_drop_Suc)
  show ?case
  proof (cases "idle_delta idle ?e")
    case True
    let ?j = "remove_at tv n i"
    have j: "in_events ?j = take n (in_events i) @ drop (Suc n) (in_events i)"
      by (simp add: remove_at_events remove_index_def)
    have "n \<le> length (in_events ?j)" using n by (simp add: j)
    from Suc.IH [OF this] True n show ?thesis
      by (simp add: j take idle_delta_def)
  next
    case False
    then have "evict_idle_loop tv idle (Suc n) i = evict_idle_loop tv idle n i"
      by (simp only: evict_idle_loop.simps idle_delta_def if_False)
    with Suc.IH [of i] False n show ?thesis by (simp add: take drop)
  qed
qed

lemma start_tolerance: "a \<le> saturating_add b c \<longleftrightarrow> unat a \<le> unat b + unat c"
  using unat_less_u64 [of a] by (auto simp: word_le_nat_alt unat_saturating_add)

lemma over_thread_only:
  assumes "over_thread order cfg i = Some u" "only_over cfg (Some t) i"
  shows "u = t" "sc_per_thread_bytes cfg < unwrap_or (in_thread_bytes i t) 0"
proof -
  have "is_some_and (in_thread_bytes i u) (\<lambda>b. sc_per_thread_bytes cfg < b)"
    using assms(1) by (auto simp: over_thread_def find_Some_iff)
  then have over: "sc_per_thread_bytes cfg < unwrap_or (in_thread_bytes i u) 0"
    by (cases "in_thread_bytes i u") simp_all
  with assms(2) show "u = t" unfolding only_over_def by (metis not_le option.inject)
  with over show "sc_per_thread_bytes cfg < unwrap_or (in_thread_bytes i t) 0" by simp
qed

lemma over_cap_oldest_first:
  assumes order: "hash_order order"
  shows "accounted tv i \<Longrightarrow> only_over cfg (Some t) i \<Longrightarrow> in_bytes i \<le> sc_global_bytes cfg \<Longrightarrow>
    \<forall>e \<in> set (in_events i). ev_thread_id e = Some t \<longrightarrow> ev_plane e \<noteq> Delta \<Longrightarrow>
    \<exists>j n. prune_caps tv order cfg i = Some j \<and> in_events j = drop n (in_events i)"
proof (induction "length (in_events i)" arbitrary: i rule: less_induct)
  case less
  show ?case
  proof (cases "over_thread order cfg i")
    case None
    with less.prems(3) have "prune_caps tv order cfg i = Some i"
      by (simp add: prune_caps.simps [of tv order cfg i])
    then show ?thesis by (intro exI [of _ i] exI [of _ 0]) simp
  next
    case (Some u)
    with less.prems(2) have u: "u = t" by (blast dest: over_thread_only(1))
    have ne: "in_events i \<noteq> []"
      using accounted_empty_within [OF less.prems(1)] Some by auto
    have pos: "evict_position (Some t) i = 0"
    proof -
      have "position (\<lambda>e. ev_plane e = Delta \<and> ev_thread_id e = Some t) (in_events i) = None"
        using less.prems(4) by (auto simp: position_None)
      then show ?thesis by (simp add: evict_position_def)
    qed
    let ?k = "remove_at tv 0 i"
    have ev: "in_events ?k = tl (in_events i)"
      using ne by (cases "in_events i") (simp_all add: remove_at_events remove_index_def)
    have "prune_caps tv order cfg i = prune_caps tv order cfg ?k"
      using Some u pos by (subst prune_caps.simps) simp
    moreover have "\<exists>j n. prune_caps tv order cfg ?k = Some j \<and> in_events j = drop n (in_events ?k)"
    proof (rule less.hyps)
      show "length (in_events ?k) < length (in_events i)" using ne by (simp add: ev)
      show "accounted tv ?k" by (rule accounted_remove_at [OF less.prems(1)])
      show "only_over cfg (Some t) ?k"
        by (rule only_over_evicts [OF evicts_remove_at less.prems(2)])
      show "in_bytes ?k \<le> sc_global_bytes cfg" using less.prems(3) remove_at_bytes le_trans by blast
      show "\<forall>e \<in> set (in_events ?k). ev_thread_id e = Some t \<longrightarrow> ev_plane e \<noteq> Delta"
        using less.prems(4) ne by (auto simp: ev dest: list.set_sel(2))
    qed
    ultimately show ?thesis by (metis ev drop_Suc)
  qed
qed

section \<open>A small store\<close>

text \<open>A concrete encoder and configuration, and a run that evicts.\<close>

definition sample_tv :: encoder where "sample_tv _ = Some (replicate 5 0)"

definition sample_cfg :: store_config where
  "sample_cfg = \<lparr> sc_retention = 0, sc_per_thread_bytes = 7, sc_global_bytes = 9,
     sc_emitted_at_tolerance = 0 \<rparr>"

definition sample_a :: sequenced_event where "sample_a = sample_event 1 ''turn/started'' ''t'' ''a''"
definition sample_b :: sequenced_event where "sample_b = sample_event 2 ''turn/completed'' ''t'' ''a''"

definition sample_d :: sequenced_event where
  "sample_d = sample_event 3 ''item/agentMessage/delta'' ''u'' ''b''"

lemma sample_len [simp]: "encoded_len sample_tv e = 5"
  by (simp add: encoded_len_def sample_tv_def)

lemma sample_runs: "\<exists>st. store_run sample_tv sorted_keys sample_cfg [sample_a, sample_b] st"
proof -
  note inv = store_run_inv [OF _ sorted_order.hash_order_axioms]
  have r0: "store_run sample_tv sorted_keys sample_cfg [] (store_new sample_cfg 0)" by (rule run_new)
  obtain s1 where "record_event sample_tv sorted_keys sample_a (store_new sample_cfg 0) = Some s1"
    using record_event_total [OF sorted_order.hash_order_axioms] inv [OF r0] by blast
  from run_record [OF r0 this] have r1: "store_run sample_tv sorted_keys sample_cfg [sample_a] s1" by simp
  obtain s2 where "record_event sample_tv sorted_keys sample_b s1 = Some s2"
    using record_event_total [OF sorted_order.hash_order_axioms] inv [OF r1] by blast
  from run_record [OF r1 this] show ?thesis by auto
qed

definition roomy_cfg :: store_config where
  "roomy_cfg = \<lparr> sc_retention = 0, sc_per_thread_bytes = 100, sc_global_bytes = 100,
     sc_emitted_at_tolerance = 0 \<rparr>"

definition pressed :: inner where
  "pressed = push_event sample_tv sample_a (push_event sample_tv sample_d inner_new)"

lemma accounted_new: "accounted tv inner_new"
  by (simp add: accounted_def inner_new_def)

definition crowded :: inner where
  "crowded = push_event sample_tv sample_b pressed"

definition thread_cfg :: store_config where
  "thread_cfg = \<lparr> sc_retention = 0, sc_per_thread_bytes = 7, sc_global_bytes = 100,
     sc_emitted_at_tolerance = 0 \<rparr>"

lemma roomy_prune: "prune_locked sample_tv sorted_keys roomy_cfg (push_event sample_tv sample_a inner_new) =
    Some (push_event sample_tv sample_a inner_new)"
proof -
  let ?i = "push_event sample_tv sample_a inner_new"
  have i: "in_events ?i = [sample_a]" "in_bytes ?i = 5" "in_thread_bytes ?i = [''t'' \<mapsto> 5]"
    by (simp_all add: push_event_def inner_new_def sample_a_def)
  have "prune_age sample_tv (age_cutoff roomy_cfg ?i) ?i = ?i"
    by (subst prune_age.simps) (simp add: i age_cutoff_def saturating_sub_def as_millis_u64_def roomy_cfg_def)
  moreover have "over_thread sorted_keys roomy_cfg ?i = None"
    by (simp add: over_thread_def i sorted_keys_def roomy_cfg_def)
  ultimately show ?thesis
    by (simp add: prune_locked_def prune_caps.simps [of _ _ _ ?i] i roomy_cfg_def)
qed

lemma roomy_run: "store_run sample_tv sorted_keys roomy_cfg [sample_a]
    (store_new roomy_cfg 0 \<lparr> es_inner := push_event sample_tv sample_a inner_new \<rparr>)"
proof -
  have "record_event sample_tv sorted_keys sample_a (store_new roomy_cfg 0) =
      Some (store_new roomy_cfg 0 \<lparr> es_inner := push_event sample_tv sample_a inner_new \<rparr>)"
    by (simp add: record_event_def record_locked_def store_new_def roomy_prune)
  from run_record [OF run_new this] show ?thesis by simp
qed

interpretation reversed_order: hash_order "\<lambda>m. rev (sorted_keys m)"
  by unfold_locales (simp add: sorted_keys_def)

section \<open>Properties\<close>

text \<open>C5. Recording always returns and leaves the store within its caps. In every reachable
  store, whatever the hash map's iteration order, the eviction loops stop; afterwards the
  retained bytes and every thread's bytes are exactly those of the retained events and lie
  within the global and the per-thread cap; and even before eviction the byte counter never
  exceeds the global cap by more than the one event.\<close>

theorem record_stays_within_caps:
  assumes "hash_order order" and "store_run tv order cfg h st"
  shows "\<exists>st'. record_event tv order e st = Some st' \<and>
    store_bytes st' = sum_list (map (encoded_len tv) (in_events (es_inner st'))) \<and>
    store_bytes st' \<le> sc_global_bytes cfg \<and>
    (\<forall>t. sum_list (map (encoded_len tv)
           (filter (\<lambda>e. ev_thread_id e = Some t) (in_events (es_inner st')))) \<le> sc_per_thread_bytes cfg) \<and>
    in_bytes (push_event tv e (es_inner st)) \<le> sc_global_bytes cfg + encoded_len tv e"
proof -
  note inv = store_run_inv [OF assms(2,1)]
  obtain st' where st': "record_event tv order e st = Some st'" "store_inv tv st'"
    "es_config st' = es_config st"
    using record_event_total [OF assms(1)] inv by blast
  then show ?thesis
    using inv by (auto simp: store_inv_def accounted_def caps_ok_def bytes_of_def store_bytes_def
        push_event_bytes)
qed

theorem record_stays_within_caps_witness:
  "\<exists>st'. record_event (\<lambda>_. Some (replicate 5 0)) sorted_keys (sample_event 1 ''turn/started'' ''t'' ''a'')
     (store_new \<lparr> sc_retention = 0, sc_per_thread_bytes = 7, sc_global_bytes = 9,
        sc_emitted_at_tolerance = 0 \<rparr> 0) = Some st' \<and> store_bytes st' \<le> 9"
  using record_stays_within_caps [OF sorted_order.hash_order_axioms
      run_new [of "\<lambda>_. Some (replicate 5 0)" sorted_keys "\<lparr> sc_retention = 0, sc_per_thread_bytes = 7,
        sc_global_bytes = 9, sc_emitted_at_tolerance = 0 \<rparr>" 0],
      of "sample_event 1 ''turn/started'' ''t'' ''a''"]
  by auto

text \<open>C17. Eviction is reported, event for event. In every reachable store, for each plane and
  each thread (or none), the gap counter plus the number of retained events is the number of
  events ever given to the store, counted modulo \<open>2^64\<close>; and what is retained is a
  subsequence of what was given, in the order it was given.\<close>

theorem gap_counters_account_for_every_event:
  assumes "store_run tv order cfg h st"
  shows "gap_counter pl (unwrap_or (in_gaps (es_inner st) k) retention_gap_default) +
      of_nat (length (filter (of_kind pl k) (in_events (es_inner st)))) =
      of_nat (length (filter (of_kind pl k) h)) \<and>
    subseq (in_events (es_inner st)) h"
  using store_run_tally [OF assms, of pl k] store_run_subseq [OF assms]
  by (simp add: tally_def gap_of_def)

theorem gap_counters_account_for_every_event_witness:
  "\<exists>st. store_run sample_tv sorted_keys sample_cfg [sample_a, sample_b] st \<and>
     gap_evicted_lifecycle_events (unwrap_or (in_gaps (es_inner st) (Some ''t'')) retention_gap_default) +
     of_nat (length (filter (of_kind Lifecycle (Some ''t'')) (in_events (es_inner st)))) = 2"
proof -
  obtain st where run: "store_run sample_tv sorted_keys sample_cfg [sample_a, sample_b] st"
    using sample_runs by blast
  from gap_counters_account_for_every_event [OF this, of Lifecycle "Some ''t''"]
  have "gap_evicted_lifecycle_events (unwrap_or (in_gaps (es_inner st) (Some ''t'')) retention_gap_default) +
     of_nat (length (filter (of_kind Lifecycle (Some ''t'')) (in_events (es_inner st)))) = 2"
    by (simp add: gap_counter_def sample_a_def sample_b_def)
  with run show ?thesis by blast
qed

text \<open>C32. A thread query is complete unless it says otherwise. In every reachable store whose
  events were all different, a query of a thread after a sequence number answers exactly the
  thread's events ever given in the range, unless the answer carries a gap that reaches beyond
  that sequence number.\<close>

theorem thread_query_complete_or_gap:
  assumes "store_run tv order cfg h st" and "distinct h"
    and "is_none_or (Option.bind (qr_gap (query_sequence (Some t) after through st)) gap_before_sequence)
      (\<lambda>s. s \<le> after)"
  shows "qr_events (query_sequence (Some t) after through st) =
    filter (\<lambda>e. after < ev_sequence e \<and> is_none_or through (\<lambda>end. ev_sequence e \<le> end) \<and>
      ev_thread_id e = Some t) h"
proof -
  have "e \<in> set (in_events (es_inner st))"
    if "e \<in> set h" "after < ev_sequence e" "ev_thread_id e = Some t" for e
  proof (cases "in_gaps (es_inner st) (Some t)")
    case None
    with store_run_covered [OF assms(1) that(1)] that(3) show ?thesis
      by (simp add: covered_def gap_of_def retention_gap_default_def)
  next
    case (Some g)
    with store_run_covered [OF assms(1) that(1)] that(2,3) assms(3) show ?thesis
      by (cases "gap_before_sequence g") (auto simp: covered_def gap_of_def query_sequence_def)
  qed
  then have "filter (\<lambda>e. after < ev_sequence e \<and> is_none_or through (\<lambda>end. ev_sequence e \<le> end) \<and>
      ev_thread_id e = Some t) (in_events (es_inner st)) =
    filter (\<lambda>e. after < ev_sequence e \<and> is_none_or through (\<lambda>end. ev_sequence e \<le> end) \<and>
      ev_thread_id e = Some t) h"
    by (intro subseq_filter_complete [OF store_run_subseq [OF assms(1)] assms(2)]) auto
  then show ?thesis by (simp add: query_sequence_def)
qed

theorem thread_query_complete_or_gap_witness:
  "qr_events (query_sequence (Some ''t'') 0 None
     (store_new roomy_cfg 0 \<lparr> es_inner := push_event sample_tv sample_a inner_new \<rparr>)) = [sample_a]"
  using thread_query_complete_or_gap [OF roomy_run, where t = "''t''" and after = 0 and through = None]
  by (simp add: query_sequence_def push_event_def inner_new_def sample_a_def)

text \<open>Under global pressure alone, deltas go first, oldest first. When no thread is over its
  own cap, the byte-cap loop drops a prefix of the retained deltas and a prefix of the retained
  lifecycle events, and it drops a lifecycle event only when no delta is left.\<close>

theorem global_pressure_evicts_deltas_first:
  assumes "hash_order order" and "accounted tv i" and "over_thread order cfg i = None"
    and "prune_caps tv order cfg i = Some j"
  shows "\<exists>n m. deltas j = drop n (deltas i) \<and> lifecycles j = drop m (lifecycles i) \<and>
    (m = 0 \<or> deltas j = [])"
  using prune_caps_delta_first [OF assms(1) assms(2-4)] .

theorem global_pressure_evicts_deltas_first_witness:
  "\<exists>j. prune_caps sample_tv sorted_keys sample_cfg pressed = Some j \<and>
     (lifecycles j = [sample_a] \<or> deltas j = [])"
proof -
  have acc: "accounted sample_tv pressed"
    unfolding pressed_def by (intro accounted_push accounted_new)
  have over: "over_thread sorted_keys sample_cfg pressed = None"
    by (subst over_thread_None [OF sorted_order.hash_order_axioms acc])
      (simp add: pressed_def push_event_def inner_new_def sample_a_def sample_d_def sample_cfg_def)
  obtain j where j: "prune_caps sample_tv sorted_keys sample_cfg pressed = Some j"
    using prune_caps_total [OF acc] by blast
  have "lifecycles pressed = [sample_a]"
    by (simp add: pressed_def push_event_def inner_new_def sample_a_def sample_d_def)
  with j global_pressure_evicts_deltas_first [OF sorted_order.hash_order_axioms acc over j]
  show ?thesis by auto
qed

text \<open>The hash map's iteration order cannot be observed. In a store within its caps,
  recording an event gives the same store whichever admissible order the search for an
  over-cap thread iterates in, because at most one thread can be over its cap.\<close>

theorem record_independent_of_iteration_order:
  assumes "hash_order o1" and "hash_order o2" and "store_inv tv st"
  shows "record_event tv o1 e st = record_event tv o2 e st"
proof -
  let ?i = "push_event tv e (es_inner st)"
  let ?j = "prune_age tv (age_cutoff (es_config st) ?i) ?i"
  have "accounted tv ?i" using assms(3) by (simp add: store_inv_def accounted_push)
  moreover have "only_over (es_config st) (ev_thread_id e) ?i"
    using assms(3) by (simp add: store_inv_def only_over_push)
  ultimately have "prune_caps tv o1 (es_config st) ?j = prune_caps tv o2 (es_config st) ?j"
    by (intro prune_caps_order_irrelevant [OF assms(1,2)])
      (auto intro: accounted_evicts only_over_evicts evicts_prune_age)
  then show ?thesis by (simp add: record_event_def record_locked_def prune_locked_def)
qed

theorem record_independent_of_iteration_order_witness:
  "record_event sample_tv sorted_keys sample_a (store_new sample_cfg 0) =
     record_event sample_tv (\<lambda>m. rev (sorted_keys m)) sample_a (store_new sample_cfg 0)"
  using record_independent_of_iteration_order [OF sorted_order.hash_order_axioms reversed_order.hash_order_axioms
      conjunct1 [OF store_run_inv [OF run_new [of sample_tv sorted_keys sample_cfg 0] sorted_order.hash_order_axioms]],
      of sample_a] .

text \<open>A reconstructed anchor never duplicates or impersonates a wire event. The operation
  always returns; it answers \<open>False\<close> and changes nothing exactly when a genuine
  \<open>turn/started\<close> of that thread and turn is retained, and otherwise records one event for
  the thread and turn that is marked reconstructed.\<close>

theorem anchor_only_without_genuine_start:
  assumes "hash_order order" and "store_inv tv st"
  shows "if list_ex (genuine_start thread turn) (in_events (es_inner st))
    then record_reconstructed_active_turn tv order unix_now now seq thread turn st = Some (False, st)
    else (\<exists>e st'. record_reconstructed_active_turn tv order unix_now now seq thread turn st = Some (True, st') \<and>
      record_event tv order e st = Some st' \<and> ev_reconstructed e \<and> \<not> genuine_start thread turn e \<and>
      ev_thread_id e = Some thread \<and> ev_turn_id e = Some turn \<and> ev_sequence e = seq)"
proof (cases "list_ex (genuine_start thread turn) (in_events (es_inner st))")
  case True
  then show ?thesis by (simp add: record_reconstructed_active_turn_def)
next
  case False
  obtain e where e: "reconstructed_active_turn unix_now seq (now - es_started_at st) thread turn = Some e"
    using reconstructed_Some by blast
  obtain b st' where r: "record_reconstructed_active_turn tv order unix_now now seq thread turn st = Some (b, st')"
    using anchor_total [OF assms] by blast
  with False e have b: "b" by (auto simp: record_reconstructed_active_turn_def)
  with r e have "record_event tv order e st = Some st'" by (auto intro: anchor_Some)
  with False r b reconstructed_fields [OF e] show ?thesis by (auto simp: genuine_start_def)
qed

theorem anchor_only_without_genuine_start_witness:
  "\<exists>st'. record_reconstructed_active_turn sample_tv sorted_keys (Some 0) 0 7 ''t'' ''a'' (store_new sample_cfg 0) =
     Some (True, st')"
  using anchor_only_without_genuine_start [OF sorted_order.hash_order_axioms
      conjunct1 [OF store_run_inv [OF run_new [of sample_tv sorted_keys sample_cfg 0] sorted_order.hash_order_axioms]],
      where thread = "''t''" and turn = "''a''"
        and unix_now = "Some 0" and now = 0 and seq = 7]
  by (auto simp: store_new_def inner_new_def)

text \<open>A time query answers exactly the retained events of the thread whose timestamp (the
  daemon's, else the receipt time) lies in the range widened by the tolerance on both sides;
  the saturating additions never change that, also at the ends of the 64-bit range.\<close>

theorem time_query_exact:
  shows "qr_events (query_time thread start_ms end_ms st) =
    filter (\<lambda>e. let ts = unat (unwrap_or (ev_emitted_at_ms e) (ev_unix_receipt_ms e));
                   tol = unat (as_millis_u64 (sc_emitted_at_tolerance (es_config st)))
               in unat start_ms \<le> ts + tol \<and> ts \<le> unat end_ms + tol \<and>
                  (thread = None \<or> ev_thread_id e = thread))
      (in_events (es_inner st))"
  by (cases thread) (simp_all add: query_time_def Let_def start_tolerance)

text \<open>Evicting idle content removes the deltas of the idle threads and nothing else, and
  keeps the store's accounting and caps.\<close>

theorem evict_idle_content_exact:
  assumes "store_inv tv st"
  shows "in_events (es_inner (evict_idle_content tv idle st)) =
      filter (\<lambda>e. \<not> (ev_plane e = Delta \<and> is_some_and (ev_thread_id e) (\<lambda>t. t \<in> set idle)))
        (in_events (es_inner st)) \<and>
    store_inv tv (evict_idle_content tv idle st)"
proof -
  have "store_inv tv (evict_idle_content tv idle st)"
    using assms evict_idle_content_evicts(1) [of tv st idle]
    by (auto simp: store_inv_def evict_idle_content_evicts(2) intro: accounted_evicts caps_ok_evicts)
  then show ?thesis
    by (simp add: evict_idle_content_def evict_idle_loop_events idle_delta_def)
qed

theorem evict_idle_content_exact_witness:
  "in_events (es_inner (evict_idle_content sample_tv [''t'']
     (store_new roomy_cfg 0 \<lparr> es_inner := push_event sample_tv sample_a inner_new \<rparr>))) = [sample_a]"
  using evict_idle_content_exact [OF conjunct1 [OF store_run_inv [OF roomy_run sorted_order.hash_order_axioms]],
      of "[''t'']"]
  by (simp add: push_event_def inner_new_def sample_a_def)

text \<open>A query over all threads never reports an eviction of a thread's event. In every
  reachable store whose events all belong to some thread, the answer of a query with no thread
  carries no gap, however many events were evicted.\<close>

theorem global_query_hides_thread_gaps:
  assumes "store_run tv order cfg h st" and "list_all (\<lambda>e. ev_thread_id e \<noteq> None) h"
  shows "qr_gap (query_sequence None after through st) = None"
proof -
  have "in_gaps (es_inner st) None = None"
    using assms
  proof (induction rule: store_run.induct)
    case (run_new t0)
    show ?case by (simp add: store_new_def inner_new_def)
  next
    case (run_record h st e st')
    then have "\<forall>e \<in> set (in_events (push_event tv e (es_inner st))). ev_thread_id e \<noteq> None"
      using subseq_set [OF store_run_subseq [OF run_record(1)]]
      by (auto simp: push_event_events list_all_iff)
    moreover have "in_gaps (push_event tv e (es_inner st)) None = None"
      using run_record by (simp add: push_event_def Let_def split: option.splits)
    ultimately show ?case
      using gaps_evicts_None [OF record_event_Some(1) [OF run_record(2)]] by blast
  next
    case (run_anchor h st unix_now now seq thread turn st' e)
    then have "\<forall>e \<in> set (in_events (push_event tv e (es_inner st))). ev_thread_id e \<noteq> None"
      using subseq_set [OF store_run_subseq [OF run_anchor(1)]]
      by (auto simp: push_event_events list_all_iff)
    moreover have "in_gaps (push_event tv e (es_inner st)) None = None"
      using run_anchor by (simp add: push_event_def Let_def split: option.splits)
    ultimately show ?case
      using gaps_evicts_None [OF record_event_Some(1) [OF anchor_Some [OF run_anchor(2,3)]]] by blast
  next
    case (run_evict_idle h st idle)
    then have "\<forall>e \<in> set (in_events (es_inner st)). ev_thread_id e \<noteq> None"
      using subseq_set [OF store_run_subseq [OF run_evict_idle(1)]] by (auto simp: list_all_iff)
    with run_evict_idle show ?case
      by (blast intro: gaps_evicts_None [OF evict_idle_content_evicts(1)])
  qed
  then show ?thesis by (simp add: query_sequence_def)
qed

theorem global_query_hides_thread_gaps_witness:
  "\<exists>st. store_run sample_tv sorted_keys sample_cfg [sample_a, sample_b] st \<and>
     qr_gap (query_sequence None 0 None st) = None"
proof -
  obtain st where run: "store_run sample_tv sorted_keys sample_cfg [sample_a, sample_b] st"
    using sample_runs by blast
  moreover have "list_all (\<lambda>e. ev_thread_id e \<noteq> None) [sample_a, sample_b]"
    by (simp add: sample_a_def sample_b_def)
  ultimately show ?thesis using global_query_hides_thread_gaps by blast
qed

text \<open>A thread over its own cap that has no deltas evicts the other threads' events. In that
  situation the byte-cap loop drops the oldest events of the whole store, lifecycle events of
  other threads and in preference to other threads' deltas included, until it has dropped
  enough of the thread's own: every event older than the thread's oldest one is gone.\<close>

theorem over_cap_thread_without_deltas_evicts_others:
  assumes "hash_order order" and "accounted tv i" and "only_over cfg (Some t) i"
    and "in_bytes i \<le> sc_global_bytes cfg" and "over_thread order cfg i \<noteq> None"
    and "\<forall>e \<in> set (in_events i). ev_thread_id e = Some t \<longrightarrow> ev_plane e \<noteq> Delta"
  shows "\<exists>j n. prune_caps tv order cfg i = Some j \<and> in_events j = drop n (in_events i) \<and>
    length (takeWhile (\<lambda>e. ev_thread_id e \<noteq> Some t) (in_events i)) < n"
proof -
  obtain j n where jn: "prune_caps tv order cfg i = Some j" "in_events j = drop n (in_events i)"
    using over_cap_oldest_first [OF assms(1-4,6)] by blast
  note run = prune_caps_run [OF jn(1)]
  have acc: "accounted tv j" using run assms(2) by (blast intro: accounted_evicts)
  have within: "bytes_of tv (filter (of_thread (Some t)) (in_events j)) \<le> sc_per_thread_bytes cfg"
    using run acc over_thread_None [OF assms(1) acc] by (simp add: accounted_def)
  have over: "sc_per_thread_bytes cfg < bytes_of tv (filter (of_thread (Some t)) (in_events i))"
    using over_thread_only(2) [OF _ assms(3)] assms(2,5) by (auto simp: accounted_def)
  have "filter (of_thread (Some t)) (drop n xs) = filter (of_thread (Some t)) xs"
    if "n \<le> length (takeWhile (\<lambda>e. ev_thread_id e \<noteq> Some t) xs)" for xs
    using that by (induction xs arbitrary: n) (auto simp: drop_Cons split: nat.splits if_splits)
  with within over show ?thesis
    by (intro exI [of _ j] exI [of _ n]) (auto simp: jn not_le [symmetric])
qed

theorem over_cap_thread_without_deltas_evicts_others_witness:
  "\<exists>j n. prune_caps sample_tv sorted_keys thread_cfg crowded = Some j \<and>
     in_events j = drop n [sample_d, sample_a, sample_b] \<and> 1 < n"
proof -
  have acc: "accounted sample_tv crowded"
    unfolding crowded_def pressed_def by (intro accounted_push accounted_new)
  have bytes: "in_thread_bytes crowded = [''u'' \<mapsto> 5, ''t'' \<mapsto> 10]" "in_bytes crowded = 15"
    "in_events crowded = [sample_d, sample_a, sample_b]"
    by (simp_all add: crowded_def pressed_def push_event_def inner_new_def sample_a_def sample_b_def sample_d_def)
  have only: "only_over thread_cfg (Some ''t'') crowded"
    by (simp add: only_over_def bytes thread_cfg_def)
  have over: "over_thread sorted_keys thread_cfg crowded \<noteq> None"
    unfolding over_thread_None [OF sorted_order.hash_order_axioms acc]
    by (auto simp: bytes thread_cfg_def intro: exI [of _ "''t''"])
  have no_delta: "\<forall>e \<in> set (in_events crowded). ev_thread_id e = Some ''t'' \<longrightarrow> ev_plane e \<noteq> Delta"
    by (simp add: bytes sample_a_def sample_b_def sample_d_def)
  have small: "in_bytes crowded \<le> sc_global_bytes thread_cfg" by (simp add: bytes thread_cfg_def)
  from over_cap_thread_without_deltas_evicts_others [OF sorted_order.hash_order_axioms acc only small over no_delta]
  show ?thesis by (simp add: bytes) (simp add: sample_a_def sample_d_def)
qed

end
