(* ===== verification/Reducer.thy ===== *)
theory Reducer
  imports Protocol Interfaces
begin

text \<open>
  The authoritative lifecycle reducer of \<open>src/reducer/src/lib.rs\<close>: the current state of
  every relevant thread, the bounded lifecycle log behind \<open>events_since\<close>, and the
  one-shot waiters of the action controller. The lock-protected parts of \<open>Reducer\<close> are
  the fields of one record; each operation is a function on it, and \<open>apply\<close> is composed
  of its three critical sections in the code's order.
\<close>

section \<open>State\<close>

record thread_state =
  ts_thread_id :: string
  ts_status :: string
  ts_active_turn_id :: "string option"
  ts_subscribed :: bool
  ts_ephemeral :: bool
  ts_last_sequence :: sequence
  ts_raw_thread :: "json option"

record snapshot =
  sn_at_sequence :: sequence
  sn_threads :: "string \<rightharpoonup> thread_state"

datatype replay_result =
    Events "sequenced_event list"
  | GapTooOld sequence "sequence option" snapshot

text \<open>
  A waiter holds its predicate and the sending half of a one-shot channel. The channel is a
  number; what was sent on it is kept in \<open>rd_delivered\<close>, where the receiver reads it.
\<close>

record waiter =
  w_predicate :: "sequenced_event \<Rightarrow> bool"
  w_sender :: nat

record reducer =
  rd_snapshot :: snapshot
  rd_subscribing :: "string set"
  rd_lifecycle :: "sequenced_event list"
  rd_lifecycle_capacity :: nat
  rd_waiters :: "waiter list"
  rd_next_sender :: nat
  rd_delivered :: "nat \<rightharpoonup> sequenced_event"

text \<open>\<open>Reducer::new\<close> asserts a positive capacity; the failing assertion is \<open>None\<close>.\<close>

definition reducer_new :: "nat \<Rightarrow> reducer option" where
  "reducer_new capacity =
     (if 0 < capacity
      then Some \<lparr> rd_snapshot = \<lparr> sn_at_sequence = 0, sn_threads = Map.empty \<rparr>,
                  rd_subscribing = {}, rd_lifecycle = [], rd_lifecycle_capacity = capacity,
                  rd_waiters = [], rd_next_sender = 0, rd_delivered = Map.empty \<rparr>
      else None)"

abbreviation rd_threads :: "reducer \<Rightarrow> (string \<rightharpoonup> thread_state)" where
  "rd_threads r \<equiv> sn_threads (rd_snapshot r)"

definition set_threads :: "(string \<rightharpoonup> thread_state) \<Rightarrow> reducer \<Rightarrow> reducer" where
  "set_threads ths r = r\<lparr>rd_snapshot := (rd_snapshot r)\<lparr>sn_threads := ths\<rparr>\<rparr>"

definition unknown_thread :: "string \<Rightarrow> thread_state" where
  "unknown_thread tid =
     \<lparr> ts_thread_id = tid, ts_status = ''unknown'', ts_active_turn_id = None,
       ts_subscribed = False, ts_ephemeral = False, ts_last_sequence = 0, ts_raw_thread = None \<rparr>"

definition is_prunable :: "thread_state \<Rightarrow> bool" where
  "is_prunable t \<longleftrightarrow> \<not> ts_subscribed t \<and> ts_active_turn_id t = None"

section \<open>Applying an event\<close>

text \<open>A status is an object with a \<open>type\<close> or a bare string.\<close>

definition status_text :: "json \<Rightarrow> string option" where
  "status_text s = or_else (get_str ''type'' s) (as_str s)"

definition update_thread :: "sequenced_event \<Rightarrow> thread_state \<Rightarrow> thread_state" where
  "update_thread e t0 =
     (let t = t0\<lparr>ts_last_sequence := ev_sequence e\<rparr>;
          m = unwrap_or (ev_method e) '''';
          params = frame_params (ev_frame e)
      in if m = ''thread/started'' then
           (let rawt = Option.bind params (jget ''thread'')
            in t\<lparr>ts_status := ''idle'', ts_raw_thread := rawt,
                 ts_ephemeral := unwrap_or (Option.bind (Option.bind rawt (jget ''ephemeral'')) as_bool) False\<rparr>)
         else if m = ''thread/status/changed'' then
           t\<lparr>ts_status := unwrap_or (Option.bind (Option.bind params (jget ''status'')) status_text) ''unknown''\<rparr>
         else if m = ''turn/started'' then
           t\<lparr>ts_status := ''active'', ts_active_turn_id := ev_turn_id e\<rparr>
         else if m = ''turn/completed'' then
           (let t1 = (if ts_active_turn_id t = ev_turn_id e \<or> ev_turn_id e = None
                      then t\<lparr>ts_active_turn_id := None\<rparr> else t)
            in t1\<lparr>ts_status := ''idle''\<rparr>)
         else t)"

definition apply_state :: "sequenced_event \<Rightarrow> reducer \<Rightarrow> reducer" where
  "apply_state e r0 =
     (let r = r0\<lparr>rd_snapshot := (rd_snapshot r0)\<lparr>sn_at_sequence :=
                  max (sn_at_sequence (rd_snapshot r0)) (ev_sequence e)\<rparr>\<rparr>
      in case ev_thread_id e of
           None \<Rightarrow> r
         | Some tid \<Rightarrow>
             (let subscribing = tid \<in> rd_subscribing r;
                  t = update_thread e (unwrap_or (rd_threads r tid) (unknown_thread tid))
              in if \<not> subscribing \<and> is_prunable t
                 then set_threads ((rd_threads r)(tid := None)) r
                 else set_threads ((rd_threads r)(tid \<mapsto> t)) r))"

text \<open>The \<open>while\<close> loop that drops from the front of the log until it fits.\<close>

function trim_front :: "nat \<Rightarrow> 'a list \<Rightarrow> 'a list" where
  "trim_front capacity xs =
     (if capacity < length xs then trim_front capacity (tl xs) else xs)"
  by pat_completeness auto
termination
  by (relation "measure (\<lambda>(capacity, xs). length xs)") auto

declare trim_front.simps [simp del]

definition push_lifecycle :: "sequenced_event \<Rightarrow> reducer \<Rightarrow> reducer" where
  "push_lifecycle e r =
     (if ev_plane e = Lifecycle
      then r\<lparr>rd_lifecycle := trim_front (rd_lifecycle_capacity r) (rd_lifecycle r @ [e])\<rparr>
      else r)"

text \<open>
  The loop over the waiters: a match is swap-removed and collected, and the index only
  advances past a waiter that stays.
\<close>

function drain_ready :: "sequenced_event \<Rightarrow> nat \<Rightarrow> waiter list \<Rightarrow> waiter list \<Rightarrow> waiter list \<times> waiter list" where
  "drain_ready e index waiters ready =
     (if index < length waiters then
        (if w_predicate (waiters ! index) e
         then drain_ready e index (swap_remove index waiters) (ready @ [waiters ! index])
         else drain_ready e (Suc index) waiters ready)
      else (waiters, ready))"
  by pat_completeness auto
termination
  by (relation "measure (\<lambda>(e, index, waiters, ready). length waiters - index)") auto

declare drain_ready.simps [simp del]

definition fire_waiters :: "sequenced_event \<Rightarrow> reducer \<Rightarrow> reducer" where
  "fire_waiters e r =
     (let (rest, ready) = drain_ready e 0 (rd_waiters r) []
      in r\<lparr>rd_waiters := rest,
           rd_delivered := fold (\<lambda>w m. m(w_sender w \<mapsto> e)) ready (rd_delivered r)\<rparr>)"

definition apply_event :: "sequenced_event \<Rightarrow> reducer \<Rightarrow> reducer" where
  "apply_event e r = fire_waiters e (push_lifecycle e (apply_state e r))"

definition register_waiter :: "(sequenced_event \<Rightarrow> bool) \<Rightarrow> reducer \<Rightarrow> reducer \<times> nat" where
  "register_waiter p r =
     (r\<lparr>rd_waiters := rd_waiters r @ [\<lparr> w_predicate = p, w_sender = rd_next_sender r \<rparr>],
        rd_next_sender := Suc (rd_next_sender r)\<rparr>, rd_next_sender r)"

section \<open>Queries\<close>

definition current_sequence :: "reducer \<Rightarrow> sequence" where
  "current_sequence r = sn_at_sequence (rd_snapshot r)"

definition events_since :: "sequence \<Rightarrow> reducer \<Rightarrow> replay_result" where
  "events_since s r =
     (let log = rd_lifecycle r;
          oldest = (case log of [] \<Rightarrow> None | e # _ \<Rightarrow> Some (ev_sequence e))
      in if is_some_and oldest (\<lambda>o1. saturating_add s 1 < o1)
         then GapTooOld s oldest (rd_snapshot r)
         else Events (filter (\<lambda>e. s < ev_sequence e) log))"

section \<open>Subscriptions\<close>

definition begin_subscription :: "string \<Rightarrow> reducer \<Rightarrow> reducer" where
  "begin_subscription tid r0 =
     (let r = r0\<lparr>rd_subscribing := insert tid (rd_subscribing r0)\<rparr>
      in set_threads ((rd_threads r)(tid \<mapsto> unwrap_or (rd_threads r tid) (unknown_thread tid))) r)"

definition finish_subscription :: "string \<Rightarrow> reducer \<Rightarrow> reducer" where
  "finish_subscription tid r0 =
     (let r = r0\<lparr>rd_subscribing := rd_subscribing r0 - {tid}\<rparr>;
          t = unwrap_or (rd_threads r tid) (unknown_thread tid)
      in set_threads ((rd_threads r)(tid \<mapsto> t\<lparr>ts_subscribed := True\<rparr>)) r)"

definition cancel_subscription :: "string \<Rightarrow> reducer \<Rightarrow> reducer" where
  "cancel_subscription tid r0 =
     (let r = r0\<lparr>rd_subscribing := rd_subscribing r0 - {tid}\<rparr>
      in if is_some_and (rd_threads r tid) is_prunable
         then set_threads ((rd_threads r)(tid := None)) r else r)"

definition set_subscribed :: "string \<Rightarrow> bool \<Rightarrow> reducer \<Rightarrow> reducer" where
  "set_subscribed tid subscribed r0 =
     (if subscribed then finish_subscription tid r0
      else (let r = r0\<lparr>rd_subscribing := rd_subscribing r0 - {tid}\<rparr>
            in case rd_threads r tid of
                 None \<Rightarrow> r
               | Some t0 \<Rightarrow>
                   (let t = t0\<lparr>ts_subscribed := False\<rparr>
                    in if is_prunable t then set_threads ((rd_threads r)(tid := None)) r
                       else set_threads ((rd_threads r)(tid \<mapsto> t)) r)))"

definition evict_idle :: "reducer \<Rightarrow> nat \<times> reducer" where
  "evict_idle r =
     (let kept = map_retain (\<lambda>tid t. tid \<in> rd_subscribing r \<or> \<not> is_prunable t) (rd_threads r)
      in (card (dom (rd_threads r)) - card (dom kept), set_threads kept r))"

section \<open>Reconciliation\<close>

definition terminal_turn :: "json \<Rightarrow> bool" where
  "terminal_turn turn \<longleftrightarrow>
     get_str ''status'' turn \<in> {Some ''completed'', Some ''failed'', Some ''interrupted''}"

text \<open>The id of the last turn that is not terminal.\<close>

definition last_open_turn :: "json \<Rightarrow> string option" where
  "last_open_turn raw =
     Option.bind (Option.bind (jget ''turns'' raw) as_array)
       (\<lambda>turns. Option.bind (find (\<lambda>t. \<not> terminal_turn t) (rev turns)) (get_str ''id''))"

definition reconcile_thread :: "json \<Rightarrow> reducer \<Rightarrow> reducer" where
  "reconcile_thread raw r =
     (case get_str ''id'' raw of
        None \<Rightarrow> r
      | Some tid \<Rightarrow>
          (let status = unwrap_or (Option.bind (jget ''status'' raw) status_text) ''unknown'';
               active = last_open_turn raw;
               seq = sn_at_sequence (rd_snapshot r);
               previous = is_some_and (rd_threads r tid) ts_subscribed
           in set_threads ((rd_threads r)(tid \<mapsto>
                \<lparr> ts_thread_id = tid,
                  ts_status = (if active \<noteq> None then ''active'' else status),
                  ts_active_turn_id = active,
                  ts_subscribed = previous,
                  ts_ephemeral = unwrap_or (Option.bind (jget ''ephemeral'' raw) as_bool) False,
                  ts_last_sequence = seq,
                  ts_raw_thread = Some raw \<rparr>)) r))"

section \<open>Frame lemmas\<close>

lemma set_threads_simps [simp]:
  "rd_threads (set_threads ths r) = ths"
  "sn_at_sequence (rd_snapshot (set_threads ths r)) = sn_at_sequence (rd_snapshot r)"
  "rd_subscribing (set_threads ths r) = rd_subscribing r"
  "rd_lifecycle (set_threads ths r) = rd_lifecycle r"
  "rd_lifecycle_capacity (set_threads ths r) = rd_lifecycle_capacity r"
  "rd_waiters (set_threads ths r) = rd_waiters r"
  "rd_next_sender (set_threads ths r) = rd_next_sender r"
  "rd_delivered (set_threads ths r) = rd_delivered r"
  by (simp_all add: set_threads_def)

lemma apply_state_simps [simp]:
  "rd_lifecycle (apply_state e r) = rd_lifecycle r"
  "rd_lifecycle_capacity (apply_state e r) = rd_lifecycle_capacity r"
  "rd_waiters (apply_state e r) = rd_waiters r"
  "rd_next_sender (apply_state e r) = rd_next_sender r"
  "rd_delivered (apply_state e r) = rd_delivered r"
  "rd_subscribing (apply_state e r) = rd_subscribing r"
  "sn_at_sequence (rd_snapshot (apply_state e r)) = max (sn_at_sequence (rd_snapshot r)) (ev_sequence e)"
  by (simp_all add: apply_state_def Let_def split: option.splits)

lemma push_lifecycle_simps [simp]:
  "rd_snapshot (push_lifecycle e r) = rd_snapshot r"
  "rd_subscribing (push_lifecycle e r) = rd_subscribing r"
  "rd_lifecycle_capacity (push_lifecycle e r) = rd_lifecycle_capacity r"
  "rd_waiters (push_lifecycle e r) = rd_waiters r"
  "rd_next_sender (push_lifecycle e r) = rd_next_sender r"
  "rd_delivered (push_lifecycle e r) = rd_delivered r"
  by (simp_all add: push_lifecycle_def)

lemma fire_waiters_simps [simp]:
  "rd_snapshot (fire_waiters e r) = rd_snapshot r"
  "rd_subscribing (fire_waiters e r) = rd_subscribing r"
  "rd_lifecycle (fire_waiters e r) = rd_lifecycle r"
  "rd_lifecycle_capacity (fire_waiters e r) = rd_lifecycle_capacity r"
  "rd_next_sender (fire_waiters e r) = rd_next_sender r"
  by (simp_all add: fire_waiters_def split: prod.splits)

lemma apply_event_simps [simp]:
  "rd_snapshot (apply_event e r) = rd_snapshot (apply_state e r)"
  "rd_subscribing (apply_event e r) = rd_subscribing r"
  "rd_lifecycle_capacity (apply_event e r) = rd_lifecycle_capacity r"
  "rd_next_sender (apply_event e r) = rd_next_sender r"
  by (simp_all add: apply_event_def)

lemma register_waiter_simps [simp]:
  "rd_snapshot (fst (register_waiter p r)) = rd_snapshot r"
  "rd_subscribing (fst (register_waiter p r)) = rd_subscribing r"
  "rd_lifecycle (fst (register_waiter p r)) = rd_lifecycle r"
  "rd_lifecycle_capacity (fst (register_waiter p r)) = rd_lifecycle_capacity r"
  "rd_delivered (fst (register_waiter p r)) = rd_delivered r"
  by (simp_all add: register_waiter_def)

section \<open>The lifecycle log\<close>

lemma trim_front_take_last: "trim_front n xs = take_last n xs"
proof (induction n xs rule: trim_front.induct)
  case (1 n xs)
  show ?case
  proof (cases "n < length xs")
    case True
    then obtain y ys where "xs = y # ys" by (cases xs) auto
    with True 1 show ?thesis
      by (subst trim_front.simps) (simp add: take_last_def Suc_diff_le)
  next
    case False
    then show ?thesis by (subst trim_front.simps) (simp add: take_last_def)
  qed
qed

lemma apply_event_lifecycle:
  "rd_lifecycle (apply_event e r) =
     (if ev_plane e = Lifecycle
      then take_last (rd_lifecycle_capacity r) (rd_lifecycle r @ [e]) else rd_lifecycle r)"
  by (simp add: apply_event_def push_lifecycle_def trim_front_take_last)

text \<open>The part of the well-formedness invariant that concerns the log.\<close>

definition log_ok :: "reducer \<Rightarrow> bool" where
  "log_ok r \<longleftrightarrow> 0 < rd_lifecycle_capacity r \<and> length (rd_lifecycle r) \<le> rd_lifecycle_capacity r"

interpretation rlog: bounded_log apply_event rd_lifecycle rd_lifecycle_capacity
    "\<lambda>e. ev_plane e = Lifecycle" ev_sequence log_ok
  by unfold_locales (auto simp: apply_event_lifecycle log_ok_def)

section \<open>Waiters\<close>

lemma drain_ready_mset:
  "drain_ready e i ws ready = (rest, out) \<Longrightarrow> mset rest + mset out = mset ws + mset ready"
proof (induction e i ws ready arbitrary: rest out rule: drain_ready.induct)
  case (1 e i ws ready)
  show ?case
  proof (cases "i < length ws")
    case False
    with "1.prems" show ?thesis by (simp add: drain_ready.simps)
  next
    case i: True
    show ?thesis
    proof (cases "w_predicate (ws ! i) e")
      case True
      from "1.prems" i True
      have "drain_ready e i (swap_remove i ws) (ready @ [ws ! i]) = (rest, out)"
        by (simp add: drain_ready.simps [of e i ws])
      from "1.IH"(1) [OF i True this] mset_swap_remove [OF i] show ?thesis
        by simp
    next
      case False
      with "1.prems" i have "drain_ready e (Suc i) ws ready = (rest, out)"
        by (simp add: drain_ready.simps [of e i ws])
      from "1.IH"(2) [OF i False this] show ?thesis .
    qed
  qed
qed

lemma drain_ready_split:
  assumes "drain_ready e i ws ready = (rest, out)"
    and "\<forall>j < i. j < length ws \<longrightarrow> \<not> w_predicate (ws ! j) e"
    and "\<forall>w \<in> set ready. w_predicate w e"
  shows "(\<forall>w \<in> set rest. \<not> w_predicate w e) \<and> (\<forall>w \<in> set out. w_predicate w e)"
  using assms
proof (induction e i ws ready arbitrary: rest out rule: drain_ready.induct)
  case (1 e i ws ready)
  show ?case
  proof (cases "i < length ws")
    case False
    with "1.prems" show ?thesis by (auto simp: drain_ready.simps in_set_conv_nth)
  next
    case i: True
    show ?thesis
    proof (cases "w_predicate (ws ! i) e")
      case True
      from "1.prems"(1) i True
      have "drain_ready e i (swap_remove i ws) (ready @ [ws ! i]) = (rest, out)"
        by (simp add: drain_ready.simps [of e i ws])
      then show ?thesis
        by (rule "1.IH"(1) [OF i True])
          (use "1.prems"(2,3) i True in \<open>auto simp: swap_remove_unchanged_below\<close>)
    next
      case False
      with "1.prems"(1) i have "drain_ready e (Suc i) ws ready = (rest, out)"
        by (simp add: drain_ready.simps [of e i ws])
      then show ?thesis
        by (rule "1.IH"(2) [OF i False])
          (use "1.prems"(2,3) False in \<open>auto simp: less_Suc_eq\<close>)
    qed
  qed
qed

lemma drain_ready_partition:
  assumes "drain_ready e 0 ws [] = (rest, out)"
  shows "mset rest = filter_mset (\<lambda>w. \<not> w_predicate w e) (mset ws)"
    and "mset out = filter_mset (\<lambda>w. w_predicate w e) (mset ws)"
proof -
  have sum: "mset ws = mset rest + mset out" using drain_ready_mset [OF assms] by simp
  have "(\<forall>w \<in> set rest. \<not> w_predicate w e) \<and> (\<forall>w \<in> set out. w_predicate w e)"
    using drain_ready_split [OF assms] by simp
  then have "filter_mset (\<lambda>w. \<not> w_predicate w e) (mset rest) = mset rest"
    "filter_mset (\<lambda>w. w_predicate w e) (mset rest) = {#}"
    "filter_mset (\<lambda>w. \<not> w_predicate w e) (mset out) = {#}"
    "filter_mset (\<lambda>w. w_predicate w e) (mset out) = mset out"
    by (auto simp: filter_mset_eq_conv)
  with sum show "mset rest = filter_mset (\<lambda>w. \<not> w_predicate w e) (mset ws)"
    and "mset out = filter_mset (\<lambda>w. w_predicate w e) (mset ws)" by simp_all
qed

definition senders_ok :: "reducer \<Rightarrow> bool" where
  "senders_ok r \<longleftrightarrow>
     distinct (map w_sender (rd_waiters r)) \<and>
     (\<forall>w \<in> set (rd_waiters r). w_sender w < rd_next_sender r \<and> rd_delivered r (w_sender w) = None) \<and>
     (\<forall>i. rd_next_sender r \<le> i \<longrightarrow> rd_delivered r i = None)"

definition pending_waiter :: "reducer \<Rightarrow> nat \<Rightarrow> (sequenced_event \<Rightarrow> bool) option" where
  "pending_waiter r i = map_option w_predicate (find (\<lambda>w. w_sender w = i) (rd_waiters r))"

lemma find_key_distinct:
  "distinct (map f xs) \<Longrightarrow> (find (\<lambda>x. f x = k) xs = Some x) \<longleftrightarrow> (x \<in> set xs \<and> f x = k)"
  by (induction xs) (auto simp: rev_image_eqI)

lemma pending_waiter_iff:
  "senders_ok r \<Longrightarrow> pending_waiter r i = Some p \<longleftrightarrow>
     (\<exists>w \<in> set (rd_waiters r). w_sender w = i \<and> w_predicate w = p)"
  unfolding pending_waiter_def senders_ok_def by (auto simp: find_key_distinct)

lemma fold_deliver:
  "fold (\<lambda>w m. m(w_sender w \<mapsto> e)) ws m i = (if i \<in> w_sender ` set ws then Some e else m i)"
  by (induction ws arbitrary: m) auto

lemma apply_event_waiters:
  shows "mset (rd_waiters (apply_event e r)) = filter_mset (\<lambda>w. \<not> w_predicate w e) (mset (rd_waiters r))"
    and "rd_delivered (apply_event e r) i =
      (if i \<in> w_sender ` {w \<in> set (rd_waiters r). w_predicate w e} then Some e else rd_delivered r i)"
proof -
  obtain rest out where d: "drain_ready e 0 (rd_waiters r) [] = (rest, out)" by force
  note part = drain_ready_partition [OF d]
  from d part(1) show "mset (rd_waiters (apply_event e r)) = filter_mset (\<lambda>w. \<not> w_predicate w e) (mset (rd_waiters r))"
    by (simp add: apply_event_def fire_waiters_def)
  have "set out = {w \<in> set (rd_waiters r). w_predicate w e}"
    using arg_cong [OF part(2), of set_mset] by simp
  with d show "rd_delivered (apply_event e r) i =
      (if i \<in> w_sender ` {w \<in> set (rd_waiters r). w_predicate w e} then Some e else rd_delivered r i)"
    by (simp add: apply_event_def fire_waiters_def fold_deliver)
qed

lemma apply_event_waiter_set:
  "set (rd_waiters (apply_event e r)) = {w \<in> set (rd_waiters r). \<not> w_predicate w e}"
  using arg_cong [OF apply_event_waiters(1) [of e r], of set_mset] by simp

lemma apply_event_senders_distinct:
  assumes "distinct (map w_sender (rd_waiters r))"
  shows "distinct (map w_sender (rd_waiters (apply_event e r)))"
proof -
  have sub: "mset (map w_sender (rd_waiters (apply_event e r))) \<subseteq># mset (map w_sender (rd_waiters r))"
    by (simp add: apply_event_waiters(1) image_mset_subseteq_mono multiset_filter_subset)
  show ?thesis
    unfolding distinct_count_atmost_1
  proof
    fix a
    have "count (mset (map w_sender (rd_waiters (apply_event e r)))) a
        \<le> count (mset (map w_sender (rd_waiters r))) a"
      by (rule mset_subset_eq_count [OF sub])
    also have "\<dots> \<le> 1" using assms by (auto simp: distinct_count_atmost_1)
    finally show "count (mset (map w_sender (rd_waiters (apply_event e r)))) a =
        (if a \<in> set (map w_sender (rd_waiters (apply_event e r))) then 1 else 0)"
      by (metis One_nat_def count_mset_0_iff le_SucE le_zero_eq)
  qed
qed

lemma sender_inj:
  "distinct (map w_sender ws) \<Longrightarrow> v \<in> set ws \<Longrightarrow> w \<in> set ws \<Longrightarrow>
     w_sender v = w_sender w \<Longrightarrow> v = w"
  by (simp add: distinct_map inj_on_def)

lemma apply_event_senders_ok: "senders_ok r \<Longrightarrow> senders_ok (apply_event e r)"
  unfolding senders_ok_def
  by (auto simp: apply_event_waiter_set apply_event_waiters(2) apply_event_senders_distinct
      dest: sender_inj)

interpretation rwait: waiter_service "\<lambda>p r. register_waiter p r" apply_event pending_waiter
    rd_delivered senders_ok
proof (unfold_locales, goal_cases)
  case (1 s p t i)
  then have "senders_ok t"
    by (force simp: register_waiter_def senders_ok_def less_Suc_eq)
  with 1 show ?case by (auto simp: pending_waiter_iff register_waiter_def senders_ok_def)
next
  case (2 s e)
  then show ?case by (rule apply_event_senders_ok)
next
  case (3 s i p e)
  then show ?case by (auto simp: pending_waiter_iff apply_event_waiters(2))
next
  case (4 s i p e)
  then obtain w where w: "w \<in> set (rd_waiters s)" "w_sender w = i" "w_predicate w = p"
    by (auto simp: pending_waiter_iff)
  have d: "distinct (map w_sender (rd_waiters s))" using 4(1) by (simp add: senders_ok_def)
  have uniq: "v = w" if "v \<in> set (rd_waiters s)" "w_sender v = i" for v
    by (rule sender_inj [OF d that(1) w(1)]) (simp add: that(2) w(2))
  have "i \<notin> w_sender ` {v \<in> set (rd_waiters s). w_predicate v e}"
  proof
    assume "i \<in> w_sender ` {v \<in> set (rd_waiters s). w_predicate v e}"
    then obtain v where v: "v \<in> set (rd_waiters s)" "w_sender v = i" "w_predicate v e" by auto
    from uniq [OF v(1,2)] v(3) w(3) 4(3) show False by simp
  qed
  moreover have "w \<in> set (rd_waiters (apply_event e s))"
    using 4 w by (simp add: apply_event_waiter_set)
  ultimately show ?case
    using w 4(1) by (auto simp: pending_waiter_iff [OF apply_event_senders_ok] apply_event_waiters(2))
next
  case (5 s i x e)
  have "i \<notin> w_sender ` {w \<in> set (rd_waiters s). w_predicate w e}"
    using 5 by (auto simp: senders_ok_def)
  with 5 show ?case by (simp add: apply_event_waiters(2))
qed

section \<open>Threads\<close>

text \<open>
  Relevance: a thread that has an entry is subscribed, being subscribed, or has an active turn.
\<close>

definition threads_ok :: "reducer \<Rightarrow> bool" where
  "threads_ok r \<longleftrightarrow>
     finite (dom (rd_threads r)) \<and>
     (\<forall>k t. rd_threads r k = Some t \<longrightarrow> ts_thread_id t = k)"

definition relevant_only :: "reducer \<Rightarrow> bool" where
  "relevant_only r \<longleftrightarrow>
     (\<forall>k t. rd_threads r k = Some t \<longrightarrow> k \<in> rd_subscribing r \<or> \<not> is_prunable t)"

lemma update_thread_id [simp]: "ts_thread_id (update_thread e t) = ts_thread_id t"
  by (simp add: update_thread_def Let_def)

lemma update_thread_subscribed [simp]: "ts_subscribed (update_thread e t) = ts_subscribed t"
  by (simp add: update_thread_def Let_def)

lemma unknown_thread_simps [simp]:
  "ts_thread_id (unknown_thread k) = k" "ts_active_turn_id (unknown_thread k) = None"
  "ts_subscribed (unknown_thread k) = False"
  by (simp_all add: unknown_thread_def)

lemma apply_state_threads:
  "rd_threads (apply_state e r) =
     (case ev_thread_id e of
        None \<Rightarrow> rd_threads r
      | Some k \<Rightarrow>
          (let t = update_thread e (unwrap_or (rd_threads r k) (unknown_thread k))
           in (rd_threads r)(k := (if k \<notin> rd_subscribing r \<and> is_prunable t then None else Some t))))"
  by (simp add: apply_state_def Let_def split: option.splits)

lemma unwrap_thread_id:
  "threads_ok r \<Longrightarrow> ts_thread_id (unwrap_or (rd_threads r k) (unknown_thread k)) = k"
  by (cases "rd_threads r k") (auto simp: threads_ok_def)

lemma apply_event_threads_ok: "threads_ok r \<Longrightarrow> threads_ok (apply_event e r)"
  using unwrap_thread_id [of r]
  by (auto simp: threads_ok_def apply_state_threads Let_def split: option.splits if_splits)

lemma apply_event_relevant: "relevant_only r \<Longrightarrow> relevant_only (apply_event e r)"
  by (auto simp: relevant_only_def apply_state_threads Let_def split: option.splits if_splits)

lemma begin_subscription_ok:
  "threads_ok r \<Longrightarrow> threads_ok (begin_subscription k r)"
  "relevant_only r \<Longrightarrow> relevant_only (begin_subscription k r)"
  using unwrap_thread_id [of r k]
  by (auto simp: threads_ok_def relevant_only_def begin_subscription_def Let_def split: if_splits)

lemma finish_subscription_ok:
  "threads_ok r \<Longrightarrow> threads_ok (finish_subscription k r)"
  "relevant_only r \<Longrightarrow> relevant_only (finish_subscription k r)"
  using unwrap_thread_id [of r k]
  by (auto simp: threads_ok_def relevant_only_def finish_subscription_def Let_def is_prunable_def
      split: if_splits)

lemma cancel_subscription_ok:
  "threads_ok r \<Longrightarrow> threads_ok (cancel_subscription k r)"
  "relevant_only r \<Longrightarrow> relevant_only (cancel_subscription k r)"
  by (cases "rd_threads r k";
      auto simp: threads_ok_def relevant_only_def cancel_subscription_def Let_def split: if_splits)+

lemma set_subscribed_ok:
  "threads_ok r \<Longrightarrow> threads_ok (set_subscribed k b r)"
  "relevant_only r \<Longrightarrow> relevant_only (set_subscribed k b r)"
proof -
  have "threads_ok r \<Longrightarrow> threads_ok (set_subscribed k False r)"
    by (auto simp: threads_ok_def set_subscribed_def Let_def split: option.splits if_splits)
  then show "threads_ok r \<Longrightarrow> threads_ok (set_subscribed k b r)"
    by (cases b) (simp_all add: set_subscribed_def finish_subscription_ok)
  have "relevant_only r \<Longrightarrow> relevant_only (set_subscribed k False r)"
    by (auto simp: relevant_only_def set_subscribed_def Let_def split: option.splits if_splits)
  then show "relevant_only r \<Longrightarrow> relevant_only (set_subscribed k b r)"
    by (cases b) (simp_all add: set_subscribed_def finish_subscription_ok)
qed

lemma evict_idle_ok:
  "threads_ok r \<Longrightarrow> threads_ok (snd (evict_idle r))"
  "relevant_only (snd (evict_idle r))"
  by (auto simp: threads_ok_def relevant_only_def evict_idle_def Let_def
      intro: finite_subset [OF dom_map_retain])

lemma reconcile_thread_ok: "threads_ok r \<Longrightarrow> threads_ok (reconcile_thread raw r)"
  by (auto simp: threads_ok_def reconcile_thread_def Let_def split: option.splits if_splits)

text \<open>Reconciliation is the one operation that may leave an irrelevant entry behind.\<close>

lemma reconcile_thread_relevant:
  "relevant_only r \<Longrightarrow>
     (\<And>k. get_str ''id'' raw = Some k \<Longrightarrow>
        last_open_turn raw \<noteq> None \<or> k \<in> rd_subscribing r \<or> is_some_and (rd_threads r k) ts_subscribed) \<Longrightarrow>
     relevant_only (reconcile_thread raw r)"
  by (auto simp: relevant_only_def reconcile_thread_def Let_def is_prunable_def
      split: option.splits if_splits)

lemma subscription_frames [simp]:
  "rd_lifecycle (begin_subscription k r) = rd_lifecycle r"
  "rd_lifecycle (finish_subscription k r) = rd_lifecycle r"
  "rd_lifecycle (cancel_subscription k r) = rd_lifecycle r"
  "rd_lifecycle (reconcile_thread raw r) = rd_lifecycle r"
  "rd_lifecycle_capacity (begin_subscription k r) = rd_lifecycle_capacity r"
  "rd_lifecycle_capacity (finish_subscription k r) = rd_lifecycle_capacity r"
  "rd_lifecycle_capacity (cancel_subscription k r) = rd_lifecycle_capacity r"
  "rd_lifecycle_capacity (reconcile_thread raw r) = rd_lifecycle_capacity r"
  by (simp_all add: begin_subscription_def finish_subscription_def cancel_subscription_def
      reconcile_thread_def Let_def split: option.splits)

lemma subscribing_frames [simp]:
  "rd_subscribing (begin_subscription k r) = insert k (rd_subscribing r)"
  "rd_subscribing (finish_subscription k r) = rd_subscribing r - {k}"
  "rd_subscribing (cancel_subscription k r) = rd_subscribing r - {k}"
  "rd_subscribing (reconcile_thread raw r) = rd_subscribing r"
  by (simp_all add: begin_subscription_def finish_subscription_def cancel_subscription_def
      reconcile_thread_def Let_def split: option.splits)

section \<open>The active turn, abstractly\<close>

text \<open>
  What the reducer promises of the active turn of a thread: it is decided by the turn events
  of that thread alone, whatever entries were pruned in between.
\<close>

definition active_turn :: "reducer \<Rightarrow> string \<Rightarrow> string option" where
  "active_turn r k = Option.bind (rd_threads r k) ts_active_turn_id"

fun spec_turn_step :: "sequenced_event \<Rightarrow> (string \<Rightarrow> string option) \<Rightarrow> (string \<Rightarrow> string option)" where
  "spec_turn_step e active =
     (case ev_thread_id e of
        None \<Rightarrow> active
      | Some k \<Rightarrow>
          if ev_method e = Some ''turn/started'' then active(k := ev_turn_id e)
          else if ev_method e = Some ''turn/completed'' \<and> ev_turn_id e \<in> {active k, None}
            then active(k := None)
          else active)"

lemma update_thread_active:
  "ts_active_turn_id (update_thread e t) =
     (if ev_method e = Some ''turn/started'' then ev_turn_id e
      else if ev_method e = Some ''turn/completed'' \<and> ev_turn_id e \<in> {ts_active_turn_id t, None}
        then None
      else ts_active_turn_id t)"
  by (cases "ev_method e") (auto simp: update_thread_def Let_def)

lemma active_turn_unwrap:
  "ts_active_turn_id (unwrap_or (rd_threads r k) (unknown_thread k)) = active_turn r k"
  by (cases "rd_threads r k") (auto simp: active_turn_def)

lemma active_turn_apply: "active_turn (apply_event e r) = spec_turn_step e (active_turn r)"
proof
  fix k
  show "active_turn (apply_event e r) k = spec_turn_step e (active_turn r) k"
  proof (cases "ev_thread_id e = Some k")
    case True
    let ?t = "update_thread e (unwrap_or (rd_threads r k) (unknown_thread k))"
    have "active_turn (apply_event e r) k = ts_active_turn_id ?t"
      using True by (auto simp: active_turn_def apply_state_threads Let_def is_prunable_def)
    with True show ?thesis by (auto simp: update_thread_active active_turn_unwrap)
  next
    case False
    then show ?thesis
      by (auto simp: active_turn_def apply_state_threads Let_def split: option.splits)
  qed
qed

lemma active_turn_run: "active_turn (fold apply_event es r) = fold spec_turn_step es (active_turn r)"
  by (induction es arbitrary: r) (auto simp: active_turn_apply simp del: spec_turn_step.simps)

section \<open>Runs\<close>

text \<open>Every operation of the reducer that changes its state.\<close>

datatype reducer_op =
    Apply sequenced_event
  | Register "sequenced_event \<Rightarrow> bool"
  | Begin string
  | Finish string
  | Cancel string
  | SetSubscribed string bool
  | EvictIdle
  | Reconcile json

fun reducer_exec :: "reducer_op \<Rightarrow> reducer \<Rightarrow> reducer" where
  "reducer_exec (Apply e) r = apply_event e r"
| "reducer_exec (Register p) r = fst (register_waiter p r)"
| "reducer_exec (Begin k) r = begin_subscription k r"
| "reducer_exec (Finish k) r = finish_subscription k r"
| "reducer_exec (Cancel k) r = cancel_subscription k r"
| "reducer_exec (SetSubscribed k b) r = set_subscribed k b r"
| "reducer_exec EvictIdle r = snd (evict_idle r)"
| "reducer_exec (Reconcile raw) r = reconcile_thread raw r"

fun is_reconcile :: "reducer_op \<Rightarrow> bool" where
  "is_reconcile (Reconcile _) = True"
| "is_reconcile _ = False"

definition reducer_wf :: "reducer \<Rightarrow> bool" where
  "reducer_wf r \<longleftrightarrow> log_ok r \<and> senders_ok r \<and> threads_ok r"

lemma reducer_new_Some:
  assumes "reducer_new n = Some r"
  shows "reducer_wf r" "relevant_only r" "rd_threads r = Map.empty" "rd_lifecycle r = []"
    "rd_lifecycle_capacity r = n" "rd_subscribing r = {}" "active_turn r = Map.empty" "0 < n"
  using assms by (auto simp: reducer_new_def reducer_wf_def log_ok_def senders_ok_def threads_ok_def
      relevant_only_def active_turn_def split: if_splits)

lemma threads_ok_cong: "rd_snapshot r = rd_snapshot s \<Longrightarrow> threads_ok r = threads_ok s"
  by (simp add: threads_ok_def)

lemma relevant_only_cong:
  "rd_snapshot r = rd_snapshot s \<Longrightarrow> rd_subscribing r = rd_subscribing s \<Longrightarrow>
     relevant_only r = relevant_only s"
  by (simp add: relevant_only_def)

lemma set_subscribed_frames [simp]:
  "rd_lifecycle (set_subscribed k b r) = rd_lifecycle r"
  "rd_lifecycle_capacity (set_subscribed k b r) = rd_lifecycle_capacity r"
  "rd_waiters (set_subscribed k b r) = rd_waiters r"
  "rd_next_sender (set_subscribed k b r) = rd_next_sender r"
  "rd_delivered (set_subscribed k b r) = rd_delivered r"
  by (simp_all add: set_subscribed_def finish_subscription_def Let_def split: option.splits)

lemma waiter_frames [simp]:
  "rd_waiters (begin_subscription k r) = rd_waiters r"
  "rd_waiters (finish_subscription k r) = rd_waiters r"
  "rd_waiters (cancel_subscription k r) = rd_waiters r"
  "rd_waiters (reconcile_thread raw r) = rd_waiters r"
  "rd_next_sender (begin_subscription k r) = rd_next_sender r"
  "rd_next_sender (finish_subscription k r) = rd_next_sender r"
  "rd_next_sender (cancel_subscription k r) = rd_next_sender r"
  "rd_next_sender (reconcile_thread raw r) = rd_next_sender r"
  "rd_delivered (begin_subscription k r) = rd_delivered r"
  "rd_delivered (finish_subscription k r) = rd_delivered r"
  "rd_delivered (cancel_subscription k r) = rd_delivered r"
  "rd_delivered (reconcile_thread raw r) = rd_delivered r"
  by (simp_all add: begin_subscription_def finish_subscription_def cancel_subscription_def
      reconcile_thread_def Let_def split: option.splits)

lemma evict_idle_frames [simp]:
  "rd_lifecycle (snd (evict_idle r)) = rd_lifecycle r"
  "rd_lifecycle_capacity (snd (evict_idle r)) = rd_lifecycle_capacity r"
  "rd_waiters (snd (evict_idle r)) = rd_waiters r"
  "rd_next_sender (snd (evict_idle r)) = rd_next_sender r"
  "rd_delivered (snd (evict_idle r)) = rd_delivered r"
  by (simp_all add: evict_idle_def Let_def)

lemma reducer_exec_log_ok: "log_ok r \<Longrightarrow> log_ok (reducer_exec op r)"
  by (cases op) (simp add: rlog.push_inv, simp_all add: log_ok_def)

lemma reducer_exec_senders_ok: "senders_ok r \<Longrightarrow> senders_ok (reducer_exec op r)"
proof (cases op)
  case (Register p)
  assume "senders_ok r"
  then show ?thesis
    using Register rwait.register_new [of r p "fst (register_waiter p r)" "snd (register_waiter p r)"]
    by simp
qed (simp add: apply_event_senders_ok, simp_all add: senders_ok_def)

lemma reducer_exec_threads_ok: "threads_ok r \<Longrightarrow> threads_ok (reducer_exec op r)"
  by (cases op) (auto simp: apply_event_threads_ok begin_subscription_ok finish_subscription_ok
      cancel_subscription_ok set_subscribed_ok evict_idle_ok reconcile_thread_ok
      threads_ok_cong [of "fst (register_waiter p r)" r for p r])

lemma reducer_exec_wf: "reducer_wf r \<Longrightarrow> reducer_wf (reducer_exec op r)"
  by (simp add: reducer_wf_def reducer_exec_log_ok reducer_exec_senders_ok reducer_exec_threads_ok)

lemma reducer_run_wf: "reducer_wf r \<Longrightarrow> reducer_wf (fold reducer_exec ops r)"
  by (induction ops arbitrary: r) (auto simp: reducer_exec_wf)

lemma reducer_exec_relevant:
  "relevant_only r \<Longrightarrow> \<not> is_reconcile op \<Longrightarrow> relevant_only (reducer_exec op r)"
  by (cases op) (auto simp: apply_event_relevant begin_subscription_ok finish_subscription_ok
      cancel_subscription_ok set_subscribed_ok evict_idle_ok
      relevant_only_cong [of "fst (register_waiter p r)" r for p r])

lemma reducer_run_relevant:
  "relevant_only r \<Longrightarrow> list_all (\<lambda>op. \<not> is_reconcile op) ops \<Longrightarrow>
     relevant_only (fold reducer_exec ops r)"
  by (induction ops arbitrary: r) (auto simp: reducer_exec_relevant)

lemma apply_event_protects:
  "k \<in> rd_subscribing r \<Longrightarrow> k \<in> dom (rd_threads r) \<Longrightarrow> k \<in> dom (rd_threads (apply_event e r))"
  by (auto simp: apply_state_threads Let_def split: option.splits)

lemma apply_events_protect:
  "k \<in> rd_subscribing r \<Longrightarrow> k \<in> dom (rd_threads r) \<Longrightarrow>
     k \<in> rd_subscribing (fold apply_event es r) \<and> k \<in> dom (rd_threads (fold apply_event es r))"
proof (induction es arbitrary: r)
  case (Cons e es)
  have "k \<in> rd_subscribing (apply_event e r)" using Cons.prems(1) by simp
  with Cons.IH [OF this apply_event_protects [OF Cons.prems]] show ?case by simp
qed simp

definition unsubscribed :: "reducer \<Rightarrow> bool" where
  "unsubscribed r \<longleftrightarrow> rd_subscribing r = {} \<and>
     (\<forall>k t. rd_threads r k = Some t \<longrightarrow> \<not> ts_subscribed t)"

lemma apply_event_unsubscribed: "unsubscribed r \<Longrightarrow> unsubscribed (apply_event e r)"
proof -
  assume u: "unsubscribed r"
  then have "\<And>k. \<not> ts_subscribed (unwrap_or (rd_threads r k) (unknown_thread k))"
    by (auto simp: unsubscribed_def unwrap_or_def split: option.splits)
  with u show ?thesis
    by (auto simp: unsubscribed_def apply_state_threads Let_def split: option.splits if_splits)
qed

lemma unsubscribed_run: "unsubscribed r \<Longrightarrow> unsubscribed (fold apply_event es r)"
  by (induction es arbitrary: r) (auto simp: apply_event_unsubscribed)

lemma relevant_run: "relevant_only r \<Longrightarrow> relevant_only (fold apply_event es r)"
  by (induction es arbitrary: r) (auto simp: apply_event_relevant)

lemma unsubscribed_dom:
  assumes "unsubscribed r" "relevant_only r"
  shows "dom (rd_threads r) = dom (active_turn r)"
  using assms by (fastforce simp: unsubscribed_def relevant_only_def is_prunable_def active_turn_def
      Option.bind_eq_Some_conv)

section \<open>Properties\<close>

text \<open>C2. The reducer's view of active turns is exact, whatever it pruned. After any run of
  events from a new reducer, the active turn of every thread is the one the thread's own turn
  events decide (a \<open>turn/started\<close> sets it, a \<open>turn/completed\<close> of that turn or
  without a turn id clears it), and the threads with an entry are exactly those that have an
  active turn: idle noise is pruned, and no active thread ever is.\<close>

theorem reducer_active_turn_exact:
  assumes "reducer_new capacity = Some r"
  shows "active_turn (fold apply_event es r) = fold spec_turn_step es Map.empty \<and>
    dom (rd_threads (fold apply_event es r)) = dom (fold spec_turn_step es Map.empty)"
proof -
  have "unsubscribed r" using reducer_new_Some [OF assms] by (simp add: unsubscribed_def)
  then show ?thesis
    using unsubscribed_dom [OF unsubscribed_run relevant_run] reducer_new_Some [OF assms]
    by (simp add: active_turn_run)
qed

theorem reducer_active_turn_exact_witness:
  "\<exists>r. reducer_new 2 = Some r \<and>
     active_turn (fold apply_event
       [sample_event 1 ''turn/started'' ''t'' ''a'', sample_event 2 ''turn/completed'' ''u'' ''b''] r) ''t'' =
       Some ''a'' \<and>
     dom (rd_threads (fold apply_event
       [sample_event 1 ''turn/started'' ''t'' ''a'', sample_event 2 ''turn/completed'' ''u'' ''b''] r)) = {''t''}"
proof -
  let ?es = "[sample_event 1 ''turn/started'' ''t'' ''a'', sample_event 2 ''turn/completed'' ''u'' ''b'']"
  obtain r where r: "reducer_new 2 = Some r" by (simp add: reducer_new_def)
  have "fold spec_turn_step ?es Map.empty = [''t'' \<mapsto> ''a'']" by simp
  then show ?thesis
    using reducer_active_turn_exact [OF r, of ?es] r by (intro exI [of _ r]) simp
qed

text \<open>C13. \<open>events_since\<close> never loses a transition silently. With increasing receipt
  sequences, after any run of events the answer is either every lifecycle event after the
  requested sequence, in order, although the log keeps only the last \<open>capacity\<close> of them, or
  \<open>GapTooOld\<close> with the current snapshot, and then the oldest event still in the log lies
  beyond the one the caller needs next.\<close>

theorem events_since_no_silent_loss:
  assumes "reducer_new capacity = Some r" and "sorted_wrt (<) (map ev_sequence es)"
  shows "case events_since s (fold apply_event es r) of
      Events out \<Rightarrow> out = filter (\<lambda>e. ev_plane e = Lifecycle \<and> s < ev_sequence e) es
    | GapTooOld after oldest snap \<Rightarrow>
        after = s \<and> snap = rd_snapshot (fold apply_event es r) \<and>
        (\<exists>o1. oldest = Some o1 \<and> unat s + 1 < unat o1 \<and>
           o1 \<in> ev_sequence ` set (rd_lifecycle (fold apply_event es r)))"
proof (cases "rd_lifecycle (fold apply_event es r)")
  case Nil
  then show ?thesis
    using rlog.since_complete [OF _ reducer_new_Some(4) [OF assms(1)] assms(2), of s]
      reducer_new_Some(1) [OF assms(1)]
    by (simp add: events_since_def reducer_wf_def conj_commute)
next
  case (Cons e0 rest)
  show ?thesis
  proof (cases "saturating_add s 1 < ev_sequence e0")
    case True
    with Cons show ?thesis by (auto simp: events_since_def saturating_add_1_less)
  next
    case False
    have "filter (\<lambda>e. s < ev_sequence e) (rd_lifecycle (fold apply_event es r)) =
        filter (\<lambda>e. s < ev_sequence e) (filter (\<lambda>e. ev_plane e = Lifecycle) es)"
      by (rule rlog.since_complete [OF _ reducer_new_Some(4) [OF assms(1)] assms(2)])
        (use reducer_new_Some(1) [OF assms(1)] False Cons in \<open>simp_all add: reducer_wf_def\<close>)
    with False Cons show ?thesis by (simp add: events_since_def conj_commute)
  qed
qed

theorem events_since_no_silent_loss_witness:
  "\<exists>r. reducer_new 1 = Some r \<and>
     sorted_wrt (<) (map ev_sequence [sample_event 1 ''turn/started'' ''t'' ''a'',
       sample_event 2 ''turn/completed'' ''t'' ''a'']) \<and>
     events_since 1 (fold apply_event [sample_event 1 ''turn/started'' ''t'' ''a'',
       sample_event 2 ''turn/completed'' ''t'' ''a''] r) =
       Events [sample_event 2 ''turn/completed'' ''t'' ''a'']"
proof -
  let ?es = "[sample_event 1 ''turn/started'' ''t'' ''a'', sample_event 2 ''turn/completed'' ''t'' ''a'']"
  obtain r where r: "reducer_new 1 = Some r" by (simp add: reducer_new_def)
  have sorted: "sorted_wrt (<) (map ev_sequence ?es)" by simp
  have "rd_lifecycle (fold apply_event ?es r) = [sample_event 2 ''turn/completed'' ''t'' ''a'']"
    using reducer_new_Some [OF r] by (simp add: apply_event_lifecycle take_last_def)
  then have "\<exists>out. events_since 1 (fold apply_event ?es r) = Events out"
    by (simp add: events_since_def saturating_add_1_less)
  then show ?thesis
    using events_since_no_silent_loss [OF r sorted, of 1] r by (intro exI [of _ r]) auto
qed

text \<open>C19. A one-shot waiter receives exactly the first event after its registration that
  satisfies its predicate, and nothing when no event does, in any reducer reached from a new
  one by any sequence of operations.\<close>

theorem waiter_receives_first_match:
  assumes "reducer_new capacity = Some r0" and "r = fold reducer_exec ops r0"
    and "register_waiter p r = (r1, i)"
  shows "rd_delivered (fold apply_event es r1) i = find p es"
  using rwait.await_first_match [OF _ assms(3)] reducer_run_wf reducer_new_Some(1) [OF assms(1)]
  by (simp add: assms(2) reducer_wf_def)

theorem waiter_receives_first_match_witness:
  "\<exists>r r1. reducer_new 4 = Some r \<and>
     register_waiter (\<lambda>e. ev_method e = Some ''turn/completed'') r = (r1, 0) \<and>
     rd_delivered (fold apply_event [sample_event 1 ''turn/started'' ''t'' ''a'',
       sample_event 2 ''turn/completed'' ''t'' ''a''] r1) 0 =
       Some (sample_event 2 ''turn/completed'' ''t'' ''a'')"
proof -
  let ?p = "\<lambda>e. ev_method e = Some ''turn/completed''"
  obtain r where r: "reducer_new 4 = Some r" by (simp add: reducer_new_def)
  obtain r1 where r1: "register_waiter ?p r = (r1, 0)"
    using r by (auto simp: register_waiter_def reducer_new_def)
  have r0: "r = fold reducer_exec [] r" by simp
  show ?thesis
    using waiter_receives_first_match [OF r r0 r1, of "[sample_event 1 ''turn/started'' ''t'' ''a'',
       sample_event 2 ''turn/completed'' ''t'' ''a'']"] r r1
    by (intro exI [of _ r] exI [of _ r1]) simp
qed

text \<open>The reducer's memory is bounded to what is relevant. After any sequence of
  operations the log holds at most \<open>capacity\<close> events; unless a reconciliation put it
  there, every thread entry is subscribed, being subscribed, or has an active turn; and an
  eviction pass restores that even after reconciliations.\<close>

theorem reducer_retains_only_relevant:
  assumes "reducer_new capacity = Some r0" and "r = fold reducer_exec ops r0"
  shows "length (rd_lifecycle r) \<le> rd_lifecycle_capacity r \<and> finite (dom (rd_threads r)) \<and>
    (list_all (\<lambda>op. \<not> is_reconcile op) ops \<longrightarrow> relevant_only r) \<and>
    relevant_only (snd (evict_idle r))"
  using reducer_run_wf [OF reducer_new_Some(1) [OF assms(1)], of ops]
    reducer_run_relevant [OF reducer_new_Some(2) [OF assms(1)], of ops]
  by (simp add: assms(2) reducer_wf_def log_ok_def threads_ok_def evict_idle_ok)

theorem reducer_retains_only_relevant_witness:
  "\<exists>r. reducer_new 1 = Some r \<and>
     relevant_only (fold reducer_exec [Begin ''t'', Apply (sample_event 1 ''turn/started'' ''u'' ''a'')] r)"
proof -
  obtain r where r: "reducer_new 1 = Some r" by (simp add: reducer_new_def)
  show ?thesis
    using reducer_retains_only_relevant [OF r refl,
        of "[Begin ''t'', Apply (sample_event 1 ''turn/started'' ''u'' ''a'')]"] r
    by (intro exI [of _ r]) simp
qed

text \<open>A pending subscription protects its thread: from \<open>begin_subscription\<close> on, no
  run of events prunes the entry, and \<open>finish_subscription\<close> turns it into a subscribed
  entry that keeps the turn those events left active.\<close>

theorem pending_subscription_survives:
  shows "k \<in> dom (rd_threads (fold apply_event es (begin_subscription k r))) \<and>
    (\<exists>t. rd_threads (finish_subscription k (fold apply_event es (begin_subscription k r))) k = Some t \<and>
       ts_subscribed t \<and> ts_active_turn_id t = fold spec_turn_step es (active_turn r) k)"
proof -
  let ?b = "begin_subscription k r"
  let ?r = "fold apply_event es ?b"
  have "active_turn ?b = active_turn r"
    by (rule ext, cases "rd_threads r k")
      (auto simp: active_turn_def begin_subscription_def Let_def)
  then have a: "active_turn ?r = fold spec_turn_step es (active_turn r)"
    by (simp add: active_turn_run)
  have "k \<in> dom (rd_threads ?r)"
    using apply_events_protect [of k ?b es] by (simp add: begin_subscription_def Let_def)
  then obtain t where t: "rd_threads ?r k = Some t" by blast
  then have "active_turn ?r k = ts_active_turn_id t" by (simp add: active_turn_def)
  with t a show ?thesis by (simp add: finish_subscription_def Let_def domIff)
qed

text \<open>A completion of some other turn leaves the thread's own turn active and still
  reports the thread idle: status and active turn disagree after it.\<close>

theorem stale_completion_reports_idle:
  assumes "rd_threads r k = Some t" and "ts_active_turn_id t = Some a"
    and "ev_thread_id e = Some k" and "ev_method e = Some ''turn/completed''"
    and "ev_turn_id e = Some b" and "a \<noteq> b"
  shows "\<exists>u. rd_threads (apply_event e r) k = Some u \<and>
    ts_active_turn_id u = Some a \<and> ts_status u = ''idle''"
  using assms by (simp add: apply_state_threads Let_def update_thread_def is_prunable_def)

theorem stale_completion_reports_idle_witness:
  "\<exists>r t u. rd_threads r ''t'' = Some t \<and> ts_active_turn_id t = Some ''a'' \<and>
     rd_threads (apply_event (sample_event 2 ''turn/completed'' ''t'' ''b'') r) ''t'' = Some u \<and>
     ts_active_turn_id u = Some ''a'' \<and> ts_status u = ''idle''"
proof -
  obtain r0 where r0: "reducer_new 4 = Some r0" by (simp add: reducer_new_def)
  let ?r = "apply_event (sample_event 1 ''turn/started'' ''t'' ''a'') r0"
  obtain t where t: "rd_threads ?r ''t'' = Some t" "ts_active_turn_id t = Some ''a''"
    using reducer_new_Some [OF r0]
    by (simp add: apply_state_threads Let_def update_thread_def is_prunable_def)
  from stale_completion_reports_idle [OF t, of "sample_event 2 ''turn/completed'' ''t'' ''b''" "''b''"]
  obtain u where u: "rd_threads (apply_event (sample_event 2 ''turn/completed'' ''t'' ''b'') ?r) ''t'' = Some u"
    "ts_active_turn_id u = Some ''a''" "ts_status u = ''idle''" by auto
  with t show ?thesis by blast
qed

end
