(* ===== verification/Streaming.thy ===== *)
theory Streaming
  imports Reducer
begin

text \<open>
  The event fan-out of \<open>src/streaming/src/lib.rs\<close>: the hub that publishes an event on the
  channel of its plane, the lifecycle stream that recovers from lag out of the reducer's log,
  and the delta stream that only counts what it lost. The broadcast channel itself is tokio's:
  the hub keeps what was sent on each channel, and what a receiver answers is an argument of
  the two \<open>recv\<close> operations.
\<close>

section \<open>Hub\<close>

record event_hub =
  hub_lifecycle :: "sequenced_event list"
  hub_delta :: "sequenced_event list"

definition event_hub_new :: event_hub where
  "event_hub_new = \<lparr> hub_lifecycle = [], hub_delta = [] \<rparr>"

definition publish :: "sequenced_event \<Rightarrow> event_hub \<Rightarrow> event_hub" where
  "publish e hub =
     (case ev_plane e of
        Lifecycle \<Rightarrow> hub\<lparr>hub_lifecycle := hub_lifecycle hub @ [e]\<rparr>
      | Delta \<Rightarrow> hub\<lparr>hub_delta := hub_delta hub @ [e]\<rparr>)"

section \<open>Receivers\<close>

text \<open>What a broadcast receiver answers.\<close>

datatype recv_result = RecvOk sequenced_event | RecvLagged u64 | RecvClosed

text \<open>
  The documented behaviour of a broadcast receiver, relied on by the properties: it stands at
  a position of what was sent; it answers the value there and advances, or, when that value is
  no longer retained, answers the number of values skipped and stands behind them, or answers
  that the channel is closed once everything was read.
\<close>

inductive broadcast_recv :: "sequenced_event list \<Rightarrow> nat \<Rightarrow> recv_result \<Rightarrow> nat \<Rightarrow> bool" where
  recv_ok: "pos < length sent \<Longrightarrow> broadcast_recv sent pos (RecvOk (sent ! pos)) (Suc pos)"
| recv_lagged: "0 < n \<Longrightarrow> pos + n \<le> length sent \<Longrightarrow> n < 2 ^ 64 \<Longrightarrow>
    broadcast_recv sent pos (RecvLagged (of_nat n)) (pos + n)"
| recv_closed: "broadcast_recv sent (length sent) RecvClosed (length sent)"

inductive_cases broadcast_recv_okE: "broadcast_recv sent pos (RecvOk e) pos'"
inductive_cases broadcast_recv_laggedE: "broadcast_recv sent pos (RecvLagged n) pos'"
inductive_cases broadcast_recv_closedE: "broadcast_recv sent pos RecvClosed pos'"

section \<open>Lifecycle stream\<close>

datatype lifecycle_item =
    ItemEvent sequenced_event
  | ItemReplay "sequenced_event list"
  | ItemGapTooOld snapshot "sequence option"
  | ItemClosed

record lifecycle_stream =
  ls_cursor :: sequence

definition lifecycle :: "sequence \<Rightarrow> lifecycle_stream" where
  "lifecycle after = \<lparr> ls_cursor = after \<rparr>"

definition lifecycle_recv :: "recv_result \<Rightarrow> reducer \<Rightarrow> lifecycle_stream \<Rightarrow> lifecycle_item \<times> lifecycle_stream" where
  "lifecycle_recv answer r s =
     (case answer of
        RecvOk e \<Rightarrow> (ItemEvent e, s\<lparr>ls_cursor := ev_sequence e\<rparr>)
      | RecvLagged _ \<Rightarrow>
          (case events_since (ls_cursor s) r of
             Events es \<Rightarrow>
               (ItemReplay es,
                if es = [] then s else s\<lparr>ls_cursor := ev_sequence (last es)\<rparr>)
           | GapTooOld _ oldest snap \<Rightarrow>
               (ItemGapTooOld snap oldest, s\<lparr>ls_cursor := sn_at_sequence snap\<rparr>))
      | RecvClosed \<Rightarrow> (ItemClosed, s))"

section \<open>Delta stream\<close>

record delta_stream =
  ds_dropped :: u64

definition deltas_new :: delta_stream where
  "deltas_new = \<lparr> ds_dropped = 0 \<rparr>"

text \<open>
  The loop asks the receiver until it answers an event or that the channel is closed. The
  answers still to come are a list; \<open>None\<close> where they end first, which is a call that is
  still waiting.
\<close>

fun delta_recv :: "recv_result list \<Rightarrow> delta_stream \<Rightarrow> (sequenced_event option \<times> recv_result list \<times> delta_stream) option" where
  "delta_recv [] s = None"
| "delta_recv (RecvOk e # rest) s = Some (Some e, rest, s)"
| "delta_recv (RecvLagged n # rest) s = delta_recv rest (s\<lparr>ds_dropped := ds_dropped s + n\<rparr>)"
| "delta_recv (RecvClosed # rest) s = Some (None, rest, s)"

section \<open>Runs of answers\<close>

inductive broadcast_recvs :: "sequenced_event list \<Rightarrow> nat \<Rightarrow> recv_result list \<Rightarrow> nat \<Rightarrow> bool" for sent where
  recvs_done: "broadcast_recvs sent pos [] pos"
| recvs_step: "broadcast_recv sent pos answer mid \<Longrightarrow> broadcast_recvs sent mid answers end \<Longrightarrow>
    broadcast_recvs sent pos (answer # answers) end"

inductive_cases broadcast_recvs_ConsE: "broadcast_recvs sent pos (answer # answers) end"

lemma broadcast_recv_bounds: "broadcast_recv sent pos a pos' \<Longrightarrow> pos \<le> pos' \<and> pos' \<le> length sent"
  by (auto elim: broadcast_recv.cases)

text \<open>The state of the channel after a run of publications.\<close>

lemma publish_run:
  "hub_lifecycle (fold publish es hub) = hub_lifecycle hub @ filter (\<lambda>e. ev_plane e = Lifecycle) es"
  "hub_delta (fold publish es hub) = hub_delta hub @ filter (\<lambda>e. ev_plane e = Delta) es"
  by (induction es arbitrary: hub) (auto simp: publish_def split: plane.splits)

text \<open>The count of one call is the distance the receiver moved, less the event delivered.\<close>

lemma delta_recv_counts:
  "broadcast_recvs sent pos answers end \<Longrightarrow> delta_recv answers s = Some (out, rest, s') \<Longrightarrow>
     \<exists>mid. broadcast_recvs sent mid rest end \<and> pos \<le> mid \<and>
       ds_dropped s' + of_nat (case out of None \<Rightarrow> 0 | Some _ \<Rightarrow> 1) =
         ds_dropped s + of_nat (mid - pos) \<and>
       (case out of None \<Rightarrow> mid = length sent | Some e \<Rightarrow> pos < mid \<and> mid \<le> length sent \<and> e = sent ! (mid - 1))"
proof (induction answers s arbitrary: pos rule: delta_recv.induct)
  case (2 e rest0 s)
  from "2.prems"(1) obtain mid where step: "broadcast_recv sent pos (RecvOk e) mid"
    "broadcast_recvs sent mid rest0 end" by (blast elim: broadcast_recvs_ConsE)
  from step(1) have "mid = Suc pos" "e = sent ! pos" "pos < length sent"
    by (auto elim: broadcast_recv_okE)
  with step(2) "2.prems"(2) show ?case by (intro exI [of _ mid]) auto
next
  case (3 n rest0 s)
  from "3.prems"(1) obtain mid0 where step: "broadcast_recv sent pos (RecvLagged n) mid0"
    "broadcast_recvs sent mid0 rest0 end" by (blast elim: broadcast_recvs_ConsE)
  from step(1) have n: "pos \<le> mid0" "n = of_nat (mid0 - pos)" by (auto elim: broadcast_recv_laggedE)
  from "3.IH" [OF step(2)] "3.prems"(2) obtain mid where mid: "broadcast_recvs sent mid rest end"
    "mid0 \<le> mid" "ds_dropped s' + of_nat (case out of None \<Rightarrow> 0 | Some _ \<Rightarrow> 1) =
         ds_dropped s + n + of_nat (mid - mid0)"
    "case out of None \<Rightarrow> mid = length sent | Some e \<Rightarrow> mid0 < mid \<and> mid \<le> length sent \<and> e = sent ! (mid - 1)"
    by auto
  have "of_nat (mid - pos) = (of_nat (mid0 - pos) + of_nat (mid - mid0) :: u64)"
    using n(1) mid(2) by (simp flip: of_nat_add)
  with mid n show ?case by (intro exI [of _ mid]) (auto split: option.splits)
next
  case (4 rest0 s)
  from "4.prems"(1) obtain mid where step: "broadcast_recv sent pos RecvClosed mid"
    "broadcast_recvs sent mid rest0 end" by (blast elim: broadcast_recvs_ConsE)
  from step(1) have "mid = length sent" "pos = length sent" by (auto elim: broadcast_recv_closedE)
  with step(2) "4.prems"(2) show ?case by (intro exI [of _ mid]) auto
qed simp

section \<open>Properties\<close>

text \<open>The delta stream counts what it lost. Over a receiver that behaves as documented, a
  call that returns has moved the receiver from \<open>pos\<close> to some \<open>mid\<close>; the count grew by
  exactly the values in between that were not delivered, modulo \<open>2^64\<close>, and what it returns
  is the value just before \<open>mid\<close>, or nothing once the channel is closed and read to its
  end; the receiver's remaining answers start at \<open>mid\<close>.\<close>

theorem delta_stream_counts_losses:
  assumes "broadcast_recvs sent pos answers end" and "delta_recv answers s = Some (out, rest, s')"
  shows "\<exists>mid. broadcast_recvs sent mid rest end \<and> pos \<le> mid \<and>
       ds_dropped s' + of_nat (case out of None \<Rightarrow> 0 | Some _ \<Rightarrow> 1) =
         ds_dropped s + of_nat (mid - pos) \<and>
       (case out of None \<Rightarrow> mid = length sent | Some e \<Rightarrow> pos < mid \<and> mid \<le> length sent \<and> e = sent ! (mid - 1))"
  by (rule delta_recv_counts [OF assms])

theorem delta_stream_counts_losses_witness:
  "\<exists>out rest s'. delta_recv [RecvLagged 1, RecvOk (sample_event 2 ''item/agentMessage/delta'' ''t'' ''a'')] deltas_new =
     Some (out, rest, s') \<and> ds_dropped s' = 1 \<and> out = Some (sample_event 2 ''item/agentMessage/delta'' ''t'' ''a'')"
proof -
  let ?e = "\<lambda>n. sample_event n ''item/agentMessage/delta'' ''t'' ''a''"
  have "broadcast_recv [?e 1, ?e 2] 0 (RecvLagged (of_nat 1)) (0 + 1)" by (rule recv_lagged) auto
  moreover have "broadcast_recv [?e 1, ?e 2] 1 (RecvOk ([?e 1, ?e 2] ! 1)) (Suc 1)" by (rule recv_ok) simp
  ultimately have run: "broadcast_recvs [?e 1, ?e 2] 0 [RecvLagged 1, RecvOk (?e 2)] 2"
    by (auto intro!: recvs_step recvs_done simp: numeral_2_eq_2)
  have ret: "delta_recv [RecvLagged 1, RecvOk (?e 2)] deltas_new =
      Some (Some (?e 2), [], deltas_new\<lparr>ds_dropped := ds_dropped deltas_new + 1\<rparr>)" by simp
  from delta_stream_counts_losses [OF run ret] show ?thesis
    using ret by (auto simp: deltas_new_def)
qed

end
