(* ===== verification/Ingress.thy ===== *)
theory Ingress
  imports Store Streaming
begin

text \<open>
  \<open>AuthoritativeIngress\<close> of \<open>src/ingest/src/lib.rs\<close>: every event the transport delivers
  is applied to the reducer, recorded in the store and then published, one event at a time. The
  components are shared, so other tasks run between the three calls; the step relation below
  interleaves them with the reducer's other operations and the store's anchors.
\<close>

section \<open>Processing\<close>

record ingress =
  ig_reducer :: reducer
  ig_store :: event_store
  ig_hub :: event_hub

definition process :: "encoder \<Rightarrow> key_order \<Rightarrow> sequenced_event \<Rightarrow> ingress \<Rightarrow> ingress option" where
  "process tv order e ig0 =
     (let ig = ig0\<lparr>ig_reducer := apply_event e (ig_reducer ig0)\<rparr>
      in map_option (\<lambda>st. ig\<lparr>ig_store := st, ig_hub := publish e (ig_hub ig)\<rparr>)
           (record_event tv order e (ig_store ig)))"

text \<open>The receive loop over the events the transport delivers until it closes the channel.\<close>

fun ingress_run :: "encoder \<Rightarrow> key_order \<Rightarrow> sequenced_event list \<Rightarrow> ingress \<Rightarrow> ingress option" where
  "ingress_run tv order [] ig = Some ig"
| "ingress_run tv order (e # es) ig = Option.bind (process tv order e ig) (ingress_run tv order es)"

interpretation irun: stepwise_run "process tv order" "ingress_run tv order" for tv order
  by unfold_locales simp_all

text \<open>What a run of the loop makes of a fresh reducer, store and hub.\<close>

lemma ingress_run_exact:
  assumes "hash_order order"
  shows "\<exists>ig. ingress_run tv order es \<lparr> ig_reducer = r, ig_store = store_new cfg now, ig_hub = event_hub_new \<rparr> = Some ig \<and>
    ig_reducer ig = fold apply_event es r \<and> store_run tv order cfg es (ig_store ig) \<and>
    ig_hub ig = fold publish es event_hub_new"
proof (induction es rule: rev_induct)
  case Nil
  show ?case using run_new by auto
next
  case (snoc e es)
  then obtain ig where ig: "ingress_run tv order es \<lparr> ig_reducer = r, ig_store = store_new cfg now, ig_hub = event_hub_new \<rparr> = Some ig"
      "ig_reducer ig = fold apply_event es r" "store_run tv order cfg es (ig_store ig)" "ig_hub ig = fold publish es event_hub_new"
    by blast
  from record_event_total [OF assms] store_run_inv [OF ig(3) assms]
  obtain st where st: "record_event tv order e (ig_store ig) = Some st" by blast
  have "process tv order e ig = Some (ig\<lparr>ig_reducer := apply_event e (ig_reducer ig), ig_store := st, ig_hub := publish e (ig_hub ig)\<rparr>)"
    using st by (simp add: process_def Let_def)
  with ig st run_record [OF ig(3) st] show ?case by (auto simp: irun.run_snoc)
qed

section \<open>Interleaved execution\<close>

text \<open>
  Where the processing of an event stands, and what was applied and published so far.
\<close>

datatype phase = Waiting | Applied sequenced_event | Recorded sequenced_event

record system =
  sy_ingress :: ingress
  sy_phase :: phase
  sy_applied :: "sequenced_event list"
  sy_published :: "sequenced_event list"

abbreviation sy_reducer :: "system \<Rightarrow> reducer" where
  "sy_reducer sy \<equiv> ig_reducer (sy_ingress sy)"

abbreviation sy_store :: "system \<Rightarrow> event_store" where
  "sy_store sy \<equiv> ig_store (sy_ingress sy)"

abbreviation sy_hub :: "system \<Rightarrow> event_hub" where
  "sy_hub sy \<equiv> ig_hub (sy_ingress sy)"

definition system_start :: "nat \<Rightarrow> store_config \<Rightarrow> duration \<Rightarrow> system option" where
  "system_start capacity cfg now =
     map_option (\<lambda>r. \<lparr> sy_ingress = \<lparr> ig_reducer = r, ig_store = store_new cfg now, ig_hub = event_hub_new \<rparr>,
         sy_phase = Waiting, sy_applied = [], sy_published = [] \<rparr>)
       (reducer_new capacity)"

fun is_apply :: "reducer_op \<Rightarrow> bool" where
  "is_apply (Apply _) = True"
| "is_apply _ = False"

inductive system_step :: "encoder \<Rightarrow> key_order \<Rightarrow> system \<Rightarrow> system \<Rightarrow> bool" for tv order where
  step_apply: "sy_phase sy = Waiting \<Longrightarrow>
    system_step tv order sy (sy\<lparr>sy_ingress := (sy_ingress sy)\<lparr>ig_reducer := apply_event e (sy_reducer sy)\<rparr>,
      sy_phase := Applied e, sy_applied := sy_applied sy @ [e]\<rparr>)"
| step_record: "sy_phase sy = Applied e \<Longrightarrow> record_event tv order e (sy_store sy) = Some st \<Longrightarrow>
    system_step tv order sy (sy\<lparr>sy_ingress := (sy_ingress sy)\<lparr>ig_store := st\<rparr>, sy_phase := Recorded e\<rparr>)"
| step_publish: "sy_phase sy = Recorded e \<Longrightarrow>
    system_step tv order sy (sy\<lparr>sy_ingress := (sy_ingress sy)\<lparr>ig_hub := publish e (sy_hub sy)\<rparr>,
      sy_phase := Waiting, sy_published := sy_published sy @ [e]\<rparr>)"
| step_operation: "\<not> is_apply op \<Longrightarrow>
    system_step tv order sy (sy\<lparr>sy_ingress := (sy_ingress sy)\<lparr>ig_reducer := reducer_exec op (sy_reducer sy)\<rparr>\<rparr>)"
| step_anchor: "record_reconstructed_active_turn tv order unix_now now seq thread turn (sy_store sy) = Some (b, st) \<Longrightarrow>
    system_step tv order sy (sy\<lparr>sy_ingress := (sy_ingress sy)\<lparr>ig_store := st\<rparr>\<rparr>)"

inductive reachable :: "encoder \<Rightarrow> key_order \<Rightarrow> nat \<Rightarrow> store_config \<Rightarrow> system \<Rightarrow> bool"
  for tv order capacity cfg where
  reach_start: "system_start capacity cfg now = Some sy \<Longrightarrow> reachable tv order capacity cfg sy"
| reach_step: "reachable tv order capacity cfg sy \<Longrightarrow> system_step tv order sy sy' \<Longrightarrow>
    reachable tv order capacity cfg sy'"

lemma three_steps: "R x a \<Longrightarrow> R a b \<Longrightarrow> R b c \<Longrightarrow> R\<^sup>*\<^sup>* x c"
  by (meson r_into_rtranclp rtranclp.rtrancl_into_rtrancl)

text \<open>Processing one event without interruption is three steps.\<close>

lemma process_steps:
  assumes "sy_phase sy = Waiting" and "process tv order e (sy_ingress sy) = Some ig"
  shows "(system_step tv order)\<^sup>*\<^sup>* sy (sy\<lparr>sy_ingress := ig, sy_applied := sy_applied sy @ [e],
    sy_published := sy_published sy @ [e]\<rparr>)"
proof -
  obtain st where st: "record_event tv order e (sy_store sy) = Some st"
    and ig: "ig = (sy_ingress sy)\<lparr>ig_reducer := apply_event e (sy_reducer sy), ig_store := st,
      ig_hub := publish e (sy_hub sy)\<rparr>"
    using assms(2) by (auto simp: process_def)
  let ?a = "sy\<lparr>sy_ingress := (sy_ingress sy)\<lparr>ig_reducer := apply_event e (sy_reducer sy)\<rparr>,
      sy_phase := Applied e, sy_applied := sy_applied sy @ [e]\<rparr>"
  let ?b = "?a\<lparr>sy_ingress := (sy_ingress ?a)\<lparr>ig_store := st\<rparr>, sy_phase := Recorded e\<rparr>"
  let ?c = "?b\<lparr>sy_ingress := (sy_ingress ?b)\<lparr>ig_hub := publish e (sy_hub ?b)\<rparr>,
      sy_phase := Waiting, sy_published := sy_published ?b @ [e]\<rparr>"
  have a: "system_step tv order sy ?a" by (rule step_apply [OF assms(1)])
  have b: "system_step tv order ?a ?b" using step_record [where sy = ?a and e = e and st = st] st by simp
  have c: "system_step tv order ?b ?c" using step_publish [where sy = ?b and e = e] by simp
  have "?c = sy\<lparr>sy_ingress := ig, sy_applied := sy_applied sy @ [e],
    sy_published := sy_published sy @ [e]\<rparr>" using assms(1) by (cases sy) (simp add: ig)
  with three_steps [where R = "system_step tv order", OF a b c] show ?thesis by simp
qed

section \<open>Invariants\<close>

fun in_flight :: "phase \<Rightarrow> sequenced_event list" where
  "in_flight Waiting = []"
| "in_flight (Applied e) = [e]"
| "in_flight (Recorded e) = [e]"

fun recorded_part :: "phase \<Rightarrow> sequenced_event list" where
  "recorded_part (Recorded e) = [e]"
| "recorded_part _ = []"

definition authoritative :: "encoder \<Rightarrow> system \<Rightarrow> bool" where
  "authoritative tv sy \<longleftrightarrow>
     log_ok (sy_reducer sy) \<and> store_inv tv (sy_store sy) \<and>
     sy_applied sy = sy_published sy @ in_flight (sy_phase sy) \<and>
     rd_lifecycle (sy_reducer sy) =
       take_last (rd_lifecycle_capacity (sy_reducer sy)) (filter (\<lambda>e. ev_plane e = Lifecycle) (sy_applied sy)) \<and>
     current_sequence (sy_reducer sy) = fold max (map ev_sequence (sy_applied sy)) 0 \<and>
     hub_lifecycle (sy_hub sy) = filter (\<lambda>e. ev_plane e = Lifecycle) (sy_published sy) \<and>
     hub_delta (sy_hub sy) = filter (\<lambda>e. ev_plane e = Delta) (sy_published sy) \<and>
     (\<forall>e \<in> set (sy_published sy @ recorded_part (sy_phase sy)). covered (es_inner (sy_store sy)) e)"

lemma at_sequence_frames [simp]:
  "sn_at_sequence (rd_snapshot (begin_subscription k r)) = sn_at_sequence (rd_snapshot r)"
  "sn_at_sequence (rd_snapshot (finish_subscription k r)) = sn_at_sequence (rd_snapshot r)"
  "sn_at_sequence (rd_snapshot (cancel_subscription k r)) = sn_at_sequence (rd_snapshot r)"
  "sn_at_sequence (rd_snapshot (set_subscribed k b r)) = sn_at_sequence (rd_snapshot r)"
  "sn_at_sequence (rd_snapshot (reconcile_thread raw r)) = sn_at_sequence (rd_snapshot r)"
  "sn_at_sequence (rd_snapshot (snd (evict_idle r))) = sn_at_sequence (rd_snapshot r)"
  by (simp_all add: begin_subscription_def finish_subscription_def cancel_subscription_def
      set_subscribed_def reconcile_thread_def evict_idle_def Let_def split: option.splits)

lemma reducer_op_frames:
  assumes "\<not> is_apply op"
  shows "rd_lifecycle (reducer_exec op r) = rd_lifecycle r"
    and "rd_lifecycle_capacity (reducer_exec op r) = rd_lifecycle_capacity r"
    and "sn_at_sequence (rd_snapshot (reducer_exec op r)) = sn_at_sequence (rd_snapshot r)"
proof -
  show "rd_lifecycle (reducer_exec op r) = rd_lifecycle r"
    using assms by (cases op) simp_all
  show "rd_lifecycle_capacity (reducer_exec op r) = rd_lifecycle_capacity r"
    using assms by (cases op) simp_all
  show "sn_at_sequence (rd_snapshot (reducer_exec op r)) = sn_at_sequence (rd_snapshot r)"
    using assms by (cases op) simp_all
qed

lemma authoritative_start:
  assumes "system_start capacity cfg now = Some sy"
  shows "authoritative tv sy"
proof -
  obtain r where r: "reducer_new capacity = Some r" and sy: "sy = \<lparr> sy_ingress =
      \<lparr> ig_reducer = r, ig_store = store_new cfg now, ig_hub = event_hub_new \<rparr>,
         sy_phase = Waiting, sy_applied = [], sy_published = [] \<rparr>"
    using assms by (auto simp: system_start_def)
  have "current_sequence r = 0" using r by (auto simp: reducer_new_def current_sequence_def split: if_splits)
  then show ?thesis
    using reducer_new_Some [OF r] store_inv_new [of tv cfg now]
    by (simp add: authoritative_def sy reducer_wf_def event_hub_new_def take_last_def)
qed

lemma authoritative_step:
  assumes "hash_order order" and "system_step tv order sy sy'" and "authoritative tv sy"
  shows "authoritative tv sy'"
  using assms(2,3)
proof cases
  case (step_apply e)
  with assms(3) show ?thesis
    by (simp add: authoritative_def rlog.push_inv apply_event_lifecycle take_last_snoc
        current_sequence_def log_ok_def max.commute)
next
  case (step_record e st)
  with assms(3) record_keeps_inv [OF assms(1) _ step_record(3)] covered_record [OF step_record(3)]
  show ?thesis by (auto simp: authoritative_def)
next
  case (step_publish e)
  with assms(3) show ?thesis
    by (cases "ev_plane e") (auto simp: authoritative_def publish_def)
next
  case (step_operation op)
  with assms(3) show ?thesis
    by (simp add: authoritative_def reducer_op_frames reducer_exec_log_ok current_sequence_def)
next
  case (step_anchor unix_now now seq thread turn b st)
  from anchor_cases [OF step_anchor(2)] show ?thesis
  proof
    assume "st = sy_store sy"
    with step_anchor assms(3) show ?thesis by simp
  next
    assume "\<exists>e. record_event tv order e (sy_store sy) = Some st"
    then obtain e where e: "record_event tv order e (sy_store sy) = Some st" ..
    with step_anchor assms(3) record_keeps_inv [OF assms(1) _ e] covered_record(1) [OF e] show ?thesis
      by (auto simp: authoritative_def)
  qed
qed

lemma reachable_authoritative:
  assumes "hash_order order"
  shows "reachable tv order capacity cfg sy \<Longrightarrow> authoritative tv sy"
  by (induction rule: reachable.induct) (auto intro: authoritative_start authoritative_step [OF assms])

section \<open>Watching a lifecycle stream\<close>

text \<open>
  A subscriber opens a stream at some moment, with the sequence it already knows, and then
  receives while the system keeps running. The run keeps the receiver's first position and its
  current one, and the items received so far.
\<close>

inductive watching :: "encoder \<Rightarrow> key_order \<Rightarrow> nat \<Rightarrow> store_config \<Rightarrow> sequence \<Rightarrow> nat \<Rightarrow>
    system \<Rightarrow> nat \<Rightarrow> lifecycle_stream \<Rightarrow> lifecycle_item list \<Rightarrow> bool"
  for tv order capacity cfg after first where
  watch_open: "reachable tv order capacity cfg sy \<Longrightarrow> first = length (hub_lifecycle (sy_hub sy)) \<Longrightarrow>
    watching tv order capacity cfg after first sy first (lifecycle after) []"
| watch_system: "watching tv order capacity cfg after first sy pos s items \<Longrightarrow> system_step tv order sy sy' \<Longrightarrow>
    watching tv order capacity cfg after first sy' pos s items"
| watch_recv: "watching tv order capacity cfg after first sy pos s items \<Longrightarrow>
    broadcast_recv (hub_lifecycle (sy_hub sy)) pos answer pos' \<Longrightarrow>
    lifecycle_recv answer (sy_reducer sy) s = (item, s') \<Longrightarrow>
    watching tv order capacity cfg after first sy pos' s' (items @ [item])"

text \<open>What an item tells the subscriber about an event.\<close>

fun reports :: "lifecycle_item \<Rightarrow> sequenced_event \<Rightarrow> bool" where
  "reports (ItemEvent f) e \<longleftrightarrow> f = e"
| "reports (ItemReplay es) e \<longleftrightarrow> e \<in> set es"
| "reports (ItemGapTooOld snap oldest) e \<longleftrightarrow> ev_sequence e \<le> sn_at_sequence snap"
| "reports ItemClosed e \<longleftrightarrow> False"

definition reported :: "lifecycle_item list \<Rightarrow> sequenced_event \<Rightarrow> bool" where
  "reported items e \<longleftrightarrow> (\<exists>item \<in> set items. reports item e)"

lemma reported_snoc [simp]: "reported (items @ [item]) e \<longleftrightarrow> reported items e \<or> reports item e"
  by (auto simp: reported_def)

abbreviation lifecycle_history :: "system \<Rightarrow> sequenced_event list" where
  "lifecycle_history sy \<equiv> filter (\<lambda>e. ev_plane e = Lifecycle) (sy_applied sy)"

definition stream_ok :: "sequence \<Rightarrow> nat \<Rightarrow> system \<Rightarrow> nat \<Rightarrow> lifecycle_stream \<Rightarrow> lifecycle_item list \<Rightarrow> bool" where
  "stream_ok after first sy pos s items \<longleftrightarrow>
     first \<le> pos \<and> pos \<le> length (hub_lifecycle (sy_hub sy)) \<and>
     (\<forall>j. first \<le> j \<and> j < length (lifecycle_history sy) \<and> after < ev_sequence (lifecycle_history sy ! j) \<and>
        (j < pos \<or> ev_sequence (lifecycle_history sy ! j) \<le> ls_cursor s) \<longrightarrow>
        reported items (lifecycle_history sy ! j)) \<and>
     (ls_cursor s \<le> after \<or> (\<exists>e \<in> set (sy_applied sy). ls_cursor s \<le> ev_sequence e))"

lemma events_since_history:
  assumes "authoritative tv sy" and "sorted_wrt (<) (map ev_sequence (sy_applied sy))"
    and "events_since c (sy_reducer sy) = Events es"
  shows "es = filter (\<lambda>e. c < ev_sequence e) (lifecycle_history sy)"
proof -
  let ?r = "sy_reducer sy"
  have ok: "log_ok ?r" and l: "rd_lifecycle ?r = take_last (rd_lifecycle_capacity ?r) (lifecycle_history sy)"
    using assms(1) by (simp_all add: authoritative_def)
  have "es = filter (\<lambda>e. c < ev_sequence e) (rd_lifecycle ?r)"
    and "rd_lifecycle ?r \<noteq> [] \<Longrightarrow> \<not> saturating_add c 1 < ev_sequence (hd (rd_lifecycle ?r))"
    using assms(3) by (auto simp: events_since_def Let_def split: list.splits if_splits)
  then show ?thesis using rlog.since_suffix [OF ok l assms(2), of c] by simp
qed

lemma events_since_gap:
  assumes "events_since c r = GapTooOld x oldest snap"
  shows "snap = rd_snapshot r"
  using assms by (auto simp: events_since_def Let_def split: if_splits)

lemma fold_max_ge: "a \<le> fold max xs (a :: u64)"
proof (induction xs arbitrary: a)
  case (Cons x xs)
  show ?case using Cons.IH [of "max x a"] by simp
qed simp

lemma fold_max_upper: "x \<in> set xs \<Longrightarrow> x \<le> fold max xs (a :: u64)"
proof (induction xs arbitrary: a)
  case (Cons y xs)
  then show ?case using fold_max_ge [of "max y a" xs] by auto
qed simp

lemma fold_max_in: "fold max xs (a :: u64) \<in> set xs \<union> {a}"
  by (induction xs arbitrary: a) (auto simp: max_def split: if_splits)

lemma history_of_hub:
  assumes "authoritative tv sy"
  obtains rest where "lifecycle_history sy = hub_lifecycle (sy_hub sy) @ rest"
  using assms by (auto simp: authoritative_def)

lemma system_step_grows:
  assumes "system_step tv order sy sy'"
  obtains xs ys where "sy_applied sy' = sy_applied sy @ xs"
    "hub_lifecycle (sy_hub sy') = hub_lifecycle (sy_hub sy) @ ys"
  using assms by cases (auto simp: publish_def split: plane.splits)

lemma stream_ok_grows:
  assumes ok: "stream_ok after first sy pos s items" and auth: "authoritative tv sy"
    and xs: "sy_applied sy' = sy_applied sy @ xs"
    and ys: "hub_lifecycle (sy_hub sy') = hub_lifecycle (sy_hub sy) @ ys"
    and sorted: "sorted_wrt (<) (map ev_sequence (sy_applied sy'))"
  shows "stream_ok after first sy' pos s items"
proof -
  let ?H = "lifecycle_history sy" and ?X = "filter (\<lambda>e. ev_plane e = Lifecycle) xs"
  have H: "lifecycle_history sy' = ?H @ ?X" by (simp add: xs)
  obtain rest where "?H = hub_lifecycle (sy_hub sy) @ rest" using history_of_hub [OF auth] .
  with ok have pos: "pos \<le> length ?H" by (simp add: stream_ok_def)
  have new: "x \<in> set xs \<Longrightarrow> e \<in> set (sy_applied sy) \<Longrightarrow> ev_sequence e < ev_sequence x" for x e
    using sorted by (auto simp: xs sorted_wrt_append)
  have "reported items (lifecycle_history sy' ! j)"
    if j: "first \<le> j" "j < length (lifecycle_history sy')" "after < ev_sequence (lifecycle_history sy' ! j)"
      and seen: "j < pos \<or> ev_sequence (lifecycle_history sy' ! j) \<le> ls_cursor s" for j
  proof (cases "j < length ?H")
    case True
    with ok j seen show ?thesis by (auto simp: stream_ok_def H nth_append)
  next
    case False
    then have "lifecycle_history sy' ! j \<in> set xs"
      using j(2) nth_mem [of "j - length ?H" ?X] by (auto simp: H nth_append)
    moreover have "\<not> j < pos" using False pos by simp
    ultimately show ?thesis
      using new seen j(3) ok by (fastforce simp: stream_ok_def)
  qed
  with ok show ?thesis by (auto simp: stream_ok_def xs ys)
qed

lemma stream_ok_recv:
  assumes ok: "stream_ok after first sy pos s items" and auth: "authoritative tv sy"
    and sorted: "sorted_wrt (<) (map ev_sequence (sy_applied sy))"
    and answer: "broadcast_recv (hub_lifecycle (sy_hub sy)) pos answer pos'"
    and recv: "lifecycle_recv answer (sy_reducer sy) s = (item, s')"
  shows "stream_ok after first sy pos' s' (items @ [item])"
proof -
  let ?H = "lifecycle_history sy" and ?S = "hub_lifecycle (sy_hub sy)"
  obtain rest where H: "?H = ?S @ rest" using history_of_hub [OF auth] .
  have sortedH: "sorted_wrt (<) (map ev_sequence ?H)"
    using sorted by (simp add: sorted_wrt_map sorted_wrt_filter)
  have bounds: "pos \<le> pos'" "pos' \<le> length ?S" using broadcast_recv_bounds [OF answer] by auto
  have old: "reported items (?H ! j)"
    if "first \<le> j" "j < length ?H" "after < ev_sequence (?H ! j)"
      "j < pos \<or> ev_sequence (?H ! j) \<le> ls_cursor s" for j
    using ok that unfolding stream_ok_def by blast
  have cursor: "ls_cursor s \<le> after \<or> (\<exists>e \<in> set (sy_applied sy). ls_cursor s \<le> ev_sequence e)"
    and first: "first \<le> pos'" using ok bounds by (auto simp: stream_ok_def)
  show ?thesis
  proof (cases answer)
    case (RecvOk e)
    with answer have e: "pos < length ?S" "e = ?H ! pos" "pos' = Suc pos"
      by (auto simp: H nth_append elim: broadcast_recv_okE)
    have item: "item = ItemEvent e" "ls_cursor s' = ev_sequence e"
      using recv RecvOk by (auto simp: lifecycle_recv_def)
    have "reported (items @ [item]) (?H ! j)"
      if j: "first \<le> j" "j < length ?H" "after < ev_sequence (?H ! j)"
        "j < pos' \<or> ev_sequence (?H ! j) \<le> ls_cursor s'" for j
    proof (cases "pos < j")
      case True
      then have "ev_sequence (?H ! pos) < ev_sequence (?H ! j)"
        using sortedH j(2) by (simp add: sorted_wrt_iff_nth_less)
      with j(4) True show ?thesis by (simp add: item e)
    next
      case False
      with j old show ?thesis by (cases "j = pos") (auto simp: item e)
    qed
    moreover have "e \<in> set (sy_applied sy)"
    proof -
      have "pos < length ?H" using e(1) by (simp add: H)
      from nth_mem [OF this] show ?thesis by (simp add: e(2))
    qed
    ultimately show ?thesis using first bounds by (auto simp: stream_ok_def item)
  next
    case (RecvLagged n)
    show ?thesis
    proof (cases "events_since (ls_cursor s) (sy_reducer sy)")
      case (Events es)
      note es = events_since_history [OF auth sorted Events]
      have item: "item = ItemReplay es"
        "ls_cursor s' = (if es = [] then ls_cursor s else ev_sequence (last es))"
        using recv RecvLagged Events by (auto simp: lifecycle_recv_def)
      have "reported (items @ [item]) (?H ! j)"
        if j: "first \<le> j" "j < length ?H" "after < ev_sequence (?H ! j)" for j
      proof (cases "ev_sequence (?H ! j) \<le> ls_cursor s")
        case False
        with nth_mem [OF j(2)] show ?thesis by (simp add: item es not_le)
      qed (use j old in simp)
      moreover have "es \<noteq> [] \<Longrightarrow> last es \<in> set (sy_applied sy)"
        using last_in_set [of es] by (auto simp: es)
      ultimately show ?thesis using first bounds cursor by (auto simp: stream_ok_def item)
    next
      case (GapTooOld x oldest snap)
      have at: "sn_at_sequence snap = fold max (map ev_sequence (sy_applied sy)) 0"
        using events_since_gap [OF GapTooOld] auth by (simp add: authoritative_def current_sequence_def)
      have item: "item = ItemGapTooOld snap oldest" "ls_cursor s' = sn_at_sequence snap"
        using recv RecvLagged GapTooOld by (auto simp: lifecycle_recv_def)
      have "ev_sequence (?H ! j) \<le> sn_at_sequence snap" if "j < length ?H" for j
        using nth_mem [OF that] by (auto simp: at intro!: fold_max_upper)
      moreover have "sn_at_sequence snap \<le> after \<or>
          (\<exists>e \<in> set (sy_applied sy). sn_at_sequence snap \<le> ev_sequence e)"
        using fold_max_in [of "map ev_sequence (sy_applied sy)" 0] by (auto simp: at)
      ultimately show ?thesis using first bounds by (auto simp: stream_ok_def item)
    qed
  next
    case RecvClosed
    with answer recv have "pos' = pos" "s' = s" "item = ItemClosed"
      by (auto simp: lifecycle_recv_def elim: broadcast_recv_closedE)
    with ok show ?thesis by (auto simp: stream_ok_def)
  qed
qed

text \<open>The events an item carries.\<close>

fun item_events :: "lifecycle_item \<Rightarrow> sequenced_event list" where
  "item_events (ItemEvent e) = [e]"
| "item_events (ItemReplay es) = es"
| "item_events _ = []"

lemma recv_sound:
  assumes auth: "authoritative tv sy"
    and answer: "broadcast_recv (hub_lifecycle (sy_hub sy)) pos answer pos'"
    and recv: "lifecycle_recv answer (sy_reducer sy) s = (item, s')"
  shows "set (item_events item) \<subseteq> set (lifecycle_history sy)"
proof -
  obtain rest where H: "lifecycle_history sy = hub_lifecycle (sy_hub sy) @ rest"
    using history_of_hub [OF auth] .
  have log: "set (rd_lifecycle (sy_reducer sy)) \<subseteq> set (lifecycle_history sy)"
    using auth by (auto simp: authoritative_def take_last_def dest!: in_set_dropD)
  show ?thesis
  proof (cases answer)
    case (RecvOk e)
    then have "e \<in> set (hub_lifecycle (sy_hub sy))" using answer by (auto elim!: broadcast_recv_okE)
    with H have "e \<in> set (lifecycle_history sy)" by (metis UnI1 set_append)
    with RecvOk recv show ?thesis by (auto simp: lifecycle_recv_def)
  next
    case (RecvLagged n)
    show ?thesis
    proof (cases "events_since (ls_cursor s) (sy_reducer sy)")
      case (Events es)
      then have "set es \<subseteq> set (rd_lifecycle (sy_reducer sy))"
        by (auto simp: events_since_def Let_def split: if_splits)
      with log recv RecvLagged Events show ?thesis by (auto simp: lifecycle_recv_def)
    qed (use recv RecvLagged in \<open>auto simp: lifecycle_recv_def\<close>)
  qed (use recv in \<open>auto simp: lifecycle_recv_def\<close>)
qed

lemma watching_reachable:
  "watching tv order capacity cfg after first sy pos s items \<Longrightarrow> reachable tv order capacity cfg sy"
  by (induction rule: watching.induct) (auto intro: reach_step)

lemma watching_ok:
  assumes order: "hash_order order"
  shows "watching tv order capacity cfg after first sy pos s items \<Longrightarrow>
    sorted_wrt (<) (map ev_sequence (sy_applied sy)) \<Longrightarrow>
    stream_ok after first sy pos s items \<and>
    (\<forall>item \<in> set items. set (item_events item) \<subseteq> set (lifecycle_history sy))"
proof (induction rule: watching.induct)
  case (watch_open sy)
  then show ?case
    by (auto simp: stream_ok_def lifecycle_def not_less)
next
  case (watch_system sy pos s items sy')
  obtain xs ys where grow: "sy_applied sy' = sy_applied sy @ xs"
    "hub_lifecycle (sy_hub sy') = hub_lifecycle (sy_hub sy) @ ys"
    using system_step_grows [OF watch_system(2)] .
  have "authoritative tv sy"
    using reachable_authoritative [OF order watching_reachable [OF watch_system(1)]] .
  moreover have "sorted_wrt (<) (map ev_sequence (sy_applied sy))"
    using watch_system.prems by (simp add: grow sorted_wrt_append)
  ultimately show ?case
    using watch_system.IH stream_ok_grows [OF _ _ grow watch_system.prems] by (fastforce simp: grow)
next
  case (watch_recv sy pos s items answer pos' item s')
  have "authoritative tv sy"
    using reachable_authoritative [OF order watching_reachable [OF watch_recv(1)]] .
  with watch_recv stream_ok_recv [OF _ _ watch_recv.prems watch_recv(2,3)] recv_sound [OF _ watch_recv(2,3)]
  show ?case by (simp add: ball_Un)
qed

lemma watching_system_run:
  "(system_step tv order)\<^sup>*\<^sup>* sy sy' \<Longrightarrow> watching tv order capacity cfg after first sy pos s items \<Longrightarrow>
     watching tv order capacity cfg after first sy' pos s items"
  by (induction rule: rtranclp.induct) (auto intro: watch_system)

lemma reachable_run:
  "(system_step tv order)\<^sup>*\<^sup>* sy sy' \<Longrightarrow> reachable tv order capacity cfg sy \<Longrightarrow>
     reachable tv order capacity cfg sy'"
  by (induction rule: rtranclp.induct) (auto intro: reach_step)

text \<open>A concrete run: one event processed while a stream is open.\<close>

lemma one_event_watched:
  "\<exists>sy. sy_applied sy = [e] \<and> sy_published sy = [e] \<and>
     reachable sample_tv sorted_keys 4 roomy_cfg sy \<and>
     watching sample_tv sorted_keys 4 roomy_cfg 0 0 sy 0 (lifecycle 0) []"
proof -
  obtain sy0 where start: "system_start 4 roomy_cfg 0 = Some sy0"
    by (simp add: system_start_def reducer_new_def)
  then have sy0: "sy_phase sy0 = Waiting" "sy_applied sy0 = []" "sy_published sy0 = []"
    "hub_lifecycle (sy_hub sy0) = []" "store_inv sample_tv (sy_store sy0)"
    using store_inv_new by (auto simp: system_start_def event_hub_new_def)
  have reach: "reachable sample_tv sorted_keys 4 roomy_cfg sy0" by (rule reach_start [OF start])
  have watch: "watching sample_tv sorted_keys 4 roomy_cfg 0 0 sy0 0 (lifecycle 0) []"
    by (rule watch_open [OF reach]) (simp add: sy0)
  obtain st where "record_event sample_tv sorted_keys e (sy_store sy0) = Some st"
    using record_event_total [OF sorted_order.hash_order_axioms sy0(5)] by blast
  then obtain ig where "process sample_tv sorted_keys e (sy_ingress sy0) = Some ig"
    by (simp add: process_def)
  from process_steps [OF sy0(1) this]
  have run: "(system_step sample_tv sorted_keys)\<^sup>*\<^sup>* sy0
      (sy0\<lparr>sy_ingress := ig, sy_applied := [e], sy_published := [e]\<rparr>)" by (simp add: sy0)
  show ?thesis
    by (rule exI, intro conjI, rule_tac [3] reachable_run [OF run reach],
        rule_tac [3] watching_system_run [OF run watch]) simp_all
qed

section \<open>Properties\<close>

text \<open>Consumers are authoritative before anyone is told. In every interleaving of event
  processing with the reducer's other operations and the store's anchors, what the hub has
  published on its two channels is, in order, what was applied to the reducer, less at most the
  one event in flight; every published event is counted in the reducer's sequence and is
  retained in the store or covered by its thread's gap mark.\<close>

theorem published_only_after_authoritative:
  assumes "hash_order order" and "reachable tv order capacity cfg sy"
  shows "(\<exists>rest. sy_applied sy = sy_published sy @ rest \<and> length rest \<le> 1) \<and>
    hub_lifecycle (sy_hub sy) = filter (\<lambda>e. ev_plane e = Lifecycle) (sy_published sy) \<and>
    hub_delta (sy_hub sy) = filter (\<lambda>e. ev_plane e = Delta) (sy_published sy) \<and>
    list_all (\<lambda>e. ev_sequence e \<le> current_sequence (sy_reducer sy) \<and> covered (es_inner (sy_store sy)) e)
      (sy_published sy)"
proof -
  have auth: "authoritative tv sy" by (rule reachable_authoritative [OF assms])
  have "ev_sequence e \<le> current_sequence (sy_reducer sy)" if "e \<in> set (sy_published sy)" for e
    using auth fold_max_upper [of "ev_sequence e" "map ev_sequence (sy_applied sy)" 0] that
    by (simp add: authoritative_def)
  with auth show ?thesis
    by (cases "sy_phase sy") (simp_all add: authoritative_def list_all_iff)
qed

theorem published_only_after_authoritative_witness:
  "\<exists>sy. reachable sample_tv sorted_keys 4 roomy_cfg sy \<and>
     hub_lifecycle (sy_hub sy) = [sample_a] \<and> covered (es_inner (sy_store sy)) sample_a"
proof -
  obtain sy where sy: "sy_published sy = [sample_a]" "reachable sample_tv sorted_keys 4 roomy_cfg sy"
    using one_event_watched [of sample_a] by blast
  from published_only_after_authoritative [OF sorted_order.hash_order_axioms sy(2)] show ?thesis
    by (intro exI [of _ sy]) (simp add: sy sample_a_def)
qed

lemma watched_reported:
  assumes "hash_order order" and "watching tv order capacity cfg after first sy pos s items"
    and "sorted_wrt (<) (map ev_sequence (sy_applied sy))"
  shows "(\<forall>e \<in> set (drop first (take pos (hub_lifecycle (sy_hub sy)))).
      after < ev_sequence e \<longrightarrow> reported items e) \<and>
    (\<forall>item \<in> set items. set (item_events item) \<subseteq> set (lifecycle_history sy))"
proof -
  from watching_ok [OF assms] have ok: "stream_ok after first sy pos s items"
    and sound: "\<forall>item \<in> set items. set (item_events item) \<subseteq> set (lifecycle_history sy)" by auto
  obtain rest where H: "lifecycle_history sy = hub_lifecycle (sy_hub sy) @ rest"
    using history_of_hub [OF reachable_authoritative [OF assms(1) watching_reachable [OF assms(2)]]] .
  have "reported items e"
    if e: "e \<in> set (drop first (take pos (hub_lifecycle (sy_hub sy))))" "after < ev_sequence e" for e
  proof -
    obtain i where "i < length (drop first (take pos (hub_lifecycle (sy_hub sy))))"
      "e = drop first (take pos (hub_lifecycle (sy_hub sy))) ! i"
      using e(1) by (auto simp: in_set_conv_nth)
    then have "first + i < pos" "first + i < length (lifecycle_history sy)" "e = lifecycle_history sy ! (first + i)"
      by (auto simp: H nth_append)
    with ok e(2) show ?thesis by (auto simp: stream_ok_def)
  qed
  with sound show ?thesis by blast
qed

text \<open>C8. A lifecycle subscriber misses nothing without being told. Over a broadcast receiver
  that behaves as documented, with increasing receipt sequences and any interleaving, every
  lifecycle event published since the stream was opened that the receiver has moved past, and
  that lies after the sequence the subscriber started from, was delivered, was part of a replay,
  or lies at or before the snapshot of a \<open>GapTooOld\<close> item; and everything delivered or
  replayed is an event the reducer applied.\<close>

theorem lifecycle_stream_no_silent_loss:
  assumes "hash_order order" and "watching tv order capacity cfg after first sy pos s items"
    and "sorted_wrt (<) (map ev_sequence (sy_applied sy))"
  shows "(\<forall>e \<in> set (drop first (take pos (hub_lifecycle (sy_hub sy)))).
      after < ev_sequence e \<longrightarrow> reported items e) \<and>
    (\<forall>item \<in> set items. set (item_events item) \<subseteq> set (lifecycle_history sy))"
  by (rule watched_reported [OF assms])

theorem lifecycle_stream_no_silent_loss_witness:
  "\<exists>sy s. watching sample_tv sorted_keys 4 roomy_cfg 0 0 sy 1 s [ItemEvent sample_a] \<and>
     reported [ItemEvent sample_a] sample_a"
proof -
  obtain sy where sy: "sy_applied sy = [sample_a]" "sy_published sy = [sample_a]"
    "reachable sample_tv sorted_keys 4 roomy_cfg sy"
    and watch: "watching sample_tv sorted_keys 4 roomy_cfg 0 0 sy 0 (lifecycle 0) []"
    using one_event_watched [of sample_a] by blast
  have hub: "hub_lifecycle (sy_hub sy) = [sample_a]"
    using reachable_authoritative [OF sorted_order.hash_order_axioms sy(3)]
    by (simp add: authoritative_def sy sample_a_def)
  have answer: "broadcast_recv (hub_lifecycle (sy_hub sy)) 0 (RecvOk sample_a) 1"
    using recv_ok [of 0 "hub_lifecycle (sy_hub sy)"] by (simp add: hub)
  have recv: "lifecycle_recv (RecvOk sample_a) (sy_reducer sy) (lifecycle 0) =
      (ItemEvent sample_a, (lifecycle 0)\<lparr>ls_cursor := ev_sequence sample_a\<rparr>)"
    by (simp add: lifecycle_recv_def)
  have after: "watching sample_tv sorted_keys 4 roomy_cfg 0 0 sy 1
      ((lifecycle 0)\<lparr>ls_cursor := ev_sequence sample_a\<rparr>) [ItemEvent sample_a]"
    using watch_recv [OF watch answer recv] by simp
  have "sorted_wrt (<) (map ev_sequence (sy_applied sy))" by (simp add: sy)
  from lifecycle_stream_no_silent_loss [OF sorted_order.hash_order_axioms after this] after
  show ?thesis by (auto simp: hub sample_a_def)
qed

end
