(* ===== verification/Rpc.thy ===== *)
theory Rpc
  imports Reducer
begin

text \<open>
  The client interface of \<open>src/transport/src/lib.rs\<close> (\<open>RpcClient\<close>, \<open>RequestError\<close>)
  as its users see it, and the world their asynchronous code runs in. A component generic in
  its client gets the client as an argument: a function from the calls made so far to the
  answer, together with what other tasks do to the shared reducer until the answer arrives.
\<close>

section \<open>Request errors\<close>

datatype request_error =
    NotWritten string
  | WrittenOutcomeUnknown rpc_id string string
  | Rejected string json
  | TimedOut string
  | RequestClosed

text \<open>
  The display text. How a JSON value and the debug form of an id print is the libraries'.
\<close>

fun request_error_text :: "(json \<Rightarrow> string) \<Rightarrow> (rpc_id \<Rightarrow> string) \<Rightarrow> request_error \<Rightarrow> string" where
  "request_error_text show_json debug_id (NotWritten s) = ''request was not written: '' @ s"
| "request_error_text show_json debug_id (WrittenOutcomeUnknown i m d) =
     ''request '' @ m @ '' ('' @ debug_id i @ '') was written but its outcome is unknown: '' @ d"
| "request_error_text show_json debug_id (Rejected m e) =
     ''request '' @ m @ '' was rejected: '' @ show_json e"
| "request_error_text show_json debug_id (TimedOut m) =
     ''request timed out after it may have been written: '' @ m"
| "request_error_text show_json debug_id RequestClosed = ''transport is shut down''"

section \<open>Calls and the world\<close>

datatype rpc_call = Request string json | RequestAction string json | Notify string json

text \<open>
  The reducer is shared. The world keeps the calls made through the client and, for the
  statements of properties, everything other tasks did to the reducer.
\<close>

record world =
  wd_reducer :: reducer
  wd_calls :: "rpc_call list"
  wd_activity :: "reducer_op list"

type_synonym client = "rpc_call list \<Rightarrow> reducer_op list \<times> (request_error + json)"

definition others :: "reducer_op list \<Rightarrow> world \<Rightarrow> world" where
  "others ops w = w\<lparr>wd_reducer := fold reducer_exec ops (wd_reducer w), wd_activity := wd_activity w @ ops\<rparr>"

text \<open>One call: it is made, other tasks run, the answer arrives.\<close>

definition rpc :: "client \<Rightarrow> rpc_call \<Rightarrow> world \<Rightarrow> (request_error + json) \<times> world" where
  "rpc client call w =
     (let calls = wd_calls w @ [call]; (ops, answer) = client calls
      in (answer, others ops (w\<lparr>wd_calls := calls\<rparr>)))"

text \<open>The component's own use of the reducer.\<close>

definition on_reducer :: "(reducer \<Rightarrow> reducer) \<Rightarrow> world \<Rightarrow> world" where
  "on_reducer f w = w\<lparr>wd_reducer := f (wd_reducer w)\<rparr>"

section \<open>Waiting in a shared reducer\<close>

fun applied_event :: "reducer_op \<Rightarrow> sequenced_event option" where
  "applied_event (Apply e) = Some e"
| "applied_event _ = None"

abbreviation applied_events :: "reducer_op list \<Rightarrow> sequenced_event list" where
  "applied_events \<equiv> List.map_filter applied_event"

lemma evict_idle_snd: "snd (evict_idle r) = set_threads
    (map_retain (\<lambda>tid t. tid \<in> rd_subscribing r \<or> \<not> is_prunable t) (rd_threads r)) r"
  by (simp add: evict_idle_def Let_def)

lemma exec_waiter_frames:
  assumes "applied_event x = None"
  shows "rd_delivered (reducer_exec x r) = rd_delivered r"
    and "\<exists>ws. rd_waiters (reducer_exec x r) = rd_waiters r @ ws \<and> (\<forall>w \<in> set ws. w_sender w = rd_next_sender r)"
  using assms by (cases x; simp add: register_waiter_def)+

interpretation rshare: shared_waiter_service "\<lambda>p r. register_waiter p r" apply_event pending_waiter
    rd_delivered senders_ok reducer_exec applied_event
proof (unfold_locales, goal_cases)
  case (1 x e s)
  then show ?case by (cases x) auto
next
  case (2 s x)
  then show ?case by (rule reducer_exec_senders_ok)
next
  case (3 s x i p)
  obtain ws where "rd_waiters (reducer_exec x s) = rd_waiters s @ ws"
    using exec_waiter_frames(2) [OF 3(2)] by blast
  with 3 reducer_exec_senders_ok [OF 3(1), of x] show ?case by (auto simp: pending_waiter_iff)
next
  case (4 s x i)
  then show ?case by (simp add: exec_waiter_frames(1))
qed

lemma rpc_simps:
  "fst (rpc client call w) = snd (client (wd_calls w @ [call]))"
  "wd_calls (snd (rpc client call w)) = wd_calls w @ [call]"
  "wd_activity (snd (rpc client call w)) = wd_activity w @ fst (client (wd_calls w @ [call]))"
  "wd_reducer (snd (rpc client call w)) = fold reducer_exec (fst (client (wd_calls w @ [call]))) (wd_reducer w)"
  by (simp_all add: rpc_def others_def Let_def split_beta)

lemma others_simps [simp]:
  "wd_calls (others ops w) = wd_calls w"
  "wd_activity (others ops w) = wd_activity w @ ops"
  "wd_reducer (others ops w) = fold reducer_exec ops (wd_reducer w)"
  by (simp_all add: others_def)

lemma on_reducer_simps [simp]:
  "wd_calls (on_reducer f w) = wd_calls w"
  "wd_activity (on_reducer f w) = wd_activity w"
  "wd_reducer (on_reducer f w) = f (wd_reducer w)"
  by (simp_all add: on_reducer_def)

end
