(* ===== verification/Control.thy ===== *)
theory Control
  imports Rpc
begin

text \<open>
  The explicit-target actions of \<open>src/control/src/lib.rs\<close>: interrupt, steer and start a
  turn over a client that may fail in ways that leave open whether the request was written,
  and the classification of the outcome. The client, what other tasks do while an action waits
  and the printed form of values are the environment, an argument of every operation. An
  action runs under its thread's lock; the sleep between two attempts lets other tasks run,
  which the environment reports with the next answer.
\<close>

section \<open>Data\<close>

record control_config =
  cc_correlation_window :: duration
  cc_not_written_retries :: nat
  cc_retry_delay :: duration

definition control_config_default :: control_config where
  "control_config_default =
     \<lparr> cc_correlation_window = from_secs 3, cc_not_written_retries = 2, cc_retry_delay = from_millis 100 \<rparr>"

datatype action_target = TargetTurn string string | TargetThread string

fun target_thread_id :: "action_target \<Rightarrow> string" where
  "target_thread_id (TargetTurn thread turn) = thread"
| "target_thread_id (TargetThread thread) = thread"

record evidence =
  evd_action_correlation :: u64
  evd_rpc_accepted :: bool
  evd_observed_sequence :: "u64 option"
  evd_observed_method :: "string option"
  evd_note :: string

datatype action_outcome =
    Confirmed action_target evidence
  | ActionRejected action_target string "json option"
  | OutcomeUnknown action_target evidence

text \<open>A lock is its index in the order of creation.\<close>

record controller =
  ct_config :: control_config
  ct_locks :: "string \<rightharpoonup> nat"
  ct_next_lock :: nat
  ct_next_correlation :: u64
  ct_world :: world

record control_env =
  ce_client :: client
  ce_window :: "rpc_call list \<Rightarrow> reducer_op list"
  ce_show_json :: "json \<Rightarrow> string"
  ce_debug_id :: "rpc_id \<Rightarrow> string"

definition controller_new :: "reducer \<Rightarrow> control_config \<Rightarrow> controller" where
  "controller_new r config =
     \<lparr> ct_config = config, ct_locks = Map.empty, ct_next_lock = 0, ct_next_correlation = 1,
       ct_world = \<lparr> wd_reducer = r, wd_calls = [], wd_activity = [] \<rparr> \<rparr>"

abbreviation ct_calls :: "controller \<Rightarrow> rpc_call list" where
  "ct_calls c \<equiv> wd_calls (ct_world c)"

abbreviation ct_reducer :: "controller \<Rightarrow> reducer" where
  "ct_reducer c \<equiv> wd_reducer (ct_world c)"

abbreviation ct_activity :: "controller \<Rightarrow> reducer_op list" where
  "ct_activity c \<equiv> wd_activity (ct_world c)"

definition lock_for :: "string \<Rightarrow> controller \<Rightarrow> nat \<times> controller" where
  "lock_for thread c =
     (case ct_locks c thread of
        Some l \<Rightarrow> (l, c)
      | None \<Rightarrow> (ct_next_lock c, c\<lparr>ct_locks := (ct_locks c)(thread \<mapsto> ct_next_lock c),
                                   ct_next_lock := Suc (ct_next_lock c)\<rparr>))"

definition fetch_correlation :: "controller \<Rightarrow> u64 \<times> controller" where
  "fetch_correlation c =
     (ct_next_correlation c, c\<lparr>ct_next_correlation := ct_next_correlation c + 1\<rparr>)"

definition ct_register :: "(sequenced_event \<Rightarrow> bool) \<Rightarrow> controller \<Rightarrow> nat \<times> controller" where
  "ct_register p c =
     (let (r, i) = register_waiter p (ct_reducer c) in (i, c\<lparr>ct_world := (ct_world c)\<lparr>wd_reducer := r\<rparr>\<rparr>))"

definition ct_rpc :: "control_env \<Rightarrow> rpc_call \<Rightarrow> controller \<Rightarrow> (request_error + json) \<times> controller" where
  "ct_rpc env call c = (let (a, w) = rpc (ce_client env) call (ct_world c) in (a, c\<lparr>ct_world := w\<rparr>))"

text \<open>
  \<open>tokio::time::timeout(window, waiter)\<close>: other tasks run until the waiter fires or the
  window has passed; what was delivered to it by then is the answer.
\<close>

definition await_window :: "control_env \<Rightarrow> nat \<Rightarrow> controller \<Rightarrow> sequenced_event option \<times> controller" where
  "await_window env i c =
     (let c1 = c\<lparr>ct_world := others (ce_window env (ct_calls c)) (ct_world c)\<rparr>
      in (rd_delivered (ct_reducer c1) i, c1))"

section \<open>Sending\<close>

lemma ct_rpc_config [simp]: "ct_config (snd (ct_rpc env call c)) = ct_config c"
  by (simp add: ct_rpc_def Let_def split_beta)

function send_from :: "control_env \<Rightarrow> string \<Rightarrow> json \<Rightarrow> nat \<Rightarrow> controller \<Rightarrow> (request_error + json) \<times> controller" where
  "send_from env meth params retries c =
     (let (result, c1) = ct_rpc env (RequestAction meth params) c
      in case result of
           Inl (NotWritten _) \<Rightarrow>
             if retries < cc_not_written_retries (ct_config c1)
             then send_from env meth params (Suc retries) c1
             else (result, c1)
         | _ \<Rightarrow> (result, c1))"
  by pat_completeness auto
termination
  by (relation "measure (\<lambda>(env, meth, params, retries, c). cc_not_written_retries (ct_config c) - retries)")
    (auto simp: ct_rpc_def rpc_def Let_def split_beta)

declare send_from.simps [simp del]

definition send_not_written_safe :: "control_env \<Rightarrow> string \<Rightarrow> json \<Rightarrow> controller \<Rightarrow> (request_error + json) \<times> controller" where
  "send_not_written_safe env meth params c = send_from env meth params 0 c"

section \<open>Evidence\<close>

definition observed :: "u64 \<Rightarrow> bool \<Rightarrow> sequenced_event \<Rightarrow> string \<Rightarrow> evidence" where
  "observed correlation accepted e note =
     \<lparr> evd_action_correlation = correlation, evd_rpc_accepted = accepted,
       evd_observed_sequence = Some (ev_sequence e), evd_observed_method = ev_method e, evd_note = note \<rparr>"

definition unknown_evidence :: "u64 \<Rightarrow> bool \<Rightarrow> string \<Rightarrow> evidence" where
  "unknown_evidence correlation accepted note =
     \<lparr> evd_action_correlation = correlation, evd_rpc_accepted = accepted,
       evd_observed_sequence = None, evd_observed_method = None, evd_note = note \<rparr>"

section \<open>Interrupt\<close>

definition is_completion :: "string \<Rightarrow> string \<Rightarrow> sequenced_event \<Rightarrow> bool" where
  "is_completion thread turn e \<longleftrightarrow>
     ev_method e = Some ''turn/completed'' \<and> ev_thread_id e = Some thread \<and> ev_turn_id e = Some turn"

text \<open>Whether the answer of a read shows the turn in a terminal status.\<close>

definition read_terminal :: "request_error + json \<Rightarrow> string \<Rightarrow> bool" where
  "read_terminal answer turn =
     (case answer of
        Inl _ \<Rightarrow> False
      | Inr v \<Rightarrow>
          is_some_and
            (Option.bind (Option.bind (Option.bind (Option.bind (jget ''thread'' v) (jget ''turns'')) as_array)
               (find (\<lambda>t. jindex t ''id'' = JString turn))) (get_str ''status''))
            (\<lambda>s. s \<in> {''completed'', ''failed'', ''interrupted''}))"

text \<open>\<open>unreachable!()\<close> is \<open>None\<close>.\<close>

definition reconcile_interrupt :: "control_env \<Rightarrow> action_target \<Rightarrow> u64 \<Rightarrow> bool \<Rightarrow> controller \<Rightarrow>
    (action_outcome \<times> controller) option" where
  "reconcile_interrupt env target correlation accepted c =
     (case target of
        TargetThread _ \<Rightarrow> None
      | TargetTurn thread turn \<Rightarrow>
          (let (read, c1) = ct_rpc env (Request ''thread/read''
                 (JObject [(''threadId'', JString thread), (''includeTurns'', JBool True)])) c;
               terminal = read_terminal read turn;
               evidence = unknown_evidence correlation accepted
                 (if terminal then ''target turn is terminal on reconciliation; correlation is not causation''
                  else ''no unique terminal evidence for target turn'')
           in Some (if terminal then Confirmed target evidence else OutcomeUnknown target evidence, c1)))"

definition interrupt :: "control_env \<Rightarrow> string \<Rightarrow> string \<Rightarrow> controller \<Rightarrow> (action_outcome \<times> controller) option" where
  "interrupt env thread turn c =
     (let target = TargetTurn thread turn;
          (_, c1) = lock_for (target_thread_id target) c;
          (correlation, c2) = fetch_correlation c1;
          (completion, c3) = ct_register (is_completion thread turn) c2;
          params = JObject [(''threadId'', JString thread), (''turnId'', JString turn)];
          (sent, c4) = send_not_written_safe env ''turn/interrupt'' params c3
      in case sent of
           Inr _ \<Rightarrow>
             (let (event, c5) = await_window env completion c4
              in case event of
                   Some e \<Rightarrow> Some (Confirmed target (observed correlation True e
                     ''matching completion observed after interrupt; correlation is not proof of causation''), c5)
                 | None \<Rightarrow> reconcile_interrupt env target correlation True c5)
         | Inl (Rejected _ err) \<Rightarrow> Some (ActionRejected target ''daemon rejected interrupt'' (Some err), c4)
         | Inl (WrittenOutcomeUnknown _ _ _) \<Rightarrow> reconcile_interrupt env target correlation False c4
         | Inl (TimedOut _) \<Rightarrow> reconcile_interrupt env target correlation False c4
         | Inl err \<Rightarrow> Some (ActionRejected target
             (request_error_text (ce_show_json env) (ce_debug_id env) err) None, c4))"

section \<open>Steer\<close>

definition rpc_response_action :: "control_env \<Rightarrow> string \<Rightarrow> action_target \<Rightarrow> json list \<Rightarrow> bool \<Rightarrow> controller \<Rightarrow>
    (action_outcome \<times> controller) option" where
  "rpc_response_action env meth target input expected_turn c =
     (let (_, c1) = lock_for (target_thread_id target) c;
          (correlation, c2) = fetch_correlation c1
      in case target of
           TargetThread _ \<Rightarrow> None
         | TargetTurn thread turn \<Rightarrow>
             if \<not> expected_turn then None
             else
               (let params = JObject [(''threadId'', JString thread), (''expectedTurnId'', JString turn),
                      (''input'', JArray input)];
                    (sent, c3) = send_not_written_safe env meth params c2
                in case sent of
                     Inr _ \<Rightarrow> Some (Confirmed target (unknown_evidence correlation True
                       ''daemon accepted the explicitly targeted request''), c3)
                   | Inl (Rejected _ err) \<Rightarrow> Some (ActionRejected target (''daemon rejected '' @ meth) (Some err), c3)
                   | Inl (WrittenOutcomeUnknown _ _ _) \<Rightarrow> Some (OutcomeUnknown target (unknown_evidence correlation False
                       ''ambiguous steer cannot be uniquely confirmed and was not resent''), c3)
                   | Inl (TimedOut _) \<Rightarrow> Some (OutcomeUnknown target (unknown_evidence correlation False
                       ''ambiguous steer cannot be uniquely confirmed and was not resent''), c3)
                   | Inl err \<Rightarrow> Some (ActionRejected target
                       (request_error_text (ce_show_json env) (ce_debug_id env) err) None, c3)))"

definition steer :: "control_env \<Rightarrow> string \<Rightarrow> string \<Rightarrow> json list \<Rightarrow> controller \<Rightarrow> (action_outcome \<times> controller) option" where
  "steer env thread expected_turn input c =
     rpc_response_action env ''turn/steer'' (TargetTurn thread expected_turn) input True c"

section \<open>Start\<close>

definition is_start_of :: "string \<Rightarrow> sequenced_event \<Rightarrow> bool" where
  "is_start_of thread e \<longleftrightarrow> ev_method e = Some ''turn/started'' \<and> ev_thread_id e = Some thread"

definition response_turn_id :: "json \<Rightarrow> string option" where
  "response_turn_id v =
     Option.bind (or_else (Option.bind (jget ''turn'' v) (jget ''id'')) (jget ''turnId'' v)) as_str"

definition start :: "control_env \<Rightarrow> string \<Rightarrow> json list \<Rightarrow> controller \<Rightarrow> action_outcome \<times> controller" where
  "start env thread input c =
     (let target = TargetThread thread;
          (_, c1) = lock_for (target_thread_id target) c;
          (correlation, c2) = fetch_correlation c1;
          (started, c3) = ct_register (is_start_of (target_thread_id target)) c2;
          params = JObject [(''threadId'', JString (target_thread_id target)), (''input'', JArray input)];
          (sent, c4) = send_not_written_safe env ''turn/start'' params c3
      in case sent of
           Inr response \<Rightarrow>
             (let response_turn = response_turn_id response;
                  (event, c5) = await_window env started c4
              in case (response_turn, event) of
                   (Some expected, Some e) \<Rightarrow>
                     if ev_turn_id e = Some expected
                     then (Confirmed target (observed correlation True e
                             ''turn/started id matches the id returned by turn/start''), c5)
                     else (Confirmed target (unknown_evidence correlation True
                             ''daemon returned a unique created turn id; concurrent GUI starts are not attributed''), c5)
                 | (Some _, None) \<Rightarrow> (Confirmed target (unknown_evidence correlation True
                             ''daemon returned a unique created turn id; concurrent GUI starts are not attributed''), c5)
                 | (None, _) \<Rightarrow> (OutcomeUnknown target (unknown_evidence correlation True
                             ''response lacked a unique turn id''), c5))
         | Inl (Rejected _ err) \<Rightarrow> (ActionRejected target ''daemon rejected turn/start'' (Some err), c4)
         | Inl (WrittenOutcomeUnknown _ _ _) \<Rightarrow> (OutcomeUnknown target (unknown_evidence correlation False
             ''write may have succeeded; reconciliation cannot distinguish a concurrent GUI start''), c4)
         | Inl (TimedOut _) \<Rightarrow> (OutcomeUnknown target (unknown_evidence correlation False
             ''write may have succeeded; reconciliation cannot distinguish a concurrent GUI start''), c4)
         | Inl err \<Rightarrow> (ActionRejected target
             (request_error_text (ce_show_json env) (ce_debug_id env) err) None, c4))"

section \<open>Actions\<close>

datatype action =
    Interrupt string string
  | Steer string string "json list"
  | Start string "json list"

fun perform :: "control_env \<Rightarrow> action \<Rightarrow> controller \<Rightarrow> (action_outcome \<times> controller) option" where
  "perform env (Interrupt thread turn) c = interrupt env thread turn c"
| "perform env (Steer thread turn input) c = steer env thread turn input c"
| "perform env (Start thread input) c = Some (start env thread input c)"

text \<open>The one call an action sends, its target, and the read an interrupt may make afterwards.\<close>

fun action_call :: "action \<Rightarrow> rpc_call" where
  "action_call (Interrupt thread turn) =
     RequestAction ''turn/interrupt'' (JObject [(''threadId'', JString thread), (''turnId'', JString turn)])"
| "action_call (Steer thread turn input) =
     RequestAction ''turn/steer'' (JObject [(''threadId'', JString thread), (''expectedTurnId'', JString turn),
       (''input'', JArray input)])"
| "action_call (Start thread input) =
     RequestAction ''turn/start'' (JObject [(''threadId'', JString thread), (''input'', JArray input)])"

fun action_target_of :: "action \<Rightarrow> action_target" where
  "action_target_of (Interrupt thread turn) = TargetTurn thread turn"
| "action_target_of (Steer thread turn input) = TargetTurn thread turn"
| "action_target_of (Start thread input) = TargetThread thread"

definition read_call :: "string \<Rightarrow> rpc_call" where
  "read_call thread = Request ''thread/read''
     (JObject [(''threadId'', JString thread), (''includeTurns'', JBool True)])"

definition answer_to :: "control_env \<Rightarrow> rpc_call list \<Rightarrow> request_error + json" where
  "answer_to env calls = snd (ce_client env calls)"

fun not_written :: "request_error + json \<Rightarrow> bool" where
  "not_written (Inl (NotWritten _)) = True"
| "not_written _ = False"

fun ambiguous :: "request_error + json \<Rightarrow> bool" where
  "ambiguous (Inl (WrittenOutcomeUnknown _ _ _)) = True"
| "ambiguous (Inl (TimedOut _)) = True"
| "ambiguous _ = False"

section \<open>Sending, functionally\<close>

lemma ct_rpc_simps:
  "fst (ct_rpc env call c) = answer_to env (ct_calls c @ [call])"
  "ct_calls (snd (ct_rpc env call c)) = ct_calls c @ [call]"
  "ct_locks (snd (ct_rpc env call c)) = ct_locks c"
  "ct_next_lock (snd (ct_rpc env call c)) = ct_next_lock c"
  "ct_next_correlation (snd (ct_rpc env call c)) = ct_next_correlation c"
  "ct_activity (snd (ct_rpc env call c)) = ct_activity c @ fst (ce_client env (ct_calls c @ [call]))"
  "ct_reducer (snd (ct_rpc env call c)) =
     fold reducer_exec (fst (ce_client env (ct_calls c @ [call]))) (ct_reducer c)"
  by (simp_all add: ct_rpc_def answer_to_def Let_def split_beta rpc_simps)

text \<open>
  What an action may do to the controller besides the calls: other tasks act on the reducer,
  and nothing else of the controller changes.
\<close>

definition moved :: "controller \<Rightarrow> controller \<Rightarrow> bool" where
  "moved c c' \<longleftrightarrow> ct_config c' = ct_config c \<and> ct_locks c' = ct_locks c \<and>
     ct_next_lock c' = ct_next_lock c \<and> ct_next_correlation c' = ct_next_correlation c \<and>
     (\<exists>ops. ct_activity c' = ct_activity c @ ops \<and> ct_reducer c' = fold reducer_exec ops (ct_reducer c))"

lemma moved_trans: "moved a b \<Longrightarrow> moved b c \<Longrightarrow> moved a c"
  by (auto simp: moved_def)

lemma moved_rpc: "moved c (snd (ct_rpc env call c))"
  by (simp add: moved_def ct_rpc_simps)

lemma moved_window: "moved c (snd (await_window env i c))"
  by (simp add: moved_def await_window_def Let_def)

lemma window_calls [simp]: "ct_calls (snd (await_window env i c)) = ct_calls c"
  by (simp add: await_window_def Let_def)

text \<open>
  The attempts: all but the last were answered that nothing was written, and there are at
  most one more of them than the retries left.
\<close>

definition sent_times :: "control_env \<Rightarrow> rpc_call \<Rightarrow> nat \<Rightarrow> controller \<Rightarrow> nat \<Rightarrow> (request_error + json) \<Rightarrow> controller \<Rightarrow> bool" where
  "sent_times env call budget c n result c' \<longleftrightarrow>
     n \<le> budget \<and> ct_calls c' = ct_calls c @ replicate (Suc n) call \<and>
     (\<forall>k < n. not_written (answer_to env (ct_calls c @ replicate (Suc k) call))) \<and>
     result = answer_to env (ct_calls c @ replicate (Suc n) call) \<and>
     (not_written result \<longrightarrow> n = budget) \<and> moved c c'"

lemma send_from_spec:
  "send_from env meth params retries c = (result, c') \<Longrightarrow>
     retries \<le> cc_not_written_retries (ct_config c) \<Longrightarrow>
     \<exists>n. sent_times env (RequestAction meth params) (cc_not_written_retries (ct_config c) - retries) c n result c'"
proof (induction env meth params retries c arbitrary: result c' rule: send_from.induct)
  case (1 env meth params retries c)
  let ?call = "RequestAction meth params" and ?limit = "cc_not_written_retries (ct_config c)"
  obtain a c1 where r: "ct_rpc env ?call c = (a, c1)" by fastforce
  then have a: "a = answer_to env (ct_calls c @ [?call])" and c1: "ct_calls c1 = ct_calls c @ [?call]"
    "moved c c1" "ct_config c1 = ct_config c"
    using ct_rpc_simps [of env ?call c] moved_rpc [of c env ?call] by (auto simp: moved_def)
  show ?case
  proof (cases "not_written a \<and> retries < ?limit")
    case True
    then obtain m where m: "a = Inl (NotWritten m)" by (cases a rule: not_written.cases) auto
    have "send_from env meth params (Suc retries) c1 = (result, c')"
      using "1.prems"(1) True m r c1(3) by (subst (asm) send_from.simps) simp
    then obtain n where n: "sent_times env ?call (?limit - Suc retries) c1 n result c'"
      using "1.IH" [OF r [symmetric] refl m] True c1(3) by auto
    have calls: "ct_calls c1 @ replicate k ?call = ct_calls c @ replicate (Suc k) ?call" for k
      by (simp add: c1(1))
    have earlier: "not_written (answer_to env (ct_calls c @ replicate (Suc k) ?call))" if "k < Suc n" for k
    proof (cases k)
      case 0
      with True a show ?thesis by simp
    next
      case (Suc j)
      have "not_written (answer_to env (ct_calls c1 @ replicate (Suc j) ?call))"
        using n that Suc unfolding sent_times_def by blast
      then show ?thesis by (simp only: calls Suc)
    qed
    have n': "n \<le> ?limit - Suc retries" "ct_calls c' = ct_calls c @ replicate (Suc (Suc n)) ?call"
      "result = answer_to env (ct_calls c @ replicate (Suc (Suc n)) ?call)"
      "not_written result \<Longrightarrow> n = ?limit - Suc retries" "moved c1 c'"
      using n unfolding sent_times_def calls by blast+
    moreover have "Suc n \<le> ?limit - retries" "not_written result \<Longrightarrow> Suc n = ?limit - retries"
      using n'(1,4) True by linarith+
    ultimately have "sent_times env ?call (?limit - retries) c (Suc n) result c'"
      using moved_trans [OF c1(2)] earlier unfolding sent_times_def by blast
    then show ?thesis ..
  next
    case False
    then have "result = a \<and> c' = c1"
      using "1.prems"(1) r c1(3)
      by (subst (asm) send_from.simps) (auto split: sum.splits request_error.splits if_splits)
    moreover have "not_written a \<Longrightarrow> ?limit - retries = 0" using False by simp
    ultimately have "sent_times env ?call (?limit - retries) c 0 result c'"
      using a c1 by (simp add: sent_times_def)
    then show ?thesis ..
  qed
qed

lemma send_spec:
  assumes "send_not_written_safe env meth params c = (result, c')"
  shows "\<exists>n. sent_times env (RequestAction meth params) (cc_not_written_retries (ct_config c)) c n result c'"
  using send_from_spec [OF assms [unfolded send_not_written_safe_def]] by simp

section \<open>Actions, functionally\<close>

lemma lock_for_frames [simp]:
  "ct_world (snd (lock_for thread c)) = ct_world c"
  "ct_config (snd (lock_for thread c)) = ct_config c"
  "ct_next_correlation (snd (lock_for thread c)) = ct_next_correlation c"
  by (simp_all add: lock_for_def split: option.splits)

text \<open>What every action does before it sends: take its lock and a correlation number.\<close>

definition entered :: "string \<Rightarrow> controller \<Rightarrow> controller" where
  "entered thread c = snd (fetch_correlation (snd (lock_for thread c)))"

lemma entered_frames [simp]:
  "ct_world (entered thread c) = ct_world c"
  "ct_config (entered thread c) = ct_config c"
  "ct_next_correlation (entered thread c) = ct_next_correlation c + 1"
  "fst (fetch_correlation (snd (lock_for thread c))) = ct_next_correlation c"
  by (simp_all add: entered_def fetch_correlation_def)

text \<open>Registering a waiter, and the run of the reducer until it is looked at.\<close>

lemma ct_register_frames:
  assumes "ct_register p c = (i, c1)"
  shows "ct_calls c1 = ct_calls c" "ct_activity c1 = ct_activity c" "ct_config c1 = ct_config c"
    "ct_locks c1 = ct_locks c" "ct_next_lock c1 = ct_next_lock c"
    "ct_next_correlation c1 = ct_next_correlation c"
    "register_waiter p (ct_reducer c) = (ct_reducer c1, i)"
  using assms by (auto simp: ct_register_def Let_def split_beta)

lemma waiter_after_activity:
  assumes "ct_register p c = (i, c1)" and "senders_ok (ct_reducer c)" and "moved c1 c2"
  shows "\<exists>ops. ct_activity c2 = ct_activity c @ ops \<and>
    rd_delivered (ct_reducer c2) i = find p (applied_events ops) \<and>
    (find p (applied_events ops) = None \<longrightarrow> pending_waiter (ct_reducer c2) i = Some p)"
proof -
  note reg = ct_register_frames [OF assms(1)]
  obtain ops where ops: "ct_activity c2 = ct_activity c1 @ ops"
    "ct_reducer c2 = fold reducer_exec ops (ct_reducer c1)"
    using assms(3) by (auto simp: moved_def)
  from rshare.shared_first_match [OF assms(2) reg(7), of ops] ops reg(2) show ?thesis
    by (intro exI [of _ ops]) auto
qed

text \<open>The three actions as a case distinction on what the send answered.\<close>

lemma interrupt_run:
  assumes "ct_register (is_completion thread turn) (entered thread c) = (i, c3)"
    and "send_not_written_safe env ''turn/interrupt''
      (JObject [(''threadId'', JString thread), (''turnId'', JString turn)]) c3 = (sent, c4)"
  shows "interrupt env thread turn c =
    (if ambiguous sent then reconcile_interrupt env (TargetTurn thread turn) (ct_next_correlation c) False c4
     else case sent of
       Inr _ \<Rightarrow>
         (case fst (await_window env i c4) of
            Some e \<Rightarrow> Some (Confirmed (TargetTurn thread turn) (observed (ct_next_correlation c) True e
              ''matching completion observed after interrupt; correlation is not proof of causation''),
              snd (await_window env i c4))
          | None \<Rightarrow> reconcile_interrupt env (TargetTurn thread turn) (ct_next_correlation c) True
              (snd (await_window env i c4)))
     | Inl (Rejected _ err) \<Rightarrow> Some (ActionRejected (TargetTurn thread turn) ''daemon rejected interrupt'' (Some err), c4)
     | Inl err \<Rightarrow> Some (ActionRejected (TargetTurn thread turn)
         (request_error_text (ce_show_json env) (ce_debug_id env) err) None, c4))"
  unfolding interrupt_def Let_def split_beta target_thread_id.simps entered_frames(4) entered_def [symmetric]
    assms fst_conv snd_conv
  by (auto split: sum.splits request_error.splits)

lemma reconcile_run:
  "reconcile_interrupt env (TargetTurn thread turn) correlation accepted c =
     Some (let terminal = read_terminal (answer_to env (ct_calls c @ [read_call thread])) turn;
               evidence = unknown_evidence correlation accepted
                 (if terminal then ''target turn is terminal on reconciliation; correlation is not causation''
                  else ''no unique terminal evidence for target turn'')
           in if terminal then Confirmed (TargetTurn thread turn) evidence
              else OutcomeUnknown (TargetTurn thread turn) evidence,
        snd (ct_rpc env (read_call thread) c))"
  by (simp add: reconcile_interrupt_def read_call_def Let_def split_beta ct_rpc_simps)

lemma steer_run:
  assumes "send_not_written_safe env ''turn/steer''
      (JObject [(''threadId'', JString thread), (''expectedTurnId'', JString turn), (''input'', JArray input)])
      (entered thread c) = (sent, c3)"
  shows "steer env thread turn input c = Some
    (if ambiguous sent then OutcomeUnknown (TargetTurn thread turn) (unknown_evidence (ct_next_correlation c) False
       ''ambiguous steer cannot be uniquely confirmed and was not resent'')
     else case sent of
       Inr _ \<Rightarrow> Confirmed (TargetTurn thread turn) (unknown_evidence (ct_next_correlation c) True
         ''daemon accepted the explicitly targeted request'')
     | Inl (Rejected _ err) \<Rightarrow> ActionRejected (TargetTurn thread turn) (''daemon rejected turn/steer'') (Some err)
     | Inl err \<Rightarrow> ActionRejected (TargetTurn thread turn)
         (request_error_text (ce_show_json env) (ce_debug_id env) err) None, c3)"
  unfolding steer_def rpc_response_action_def Let_def split_beta target_thread_id.simps entered_frames(4)
    entered_def [symmetric] action_target.case not_True_eq_False if_False assms fst_conv snd_conv
  by (auto split: sum.splits request_error.splits)

lemma start_run:
  assumes "ct_register (is_start_of thread) (entered thread c) = (i, c3)"
    and "send_not_written_safe env ''turn/start''
      (JObject [(''threadId'', JString thread), (''input'', JArray input)]) c3 = (sent, c4)"
  shows "start env thread input c =
    (if ambiguous sent then (OutcomeUnknown (TargetThread thread) (unknown_evidence (ct_next_correlation c) False
       ''write may have succeeded; reconciliation cannot distinguish a concurrent GUI start''), c4)
     else case sent of
       Inr response \<Rightarrow>
         (case response_turn_id response of
            None \<Rightarrow> OutcomeUnknown (TargetThread thread) (unknown_evidence (ct_next_correlation c) True
              ''response lacked a unique turn id'')
          | Some expected \<Rightarrow>
              (case fst (await_window env i c4) of
                 Some e \<Rightarrow>
                   if ev_turn_id e = Some expected
                   then Confirmed (TargetThread thread) (observed (ct_next_correlation c) True e
                     ''turn/started id matches the id returned by turn/start'')
                   else Confirmed (TargetThread thread) (unknown_evidence (ct_next_correlation c) True
                     ''daemon returned a unique created turn id; concurrent GUI starts are not attributed'')
               | None \<Rightarrow> Confirmed (TargetThread thread) (unknown_evidence (ct_next_correlation c) True
                     ''daemon returned a unique created turn id; concurrent GUI starts are not attributed'')),
          snd (await_window env i c4))
     | Inl (Rejected _ err) \<Rightarrow> (ActionRejected (TargetThread thread) ''daemon rejected turn/start'' (Some err), c4)
     | Inl err \<Rightarrow> (ActionRejected (TargetThread thread)
         (request_error_text (ce_show_json env) (ce_debug_id env) err) None, c4))"
  unfolding start_def Let_def split_beta target_thread_id.simps entered_frames(4) entered_def [symmetric]
    assms fst_conv snd_conv
  by (auto split: sum.splits request_error.splits option.splits)

text \<open>How the answer to the last attempt decides the outcome.\<close>

fun evidence_of :: "action_outcome \<Rightarrow> evidence option" where
  "evidence_of (Confirmed _ v) = Some v"
| "evidence_of (OutcomeUnknown _ v) = Some v"
| "evidence_of (ActionRejected _ _ _) = None"

fun is_interrupt :: "action \<Rightarrow> bool" where
  "is_interrupt (Interrupt _ _) = True"
| "is_interrupt _ = False"

fun rejection_reason :: "action \<Rightarrow> string" where
  "rejection_reason (Interrupt _ _) = ''daemon rejected interrupt''"
| "rejection_reason (Steer _ _ _) = ''daemon rejected turn/steer''"
| "rejection_reason (Start _ _) = ''daemon rejected turn/start''"

fun classified :: "action \<Rightarrow> (request_error + json) \<Rightarrow> action_outcome \<Rightarrow> bool" where
  "classified a (Inr _) out = is_some_and (evidence_of out) evd_rpc_accepted"
| "classified a (Inl (Rejected _ err)) out = (out = ActionRejected (action_target_of a) (rejection_reason a) (Some err))"
| "classified a (Inl (NotWritten s)) out =
     (out = ActionRejected (action_target_of a) (''request was not written: '' @ s) None)"
| "classified a (Inl RequestClosed) out = (out = ActionRejected (action_target_of a) ''transport is shut down'' None)"
| "classified a (Inl _) out =
     (is_some_and (evidence_of out) (\<lambda>v. \<not> evd_rpc_accepted v \<and> evd_observed_sequence v = None) \<and>
      (is_interrupt a \<or> is_some_and (evidence_of out) (\<lambda>v. out = OutcomeUnknown (action_target_of a) v)))"

text \<open>What the attempts look like from the state the action started in.\<close>

definition attempts :: "control_env \<Rightarrow> action \<Rightarrow> controller \<Rightarrow> nat \<Rightarrow> bool" where
  "attempts env a c n \<longleftrightarrow>
     n \<le> cc_not_written_retries (ct_config c) \<and>
     (\<forall>k < n. not_written (answer_to env (ct_calls c @ replicate (Suc k) (action_call a)))) \<and>
     (not_written (answer_to env (ct_calls c @ replicate (Suc n) (action_call a))) \<longrightarrow>
       n = cc_not_written_retries (ct_config c))"

abbreviation last_answer :: "control_env \<Rightarrow> action \<Rightarrow> controller \<Rightarrow> nat \<Rightarrow> request_error + json" where
  "last_answer env a c n \<equiv> answer_to env (ct_calls c @ replicate (Suc n) (action_call a))"

lemma classified_error:
  assumes "\<not> ambiguous (Inl err)" and "\<And>m e. err \<noteq> Rejected m e"
  shows "classified a (Inl err) (ActionRejected (action_target_of a) (request_error_text sj di err) None)"
  using assms by (cases err) auto

lemma classified_ambiguous:
  assumes "ambiguous sent" and "evidence_of out = Some v" and "\<not> evd_rpc_accepted v"
    and "evd_observed_sequence v = None" and "is_interrupt a \<or> out = OutcomeUnknown (action_target_of a) v"
  shows "classified a sent out"
  using assms by (cases sent rule: ambiguous.cases) auto

lemma reconcile_evidence:
  assumes "reconcile_interrupt env (TargetTurn thread turn) correlation accepted c = Some (out, c')"
  shows "ct_calls c' = ct_calls c @ [read_call thread]" "moved c c'"
    "\<exists>v. evidence_of out = Some v \<and> evd_rpc_accepted v = accepted \<and> evd_observed_sequence v = None \<and>
       evd_action_correlation v = correlation"
    "out = Confirmed t v \<longleftrightarrow> read_terminal (answer_to env (ct_calls c @ [read_call thread])) turn \<and>
       t = TargetTurn thread turn \<and> evidence_of out = Some v"
  using assms ct_rpc_simps(2) [of env "read_call thread" c] moved_rpc [of c env "read_call thread"]
  by (auto simp: reconcile_run Let_def unknown_evidence_def split: if_splits)

lemma moved_entered:
  assumes "sent_times env call budget c3 n sent c4" and "ct_calls c3 = ct_calls c"
    and "ct_config c3 = ct_config c" and "call = action_call a" and "budget = cc_not_written_retries (ct_config c)"
  shows "attempts env a c n" "sent = last_answer env a c n"
    "ct_calls c4 = ct_calls c @ replicate (Suc n) (action_call a)"
  using assms(1) [unfolded sent_times_def assms(2-5)] unfolding attempts_def by blast+

lemma interrupt_spec:
  assumes "interrupt env thread turn c = Some (out, c')"
  shows "\<exists>n. attempts env (Interrupt thread turn) c n \<and>
    ct_calls c' \<in> {ct_calls c @ replicate (Suc n) (action_call (Interrupt thread turn)),
      ct_calls c @ replicate (Suc n) (action_call (Interrupt thread turn)) @ [read_call thread]} \<and>
    classified (Interrupt thread turn) (last_answer env (Interrupt thread turn) c n) out \<and>
    is_none_or (evidence_of out) (\<lambda>v. evd_action_correlation v = ct_next_correlation c)"
proof -
  let ?a = "Interrupt thread turn"
  obtain i c3 where reg: "ct_register (is_completion thread turn) (entered thread c) = (i, c3)" by fastforce
  obtain sent c4 where send: "send_not_written_safe env ''turn/interrupt''
      (JObject [(''threadId'', JString thread), (''turnId'', JString turn)]) c3 = (sent, c4)" by fastforce
  obtain n where n: "sent_times env (action_call ?a) (cc_not_written_retries (ct_config c3)) c3 n sent c4"
    using send_spec [OF send] by auto
  have c3: "ct_calls c3 = ct_calls c" "ct_config c3 = ct_config c"
    using ct_register_frames [OF reg] by simp_all
  note att = moved_entered [OF n c3 refl arg_cong [OF c3(2)]]
  have finish: ?thesis if "classified ?a sent out"
      "ct_calls c' \<in> {ct_calls c4, ct_calls c4 @ [read_call thread]}"
      "is_none_or (evidence_of out) (\<lambda>v. evd_action_correlation v = ct_next_correlation c)"
    using that att(1) unfolding att(2,3) by (intro exI [of _ n]) (simp del: action_call.simps)
  note run = assms [unfolded interrupt_run [OF reg send]]
  show ?thesis
  proof (cases "ambiguous sent")
    case True
    with run have "reconcile_interrupt env (TargetTurn thread turn) (ct_next_correlation c) False c4 = Some (out, c')"
      by simp
    note rec = reconcile_evidence [OF this]
    from rec(3) obtain v where v: "evidence_of out = Some v" "\<not> evd_rpc_accepted v"
      "evd_observed_sequence v = None" "evd_action_correlation v = ct_next_correlation c" by auto
    show ?thesis
      by (rule finish [OF classified_ambiguous [OF True v(1-3)]]) (simp_all add: v rec(1))
  next
    case amb: False
    show ?thesis
    proof (cases sent)
      case (Inl err)
      with run amb have out: "out = (case err of Rejected _ e \<Rightarrow> ActionRejected (TargetTurn thread turn) ''daemon rejected interrupt'' (Some e)
          | _ \<Rightarrow> ActionRejected (TargetTurn thread turn) (request_error_text (ce_show_json env) (ce_debug_id env) err) None)"
        "c' = c4" by (auto split: request_error.splits)
      show ?thesis by (rule finish) (use out amb Inl in \<open>cases err; simp\<close>)+
    next
      case (Inr v)
      show ?thesis
      proof (cases "fst (await_window env i c4)")
        case None
        with run amb Inr have "reconcile_interrupt env (TargetTurn thread turn) (ct_next_correlation c) True
            (snd (await_window env i c4)) = Some (out, c')" by simp
        note rec = reconcile_evidence [OF this]
        from rec(3) obtain v where "evidence_of out = Some v" "evd_rpc_accepted v"
          "evd_action_correlation v = ct_next_correlation c" by auto
        then show ?thesis by (intro finish) (simp_all add: rec(1) Inr)
      next
        case (Some e)
        with run amb Inr have "evidence_of out = Some (observed (ct_next_correlation c) True e
            ''matching completion observed after interrupt; correlation is not proof of causation'')"
          "c' = snd (await_window env i c4)" by auto
        then show ?thesis by (intro finish) (simp_all add: Inr observed_def)
      qed
    qed
  qed
qed

lemma steer_spec:
  assumes "steer env thread turn input c = Some (out, c')"
  shows "\<exists>n. attempts env (Steer thread turn input) c n \<and>
    ct_calls c' = ct_calls c @ replicate (Suc n) (action_call (Steer thread turn input)) \<and>
    classified (Steer thread turn input) (last_answer env (Steer thread turn input) c n) out \<and>
    is_none_or (evidence_of out) (\<lambda>v. evd_action_correlation v = ct_next_correlation c)"
proof -
  let ?a = "Steer thread turn input"
  obtain sent c3 where send: "send_not_written_safe env ''turn/steer''
      (JObject [(''threadId'', JString thread), (''expectedTurnId'', JString turn), (''input'', JArray input)])
      (entered thread c) = (sent, c3)" by fastforce
  obtain n where n: "sent_times env (action_call ?a) (cc_not_written_retries (ct_config c)) (entered thread c) n sent c3"
    using send_spec [OF send] by auto
  have entered: "ct_calls (entered thread c) = ct_calls c" "ct_config (entered thread c) = ct_config c"
    by simp_all
  note att = moved_entered [OF n entered refl refl]
  note run = assms [unfolded steer_run [OF send]]
  have "classified ?a sent out \<and> c' = c3 \<and>
      is_none_or (evidence_of out) (\<lambda>v. evd_action_correlation v = ct_next_correlation c)"
  proof (cases "ambiguous sent")
    case True
    with run show ?thesis
      by (auto simp: unknown_evidence_def intro!: classified_ambiguous [OF True])
  next
    case False
    show ?thesis
    proof (cases sent)
      case (Inl err)
      with run False show ?thesis by (cases err) auto
    qed (use run False in \<open>auto simp: unknown_evidence_def\<close>)
  qed
  then show ?thesis
    using att(1) unfolding att(2) by (intro exI [of _ n]) (simp add: att(3) del: action_call.simps)
qed

lemma start_spec:
  assumes "start env thread input c = (out, c')"
  shows "\<exists>n. attempts env (Start thread input) c n \<and>
    ct_calls c' = ct_calls c @ replicate (Suc n) (action_call (Start thread input)) \<and>
    classified (Start thread input) (last_answer env (Start thread input) c n) out \<and>
    is_none_or (evidence_of out) (\<lambda>v. evd_action_correlation v = ct_next_correlation c)"
proof -
  let ?a = "Start thread input"
  obtain i c3 where reg: "ct_register (is_start_of thread) (entered thread c) = (i, c3)" by fastforce
  obtain sent c4 where send: "send_not_written_safe env ''turn/start''
      (JObject [(''threadId'', JString thread), (''input'', JArray input)]) c3 = (sent, c4)" by fastforce
  obtain n where n: "sent_times env (action_call ?a) (cc_not_written_retries (ct_config c3)) c3 n sent c4"
    using send_spec [OF send] by auto
  have c3: "ct_calls c3 = ct_calls c" "ct_config c3 = ct_config c"
    using ct_register_frames [OF reg] by simp_all
  note att = moved_entered [OF n c3 refl arg_cong [OF c3(2)]]
  note run = assms [unfolded start_run [OF reg send]]
  have "classified ?a sent out \<and> ct_calls c' = ct_calls c4 \<and>
      is_none_or (evidence_of out) (\<lambda>v. evd_action_correlation v = ct_next_correlation c)"
  proof (cases "ambiguous sent")
    case True
    with run show ?thesis
      by (auto simp: unknown_evidence_def intro!: classified_ambiguous [OF True])
  next
    case False
    show ?thesis
    proof (cases sent)
      case (Inl err)
      with run False show ?thesis by (cases err) auto
    next
      case (Inr v)
      with run False show ?thesis
        by (auto simp: unknown_evidence_def observed_def split: option.splits if_splits)
    qed
  qed
  then show ?thesis
    using att(1) unfolding att(2) by (intro exI [of _ n]) (simp add: att(3) del: action_call.simps)
qed

section \<open>Evidence, functionally\<close>

text \<open>The reducer and the activity when the window of an action has passed.\<close>

lemma window_moved:
  assumes "send_not_written_safe env meth params c3 = (sent, c4)"
  shows "moved c3 (snd (await_window env i c4))" "moved c3 c4"
proof -
  show m: "moved c3 c4" using send_spec [OF assms] by (auto simp: sent_times_def)
  show "moved c3 (snd (await_window env i c4))" by (rule moved_trans [OF m moved_window])
qed

lemma await_window_delivered: "fst (await_window env i c) = rd_delivered (ct_reducer (snd (await_window env i c))) i"
  by (simp add: await_window_def Let_def)

lemma interrupt_confirmed:
  assumes "interrupt env thread turn c = Some (Confirmed t v, c')" and "senders_ok (ct_reducer c)"
  shows "t = TargetTurn thread turn \<and> (\<exists>ops. ct_activity c' = ct_activity c @ ops \<and>
    (case evd_observed_sequence v of
       Some s \<Rightarrow> \<exists>e. find (is_completion thread turn) (applied_events ops) = Some e \<and> ev_sequence e = s
     | None \<Rightarrow> \<exists>calls. ct_calls c' = calls @ [read_call thread] \<and>
         read_terminal (answer_to env (calls @ [read_call thread])) turn))"
proof -
  obtain i c3 where reg: "ct_register (is_completion thread turn) (entered thread c) = (i, c3)" by fastforce
  obtain sent c4 where send: "send_not_written_safe env ''turn/interrupt''
      (JObject [(''threadId'', JString thread), (''turnId'', JString turn)]) c3 = (sent, c4)" by fastforce
  note run = assms(1) [unfolded interrupt_run [OF reg send]]
  have wf: "senders_ok (ct_reducer (entered thread c))" using assms(2) by simp
  have by_read: ?thesis
    if rec: "reconcile_interrupt env (TargetTurn thread turn) k b c5 = Some (Confirmed t v, c')" and m: "moved c3 c5"
    for k b c5
  proof -
    obtain ops where "ct_activity c' = ct_activity c @ ops"
      using waiter_after_activity [OF reg wf moved_trans [OF m reconcile_evidence(2) [OF rec]]] by auto
    with reconcile_evidence(1,3) [OF rec] reconcile_evidence(4) [OF rec, of t v] show ?thesis
      by (intro conjI exI [of _ ops]) auto
  qed
  show ?thesis
  proof (cases "ambiguous sent")
    case True
    with run have "reconcile_interrupt env (TargetTurn thread turn) (ct_next_correlation c) False c4 =
        Some (Confirmed t v, c')" by simp
    from by_read [OF this window_moved(2) [OF send]] show ?thesis .
  next
    case False
    show ?thesis
    proof (cases sent)
      case (Inl err)
      with run False show ?thesis by (cases err) auto
    next
      case (Inr response)
      show ?thesis
      proof (cases "fst (await_window env i c4)")
        case None
        with run False Inr have "reconcile_interrupt env (TargetTurn thread turn) (ct_next_correlation c) True
            (snd (await_window env i c4)) = Some (Confirmed t v, c')" by simp
        from by_read [OF this window_moved(1) [OF send]] show ?thesis .
      next
        case (Some e)
        with run False Inr have out: "t = TargetTurn thread turn" "v = observed (ct_next_correlation c) True e
            ''matching completion observed after interrupt; correlation is not proof of causation''"
          "c' = snd (await_window env i c4)" by auto
        obtain ops where "ct_activity c' = ct_activity c @ ops"
          "rd_delivered (ct_reducer c') i = find (is_completion thread turn) (applied_events ops)"
          using waiter_after_activity [OF reg wf window_moved(1) [OF send]] out(3) by auto
        moreover from this(2) have "find (is_completion thread turn) (applied_events ops) = Some e"
          using Some out(3) await_window_delivered [of env i c4] by simp
        ultimately show ?thesis
          by (intro conjI exI [of _ ops]) (simp_all add: observed_def out(1,2))
      qed
    qed
  qed
qed

lemma start_confirmed:
  assumes "start env thread input c = (Confirmed t v, c')" and "senders_ok (ct_reducer c)"
  shows "t = TargetThread thread \<and> (\<exists>ops n response id. ct_activity c' = ct_activity c @ ops \<and>
    attempts env (Start thread input) c n \<and> last_answer env (Start thread input) c n = Inr response \<and>
    response_turn_id response = Some id \<and>
    (case evd_observed_sequence v of
       Some s \<Rightarrow> \<exists>e. find (is_start_of thread) (applied_events ops) = Some e \<and> ev_sequence e = s \<and> ev_turn_id e = Some id
     | None \<Rightarrow> is_none_or (find (is_start_of thread) (applied_events ops)) (\<lambda>e. ev_turn_id e \<noteq> Some id)))"
proof -
  let ?a = "Start thread input"
  obtain i c3 where reg: "ct_register (is_start_of thread) (entered thread c) = (i, c3)" by fastforce
  obtain sent c4 where send: "send_not_written_safe env ''turn/start''
      (JObject [(''threadId'', JString thread), (''input'', JArray input)]) c3 = (sent, c4)" by fastforce
  obtain n where n: "sent_times env (action_call ?a) (cc_not_written_retries (ct_config c3)) c3 n sent c4"
    using send_spec [OF send] by auto
  have c3: "ct_calls c3 = ct_calls c" "ct_config c3 = ct_config c"
    using ct_register_frames [OF reg] by simp_all
  note att = moved_entered [OF n c3 refl arg_cong [OF c3(2)]]
  note run = assms(1) [unfolded start_run [OF reg send]]
  have wf: "senders_ok (ct_reducer (entered thread c))" using assms(2) by simp
  obtain response where Inr: "sent = Inr response" and amb: "\<not> ambiguous sent"
  proof (cases sent)
    case (Inl err)
    with run show ?thesis by (cases err) auto
  qed (use that in auto)
  obtain id where id: "response_turn_id response = Some id"
    using run Inr amb by (cases "response_turn_id response") auto
  let ?c5 = "snd (await_window env i c4)"
  obtain ops where ops: "ct_activity ?c5 = ct_activity c @ ops"
    "rd_delivered (ct_reducer ?c5) i = find (is_start_of thread) (applied_events ops)"
    using waiter_after_activity [OF reg wf window_moved(1) [OF send]] by auto
  have out: "t = TargetThread thread" "c' = ?c5"
    "case evd_observed_sequence v of
       Some s \<Rightarrow> \<exists>e. find (is_start_of thread) (applied_events ops) = Some e \<and> ev_sequence e = s \<and> ev_turn_id e = Some id
     | None \<Rightarrow> is_none_or (find (is_start_of thread) (applied_events ops)) (\<lambda>e. ev_turn_id e \<noteq> Some id)"
    using run Inr amb id ops(2) await_window_delivered [of env i c4]
    by (auto simp: observed_def unknown_evidence_def split: option.splits if_splits)
  have answer: "last_answer env ?a c n = Inr response" using att(2) Inr by simp
  have activity: "ct_activity c' = ct_activity c @ ops" using ops(1) out(2) by simp
  show ?thesis
    by (intro conjI out(1) exI [of _ ops] exI [of _ n] exI [of _ response] exI [of _ id])
      (rule activity att(1) answer id out(3))+
qed

section \<open>Runs of actions\<close>

lemma interrupt_moved:
  assumes "interrupt env thread turn c = Some (out, c')"
    and "ct_register (is_completion thread turn) (entered thread c) = (i, c3)"
  shows "moved c3 c'"
proof -
  obtain sent c4 where send: "send_not_written_safe env ''turn/interrupt''
      (JObject [(''threadId'', JString thread), (''turnId'', JString turn)]) c3 = (sent, c4)" by fastforce
  note m = window_moved [OF send]
  show ?thesis
    using assms(1) m moved_trans [OF m(2) reconcile_evidence(2)] moved_trans [OF m(1) reconcile_evidence(2)]
    unfolding interrupt_run [OF assms(2) send]
    by (auto split: if_splits sum.splits option.splits request_error.splits)
qed

lemma start_moved:
  assumes "start env thread input c = (out, c')"
    and "ct_register (is_start_of thread) (entered thread c) = (i, c3)"
  shows "moved c3 c'"
proof -
  obtain sent c4 where send: "send_not_written_safe env ''turn/start''
      (JObject [(''threadId'', JString thread), (''input'', JArray input)]) c3 = (sent, c4)" by fastforce
  note m = window_moved [OF send]
  show ?thesis
    using assms(1) m unfolding start_run [OF assms(2) send]
    by (auto split: if_splits sum.splits request_error.splits)
qed

lemma steer_moved:
  assumes "steer env thread turn input c = Some (out, c')"
  shows "moved (entered thread c) c'"
proof -
  obtain sent c3 where send: "send_not_written_safe env ''turn/steer''
      (JObject [(''threadId'', JString thread), (''expectedTurnId'', JString turn), (''input'', JArray input)])
      (entered thread c) = (sent, c3)" by fastforce
  show ?thesis
    using assms window_moved(2) [OF send] unfolding steer_run [OF send] by simp
qed

fun action_thread :: "action \<Rightarrow> string" where
  "action_thread (Interrupt thread turn) = thread"
| "action_thread (Steer thread turn input) = thread"
| "action_thread (Start thread input) = thread"

text \<open>What an action leaves of the controller's own state.\<close>

lemma perform_frames:
  assumes "perform env a c = Some (out, c')"
  shows "ct_next_correlation c' = ct_next_correlation c + 1"
    and "ct_locks c' = ct_locks (snd (lock_for (action_thread a) c))"
    and "ct_next_lock c' = ct_next_lock (snd (lock_for (action_thread a) c))"
proof -
  have entered: "ct_locks (entered k c) = ct_locks (snd (lock_for k c))"
    "ct_next_lock (entered k c) = ct_next_lock (snd (lock_for k c))" for k
    by (simp_all add: entered_def fetch_correlation_def)
  obtain c3 where c3: "moved c3 c'" "ct_next_correlation c3 = ct_next_correlation (entered (action_thread a) c)"
    "ct_locks c3 = ct_locks (entered (action_thread a) c)"
    "ct_next_lock c3 = ct_next_lock (entered (action_thread a) c)"
  proof (cases a)
    case (Interrupt thread turn)
    obtain i c3 where reg: "ct_register (is_completion thread turn) (entered thread c) = (i, c3)" by fastforce
    from that [of c3] interrupt_moved [OF _ reg] ct_register_frames [OF reg] assms Interrupt show ?thesis
      by simp
  next
    case (Start thread input)
    obtain i c3 where reg: "ct_register (is_start_of thread) (entered thread c) = (i, c3)" by fastforce
    from that [of c3] start_moved [OF _ reg] ct_register_frames [OF reg] assms Start show ?thesis
      by simp
  next
    case (Steer thread turn input)
    from that [of "entered thread c"] steer_moved assms Steer show ?thesis by simp
  qed
  show "ct_next_correlation c' = ct_next_correlation c + 1"
    "ct_locks c' = ct_locks (snd (lock_for (action_thread a) c))"
    "ct_next_lock c' = ct_next_lock (snd (lock_for (action_thread a) c))"
    using c3 by (auto simp: moved_def entered)
qed

lemma perform_total: "perform env a c \<noteq> None"
proof (cases a)
  case (Interrupt thread turn)
  obtain i c3 where reg: "ct_register (is_completion thread turn) (entered thread c) = (i, c3)" by fastforce
  obtain sent c4 where send: "send_not_written_safe env ''turn/interrupt''
      (JObject [(''threadId'', JString thread), (''turnId'', JString turn)]) c3 = (sent, c4)" by fastforce
  show ?thesis
    unfolding Interrupt perform.simps interrupt_run [OF reg send]
    by (auto simp: reconcile_run split: sum.splits option.splits request_error.splits)
next
  case (Steer thread turn input)
  obtain sent c3 where send: "send_not_written_safe env ''turn/steer''
      (JObject [(''threadId'', JString thread), (''expectedTurnId'', JString turn), (''input'', JArray input)])
      (entered thread c) = (sent, c3)" by fastforce
  show ?thesis unfolding Steer perform.simps steer_run [OF send] by simp
qed simp

lemma perform_spec:
  assumes "perform env a c = Some (out, c')"
  shows "\<exists>n. attempts env a c n \<and>
    ct_calls c' \<in> {ct_calls c @ replicate (Suc n) (action_call a),
      ct_calls c @ replicate (Suc n) (action_call a) @ (if is_interrupt a then [read_call (action_thread a)] else [])} \<and>
    classified a (last_answer env a c n) out \<and>
    is_none_or (evidence_of out) (\<lambda>v. evd_action_correlation v = ct_next_correlation c)"
proof (cases a)
  case (Interrupt thread turn)
  then show ?thesis using interrupt_spec [of env thread turn c out c'] assms
    by (simp del: action_call.simps classified.simps)
next
  case (Steer thread turn input)
  then show ?thesis using steer_spec [of env thread turn input c out c'] assms
    by (simp del: action_call.simps classified.simps)
next
  case (Start thread input)
  then show ?thesis using start_spec [of env thread input c out c'] assms
    by (simp del: action_call.simps classified.simps)
qed

fun perform_all :: "control_env \<Rightarrow> action list \<Rightarrow> controller \<Rightarrow> (action_outcome list \<times> controller) option" where
  "perform_all env [] c = Some ([], c)"
| "perform_all env (a # as) c =
     Option.bind (perform env a c) (\<lambda>(out, c1). map_option (\<lambda>(outs, c2). (out # outs, c2)) (perform_all env as c1))"

lemma perform_all_total: "\<exists>outs c'. perform_all env as c = Some (outs, c')"
proof (induction as arbitrary: c)
  case (Cons a as)
  obtain out c1 where run: "perform env a c = Some (out, c1)" using perform_total [of env a c] by auto
  with Cons.IH [of c1] show ?case by auto
qed simp

definition correlations :: "action_outcome list \<Rightarrow> u64 list" where
  "correlations outs = map evd_action_correlation (List.map_filter evidence_of outs)"

lemma perform_all_correlations:
  "perform_all env as c = Some (outs, c') \<Longrightarrow>
     subseq (correlations outs) (map (\<lambda>k. ct_next_correlation c + of_nat k) [0..<length as])"
proof (induction as arbitrary: c outs c')
  case Nil
  then show ?case by (simp add: correlations_def)
next
  case (Cons a as)
  obtain out c1 where out: "perform env a c = Some (out, c1)" using perform_total [of env a c] by auto
  with Cons.prems obtain outs' where outs: "perform_all env as c1 = Some (outs', c')" "outs = out # outs'"
    by auto
  have "map (\<lambda>k. ct_next_correlation c + of_nat k) [0..<length (a # as)] =
      ct_next_correlation c # map (\<lambda>k. ct_next_correlation c1 + of_nat k) [0..<length as]"
    by (simp add: perform_frames(1) [OF out] upt_rec [of 0 "Suc _"] map_Suc_upt [symmetric]
        add.assoc del: upt_Suc)
  moreover have "is_none_or (evidence_of out) (\<lambda>v. evd_action_correlation v = ct_next_correlation c)"
    using perform_spec [OF out] by blast
  ultimately show ?case
    using Cons.IH [OF outs(1)] by (cases "evidence_of out") (auto simp: outs(2) correlations_def)
qed

lemma of_nat_u64_inj: "i < 2 ^ 64 \<Longrightarrow> j < 2 ^ 64 \<Longrightarrow> (of_nat i :: u64) = of_nat j \<longleftrightarrow> i = j"
  by (simp add: word_of_nat_eq_iff take_bit_nat_eq_self)

section \<open>Locks\<close>

definition locks_ok :: "controller \<Rightarrow> bool" where
  "locks_ok c \<longleftrightarrow> (\<forall>t l. ct_locks c t = Some l \<longrightarrow> l < ct_next_lock c) \<and>
     (\<forall>t u l. ct_locks c t = Some l \<longrightarrow> ct_locks c u = Some l \<longrightarrow> t = u)"

lemma lock_for_ok:
  assumes "locks_ok c" and "lock_for thread c = (l, c')"
  shows "locks_ok c'" "ct_locks c' thread = Some l" "ct_locks c \<subseteq>\<^sub>m ct_locks c'"
proof -
  show "locks_ok c'"
  proof (cases "ct_locks c thread")
    case None
    with assms have c': "c' = c\<lparr>ct_locks := (ct_locks c)(thread \<mapsto> ct_next_lock c), ct_next_lock := Suc (ct_next_lock c)\<rparr>"
      by (auto simp: lock_for_def)
    have below: "ct_locks c t = Some k \<Longrightarrow> k < ct_next_lock c" for t k using assms(1) by (simp add: locks_ok_def)
    with assms(1) show ?thesis unfolding locks_ok_def c' by (auto dest: below)
  next
    case (Some k)
    with assms show ?thesis by (simp add: lock_for_def)
  qed
  show "ct_locks c' thread = Some l" "ct_locks c \<subseteq>\<^sub>m ct_locks c'"
    using assms(2) by (auto simp: lock_for_def map_le_def split: option.splits)
qed

lemma perform_locks_ok: "perform env a c = Some (out, c') \<Longrightarrow> locks_ok c \<Longrightarrow> locks_ok c'"
  using perform_frames(2,3) [of env a c out c'] lock_for_ok(1) [of c "action_thread a"]
  by (simp add: locks_ok_def) (metis locks_ok_def prod.collapse)

lemma perform_all_locks_ok: "perform_all env as c = Some (outs, c') \<Longrightarrow> locks_ok c \<Longrightarrow> locks_ok c'"
  by (induction as arbitrary: c outs) (auto simp: bind_eq_Some_conv dest: perform_locks_ok)

section \<open>A sample environment\<close>

text \<open>
  A daemon that accepts what it is sent; the turn completes, and another one starts, while the
  call is under way. And a daemon that never answers.
\<close>

definition sample_env :: control_env where
  "sample_env =
     \<lparr> ce_client = (\<lambda>_. ([Apply (sample_event 7 ''turn/completed'' ''t'' ''a''),
          Apply (sample_event 8 ''turn/started'' ''t'' ''b'')], Inr (JObject [(''turnId'', JString ''b'')]))),
       ce_window = (\<lambda>_. []), ce_show_json = (\<lambda>_. []), ce_debug_id = (\<lambda>_. []) \<rparr>"

definition silent_env :: control_env where
  "silent_env =
     \<lparr> ce_client = (\<lambda>_. ([], Inl (TimedOut ''turn/interrupt''))),
       ce_window = (\<lambda>_. []), ce_show_json = (\<lambda>_. []), ce_debug_id = (\<lambda>_. []) \<rparr>"

definition sample_controller :: controller where
  "sample_controller = controller_new
     (case reducer_new 4 of Some r \<Rightarrow> r | None \<Rightarrow> undefined) control_config_default"

lemma sample_controller_simps [simp]:
  "ct_calls sample_controller = []" "ct_activity sample_controller = []"
  "senders_ok (ct_reducer sample_controller)"
  "cc_not_written_retries (ct_config sample_controller) = 2"
  "ct_next_correlation sample_controller = 1"
  by (simp_all add: sample_controller_def controller_new_def control_config_default_def reducer_new_def senders_ok_def)

lemma send_accepted:
  assumes "answer_to env (ct_calls c @ [RequestAction m p]) = Inr v"
  shows "send_not_written_safe env m p c = ct_rpc env (RequestAction m p) c"
proof -
  obtain a c1 where r: "ct_rpc env (RequestAction m p) c = (a, c1)" by fastforce
  with assms ct_rpc_simps(1) [of env "RequestAction m p" c] have "a = Inr v" by simp
  with r show ?thesis by (simp add: send_not_written_safe_def send_from.simps [of env m p 0])
qed

lemma sample_sent:
  assumes "ct_register q (entered thread sample_controller) = (i, c3)"
    and "send_not_written_safe sample_env m p c3 = (sent, c4)"
  shows "sent = Inr (JObject [(''turnId'', JString ''b'')])"
    and "rd_delivered (ct_reducer (snd (await_window sample_env i c4))) i =
      find q [sample_event 7 ''turn/completed'' ''t'' ''a'', sample_event 8 ''turn/started'' ''t'' ''b'']"
proof -
  have send: "send_not_written_safe sample_env m p c3 = ct_rpc sample_env (RequestAction m p) c3"
    by (rule send_accepted) (simp add: answer_to_def sample_env_def)
  with assms(2) have c4: "sent = fst (ct_rpc sample_env (RequestAction m p) c3)"
    "c4 = snd (ct_rpc sample_env (RequestAction m p) c3)" by simp_all
  then show "sent = Inr (JObject [(''turnId'', JString ''b'')])"
    by (simp add: ct_rpc_simps answer_to_def sample_env_def)
  have wf: "senders_ok (ct_reducer (entered thread sample_controller))" by simp
  have activity: "ct_activity (snd (await_window sample_env i c4)) =
      [Apply (sample_event 7 ''turn/completed'' ''t'' ''a''), Apply (sample_event 8 ''turn/started'' ''t'' ''b'')]"
    by (simp add: await_window_def Let_def c4 ct_rpc_simps ct_register_frames(2) [OF assms(1)])
      (simp add: sample_env_def)
  from waiter_after_activity [OF assms(1) wf window_moved(1) [OF assms(2), of i]]
  show "rd_delivered (ct_reducer (snd (await_window sample_env i c4))) i =
      find q [sample_event 7 ''turn/completed'' ''t'' ''a'', sample_event 8 ''turn/started'' ''t'' ''b'']"
    by (auto simp: activity List.map_filter_simps)
qed

lemma sample_interrupt:
  "\<exists>v c'. interrupt sample_env ''t'' ''a'' sample_controller = Some (Confirmed (TargetTurn ''t'' ''a'') v, c') \<and>
     evd_observed_sequence v = Some 7"
proof -
  obtain i c3 where reg: "ct_register (is_completion ''t'' ''a'') (entered ''t'' sample_controller) = (i, c3)"
    by fastforce
  obtain sent c4 where send: "send_not_written_safe sample_env ''turn/interrupt''
      (JObject [(''threadId'', JString ''t''), (''turnId'', JString ''a'')]) c3 = (sent, c4)" by fastforce
  have "fst (await_window sample_env i c4) = Some (sample_event 7 ''turn/completed'' ''t'' ''a'')"
    by (simp add: await_window_delivered sample_sent(2) [OF reg send] is_completion_def)
  then show ?thesis
    by (simp add: interrupt_run [OF reg send] sample_sent(1) [OF reg send] observed_def)
qed

lemma sample_start:
  "\<exists>v c'. start sample_env ''t'' [] sample_controller = (Confirmed (TargetThread ''t'') v, c') \<and>
     evd_observed_sequence v = Some 8"
proof -
  obtain i c3 where reg: "ct_register (is_start_of ''t'') (entered ''t'' sample_controller) = (i, c3)" by fastforce
  obtain sent c4 where send: "send_not_written_safe sample_env ''turn/start''
      (JObject [(''threadId'', JString ''t''), (''input'', JArray [])]) c3 = (sent, c4)" by fastforce
  have "fst (await_window sample_env i c4) = Some (sample_event 8 ''turn/started'' ''t'' ''b'')"
    by (simp add: await_window_delivered sample_sent(2) [OF reg send] is_start_of_def)
  then show ?thesis
    by (simp add: start_run [OF reg send] sample_sent(1) [OF reg send] observed_def response_turn_id_def)
qed

text \<open>Where no other task ever acts, the activity stays as it was.\<close>

definition quiet :: "control_env \<Rightarrow> bool" where
  "quiet env \<longleftrightarrow> (\<forall>calls. fst (ce_client env calls) = []) \<and> (\<forall>calls. ce_window env calls = [])"

lemma quiet_send_from:
  "quiet env \<Longrightarrow> ct_activity (snd (send_from env m p k c)) = ct_activity c"
proof (induction env m p k c rule: send_from.induct)
  case (1 env m p k c)
  obtain a c1 where r: "ct_rpc env (RequestAction m p) c = (a, c1)" by fastforce
  with "1.prems" ct_rpc_simps(6) [of env "RequestAction m p" c] have c1: "ct_activity c1 = ct_activity c"
    by (simp add: quiet_def)
  show ?case
  proof (cases "not_written a \<and> k < cc_not_written_retries (ct_config c1)")
    case True
    then obtain s where "a = Inl (NotWritten s)" by (cases a rule: not_written.cases) auto
    with "1.IH" [OF r [symmetric] refl this] True r c1 "1.prems" show ?thesis
      by (subst send_from.simps) simp
  next
    case False
    with r c1 show ?thesis
      by (subst send_from.simps) (auto split: sum.splits request_error.splits)
  qed
qed

lemma quiet_interrupt:
  assumes "quiet env" and "interrupt env thread turn c = Some (out, c')"
  shows "ct_activity c' = ct_activity c"
proof -
  obtain i c3 where reg: "ct_register (is_completion thread turn) (entered thread c) = (i, c3)" by fastforce
  obtain sent c4 where send: "send_not_written_safe env ''turn/interrupt''
      (JObject [(''threadId'', JString thread), (''turnId'', JString turn)]) c3 = (sent, c4)" by fastforce
  have c4: "ct_activity c4 = ct_activity c"
    using quiet_send_from [OF assms(1)] send ct_register_frames(2) [OF reg]
    by (metis entered_frames(1) send_not_written_safe_def snd_conv)
  have window: "ct_activity (snd (await_window env i c4)) = ct_activity c"
    using assms(1) c4 by (simp add: await_window_def Let_def quiet_def)
  have read: "ct_activity (snd (ct_rpc env (read_call thread) d)) = ct_activity d" for d
    using assms(1) by (simp add: ct_rpc_simps quiet_def)
  show ?thesis
    using assms(2) c4 window read unfolding interrupt_run [OF reg send]
    by (auto simp: reconcile_run split: if_splits sum.splits option.splits request_error.splits)
qed

section \<open>Properties\<close>

text \<open>C1. An action never repeats a request that may have been written. Every action
  returns; the calls it makes are the one request of the action, repeated at most
  \<open>not_written_retries\<close> times and only after an answer that nothing was written, and for an
  interrupt possibly one \<open>thread/read\<close> after it.\<close>

theorem action_repeats_only_unwritten:
  shows "\<exists>out c' n. perform env a c = Some (out, c') \<and>
    ct_calls c' \<in> {ct_calls c @ replicate (Suc n) (action_call a),
      ct_calls c @ replicate (Suc n) (action_call a) @ (if is_interrupt a then [read_call (action_thread a)] else [])} \<and>
    n \<le> cc_not_written_retries (ct_config c) \<and>
    list_all (\<lambda>k. not_written (answer_to env (ct_calls c @ replicate (Suc k) (action_call a)))) [0..<n]"
proof -
  obtain out c' where run: "perform env a c = Some (out, c')" using perform_total [of env a c] by auto
  from perform_spec [OF this] obtain n where n: "attempts env a c n"
    "ct_calls c' \<in> {ct_calls c @ replicate (Suc n) (action_call a),
      ct_calls c @ replicate (Suc n) (action_call a) @ (if is_interrupt a then [read_call (action_thread a)] else [])}"
    by blast
  then have "n \<le> cc_not_written_retries (ct_config c)"
    "list_all (\<lambda>k. not_written (answer_to env (ct_calls c @ replicate (Suc k) (action_call a)))) [0..<n]"
    unfolding attempts_def by (simp_all add: list_all_iff del: action_call.simps)
  with run n(2) show ?thesis by blast
qed

text \<open>C11. The outcome follows the answer to the last attempt and nothing stronger. An accepted
  request is never reported as rejected, a rejection is reported with the daemon's error, a
  request that was not written (after all retries) or a closed transport is reported as
  rejected without one, and an answer that leaves the outcome open is never reported as
  rejected or accepted: steering and starting report the outcome unknown, and only an interrupt
  may still confirm it. Evidence always carries the action's own correlation number.\<close>

theorem outcome_follows_last_answer:
  assumes "perform env a c = Some (out, c')"
  shows "\<exists>n. attempts env a c n \<and> classified a (last_answer env a c n) out \<and>
    is_none_or (evidence_of out) (\<lambda>v. evd_action_correlation v = ct_next_correlation c)"
  using perform_spec [OF assms] by blast

theorem outcome_follows_last_answer_witness:
  "\<exists>out c' v. perform silent_env (Start ''t'' []) sample_controller = Some (out, c') \<and>
     out = OutcomeUnknown (TargetThread ''t'') v \<and> \<not> evd_rpc_accepted v \<and> evd_action_correlation v = 1"
proof -
  obtain out c' where run: "perform silent_env (Start ''t'' []) sample_controller = Some (out, c')"
    by fastforce
  have ans: "last_answer silent_env (Start ''t'' []) sample_controller n = Inl (TimedOut ''turn/interrupt'')" for n
    by (simp add: answer_to_def silent_env_def)
  from outcome_follows_last_answer [OF run, unfolded ans] obtain v where
    "evidence_of out = Some v" "out = OutcomeUnknown (TargetThread ''t'') v" "\<not> evd_rpc_accepted v"
    "evd_action_correlation v = 1" by (cases "evidence_of out") auto
  with run show ?thesis by blast
qed

text \<open>C18. A confirmed interrupt has evidence of the target turn. Whatever other tasks do
  meanwhile, \<open>Confirmed\<close> with an observed sequence means that the first completion of exactly
  that turn of that thread applied to the reducer since the action registered its waiter has
  that sequence; without one, the action's last call was a \<open>thread/read\<close> whose answer shows
  the turn in a terminal status.\<close>

theorem confirmed_interrupt_has_evidence:
  assumes "interrupt env thread turn c = Some (Confirmed t v, c')" and "senders_ok (ct_reducer c)"
  shows "t = TargetTurn thread turn \<and> (\<exists>ops. ct_activity c' = ct_activity c @ ops \<and>
    (case evd_observed_sequence v of
       Some s \<Rightarrow> \<exists>e. find (is_completion thread turn) (applied_events ops) = Some e \<and> ev_sequence e = s
     | None \<Rightarrow> \<exists>calls. ct_calls c' = calls @ [read_call thread] \<and>
         read_terminal (answer_to env (calls @ [read_call thread])) turn))"
  by (rule interrupt_confirmed [OF assms])

theorem confirmed_interrupt_has_evidence_witness:
  "\<exists>v c' e. interrupt sample_env ''t'' ''a'' sample_controller = Some (Confirmed (TargetTurn ''t'' ''a'') v, c') \<and>
     find (is_completion ''t'' ''a'') (applied_events (ct_activity c')) = Some e \<and> ev_sequence e = 7"
proof -
  obtain v c' where run: "interrupt sample_env ''t'' ''a'' sample_controller =
      Some (Confirmed (TargetTurn ''t'' ''a'') v, c')" and v: "evd_observed_sequence v = Some 7"
    using sample_interrupt by blast
  from confirmed_interrupt_has_evidence [OF run] v run show ?thesis by auto
qed

text \<open>C20. A confirmed start is about the turn the daemon created. \<open>Confirmed\<close> means the
  request was accepted with a turn id; it carries an observed sequence exactly when the first
  \<open>turn/started\<close> of the thread applied since the waiter was registered has that turn id, and
  then it is that event's.\<close>

theorem confirmed_start_has_turn_id:
  assumes "start env thread input c = (Confirmed t v, c')" and "senders_ok (ct_reducer c)"
  shows "t = TargetThread thread \<and> (\<exists>ops n response id. ct_activity c' = ct_activity c @ ops \<and>
    attempts env (Start thread input) c n \<and> last_answer env (Start thread input) c n = Inr response \<and>
    response_turn_id response = Some id \<and>
    (case evd_observed_sequence v of
       Some s \<Rightarrow> \<exists>e. find (is_start_of thread) (applied_events ops) = Some e \<and> ev_sequence e = s \<and> ev_turn_id e = Some id
     | None \<Rightarrow> is_none_or (find (is_start_of thread) (applied_events ops)) (\<lambda>e. ev_turn_id e \<noteq> Some id)))"
  by (rule start_confirmed [OF assms])

theorem confirmed_start_has_turn_id_witness:
  "\<exists>v c' e. start sample_env ''t'' [] sample_controller = (Confirmed (TargetThread ''t'') v, c') \<and>
     find (is_start_of ''t'') (applied_events (ct_activity c')) = Some e \<and> ev_sequence e = 8"
proof -
  obtain v c' where run: "start sample_env ''t'' [] sample_controller =
      (Confirmed (TargetThread ''t'') v, c')" and v: "evd_observed_sequence v = Some 8"
    using sample_start by blast
  from confirmed_start_has_turn_id [OF run] v run show ?thesis by auto
qed

text \<open>Correlation numbers are never reused. Over any run of at most \<open>2^64\<close> actions, the
  evidence of no two outcomes has the same correlation number.\<close>

theorem correlation_numbers_distinct:
  assumes "perform_all env as c = Some (outs, c')" and "length as \<le> 2 ^ 64"
  shows "distinct (correlations outs)"
proof (rule subseq_distinct [OF perform_all_correlations [OF assms(1)]])
  show "distinct (map (\<lambda>k. ct_next_correlation c + of_nat k) [0..<length as])"
    using assms(2) by (auto simp: distinct_map inj_on_def of_nat_u64_inj)
qed

theorem correlation_numbers_distinct_witness:
  "\<exists>outs c'. perform_all silent_env [Start ''t'' [], Start ''u'' []] sample_controller = Some (outs, c') \<and>
     distinct (correlations outs)"
proof -
  obtain outs c' where run: "perform_all silent_env [Start ''t'' [], Start ''u'' []] sample_controller = Some (outs, c')"
    by (auto simp: split_beta)
  have "length [Start ''t'' [], Start ''u'' []] \<le> 2 ^ 64" by simp
  from correlation_numbers_distinct [OF run this] run show ?thesis by blast
qed

text \<open>Every thread has one lock and no two threads share one. In a controller reached from
  a new one by any run of actions, locking two threads gives the same lock exactly when they
  are the same thread.\<close>

theorem one_lock_per_thread:
  assumes "perform_all env as (controller_new r config) = Some (outs, c)"
    and "lock_for t1 c = (l1, c1)" and "lock_for t2 c1 = (l2, c2)"
  shows "l1 = l2 \<longleftrightarrow> t1 = t2"
proof -
  have "locks_ok (controller_new r config)" by (simp add: locks_ok_def controller_new_def)
  from perform_all_locks_ok [OF assms(1) this] have ok: "locks_ok c" .
  note one = lock_for_ok [OF ok assms(2)] and two = lock_for_ok [OF lock_for_ok(1) [OF ok assms(2)] assms(3)]
  have "ct_locks c2 t1 = Some l1" using one(2) two(3) by (metis domI map_le_def)
  with two(1,2) show ?thesis unfolding locks_ok_def by auto
qed

theorem one_lock_per_thread_witness:
  "\<exists>outs c l1 c1 l2 c2.
     perform_all silent_env [Start ''t'' [], Steer ''u'' ''a'' []] sample_controller = Some (outs, c) \<and>
     lock_for ''t'' c = (l1, c1) \<and> lock_for ''u'' c1 = (l2, c2) \<and> l1 \<noteq> l2"
proof -
  obtain outs c where run: "perform_all silent_env [Start ''t'' [], Steer ''u'' ''a'' []] sample_controller = Some (outs, c)"
    using perform_all_total by blast
  obtain l1 c1 where one: "lock_for ''t'' c = (l1, c1)" by fastforce
  obtain l2 c2 where two: "lock_for ''u'' c1 = (l2, c2)" by fastforce
  from one_lock_per_thread [OF run [unfolded sample_controller_def] one two] have "l1 \<noteq> l2" by simp
  with run one two show ?thesis by blast
qed

text \<open>A waiter that never fires is never removed. When no completion of the turn was applied
  while the action ran, the waiter the interrupt registered is still pending in the reducer
  after it returned, whatever it returned.\<close>

theorem unfired_waiter_stays:
  assumes "interrupt env thread turn c = Some (out, c')" and "senders_ok (ct_reducer c)"
    and "ct_activity c' = ct_activity c @ ops" and "find (is_completion thread turn) (applied_events ops) = None"
  shows "\<exists>i. pending_waiter (ct_reducer c) i = None \<and>
    pending_waiter (ct_reducer c') i = Some (is_completion thread turn)"
proof -
  obtain i c3 where reg: "ct_register (is_completion thread turn) (entered thread c) = (i, c3)" by fastforce
  have wf: "senders_ok (ct_reducer (entered thread c))" using assms(2) by simp
  have "i = rd_next_sender (ct_reducer c)"
    using ct_register_frames(7) [OF reg] by (simp add: register_waiter_def)
  then have "pending_waiter (ct_reducer c) i = None"
    using assms(2) by (auto simp: pending_waiter_def senders_ok_def find_None_iff)
  moreover have "pending_waiter (ct_reducer c') i = Some (is_completion thread turn)"
    using waiter_after_activity [OF reg wf interrupt_moved [OF assms(1) reg]] assms(3,4) by auto
  ultimately show ?thesis by blast
qed

theorem unfired_waiter_stays_witness:
  "\<exists>out c' i. interrupt silent_env ''t'' ''a'' sample_controller = Some (out, c') \<and>
     pending_waiter (ct_reducer c') i = Some (is_completion ''t'' ''a'')"
proof -
  obtain out c' where run: "interrupt silent_env ''t'' ''a'' sample_controller = Some (out, c')"
    using perform_total [of silent_env "Interrupt ''t'' ''a''" sample_controller] by auto
  have "quiet silent_env" by (simp add: quiet_def silent_env_def)
  then have "ct_activity c' = ct_activity sample_controller @ []"
    using quiet_interrupt [OF _ run] by simp
  from unfired_waiter_stays [OF run _ this] run show ?thesis by (auto simp: List.map_filter_simps)
qed

end
