(* ===== verification/Ingest.thy ===== *)
theory Ingest
  imports Rpc Store
begin

text \<open>
  Thread discovery and reconciliation of \<open>src/ingest/src/lib.rs\<close>: which threads of the
  shared daemon this observer subscribes to, how often it tries, and how it catches up with
  threads it has not heard of. Many discoveries run at once over the same map of subscription
  states; a discovery's own steps are modelled in order, and what other tasks do to the
  reducer, to the map and to the store while it waits is the environment's.
\<close>

section \<open>Data\<close>

record ingest_config =
  ic_reconcile_page_size :: nat
  ic_reconcile_page_bound :: nat
  ic_reconcile_candidate_limit :: nat
  ic_subscription_cap :: nat
  ic_resume_retry_limit :: nat
  ic_retry_delay :: duration
  ic_release_idle_subscriptions :: bool
  ic_reactivation_verified :: bool

definition ingest_config_default :: ingest_config where
  "ingest_config_default =
     \<lparr> ic_reconcile_page_size = 50, ic_reconcile_page_bound = 4, ic_reconcile_candidate_limit = 200,
       ic_subscription_cap = 512, ic_resume_retry_limit = 8, ic_retry_delay = from_millis 250,
       ic_release_idle_subscriptions = False, ic_reactivation_verified = False \<rparr>"

datatype discovery_source = SourceThreadStarted | SourceActivationStatus | SourceReconciliation

datatype subscription_state =
    Unseen
  | Subscribing discovery_source nat
  | Subscribed
  | RetryWait nat
  | Ephemeral
  | CapacityDegraded
  | Released
  | SubscriptionFailed string

datatype discovery_outcome =
    OutSubscribed
  | OutAlreadyManaged
  | OutEphemeral
  | OutCapacityDegraded
  | OutFailed string

datatype ingest_error = IngestRequest request_error | MalformedList

text \<open>
  The map of states is written here and by other tasks; the writes are kept in order with
  whose they are, for the statements of properties.
\<close>

record ingestor =
  in_config :: ingest_config
  in_states :: "string \<rightharpoonup> subscription_state"
  in_watermark :: u64
  in_reactivation_verified :: bool
  in_store :: "event_store option"
  in_world :: world
  in_writes :: "(bool \<times> string \<times> subscription_state) list"

abbreviation in_calls :: "ingestor \<Rightarrow> rpc_call list" where
  "in_calls ig \<equiv> wd_calls (in_world ig)"

abbreviation in_reducer :: "ingestor \<Rightarrow> reducer" where
  "in_reducer ig \<equiv> wd_reducer (in_world ig)"

definition ingestor_new :: "reducer \<Rightarrow> ingest_config \<Rightarrow> ingestor" where
  "ingestor_new r config =
     \<lparr> in_config = config, in_states = Map.empty, in_watermark = 0,
       in_reactivation_verified = ic_reactivation_verified config, in_store = None,
       in_world = \<lparr> wd_reducer = r, wd_calls = [], wd_activity = [] \<rparr>, in_writes = [] \<rparr>"

definition with_store :: "event_store \<Rightarrow> ingestor \<Rightarrow> ingestor" where
  "with_store st ig = ig\<lparr>in_store := Some st\<rparr>"

definition subscription_state_of :: "string \<Rightarrow> ingestor \<Rightarrow> subscription_state" where
  "subscription_state_of tid ig = unwrap_or (in_states ig tid) Unseen"

definition set_reactivation_verified :: "bool \<Rightarrow> ingestor \<Rightarrow> ingestor" where
  "set_reactivation_verified verified ig = ig\<lparr>in_reactivation_verified := verified\<rparr>"

section \<open>Environment\<close>

datatype other = OnReducer reducer_op | OnState string subscription_state | OnStore sequenced_event

record ingest_env =
  ie_client :: "rpc_call list \<Rightarrow> other list \<times> (request_error + json)"
  ie_sleep :: "rpc_call list \<Rightarrow> other list"
  ie_encoder :: encoder
  ie_key_order :: key_order
  ie_state_order :: "(string \<rightharpoonup> subscription_state) \<Rightarrow> string list"
  ie_unix_now :: "rpc_call list \<Rightarrow> duration option"
  ie_now :: "rpc_call list \<Rightarrow> duration"
  ie_show_json :: "json \<Rightarrow> string"
  ie_debug_id :: "rpc_id \<Rightarrow> string"

definition write_state :: "bool \<Rightarrow> string \<Rightarrow> subscription_state \<Rightarrow> ingestor \<Rightarrow> ingestor" where
  "write_state own tid s ig =
     ig\<lparr>in_states := (in_states ig)(tid \<mapsto> s), in_writes := in_writes ig @ [(own, tid, s)]\<rparr>"

abbreviation set_state :: "string \<Rightarrow> subscription_state \<Rightarrow> ingestor \<Rightarrow> ingestor" where
  "set_state \<equiv> write_state True"

definition in_reducer_do :: "(reducer \<Rightarrow> reducer) \<Rightarrow> ingestor \<Rightarrow> ingestor" where
  "in_reducer_do f ig = ig\<lparr>in_world := on_reducer f (in_world ig)\<rparr>"

text \<open>What other tasks do; \<open>None\<close> is a store operation that does not return.\<close>

fun interfere :: "ingest_env \<Rightarrow> other list \<Rightarrow> ingestor \<Rightarrow> ingestor option" where
  "interfere env [] ig = Some ig"
| "interfere env (OnReducer op # os) ig = interfere env os (ig\<lparr>in_world := others [op] (in_world ig)\<rparr>)"
| "interfere env (OnState tid s # os) ig = interfere env os (write_state False tid s ig)"
| "interfere env (OnStore e # os) ig =
     (case in_store ig of
        None \<Rightarrow> interfere env os ig
      | Some st \<Rightarrow> Option.bind (record_event (ie_encoder env) (ie_key_order env) e st)
                    (\<lambda>st'. interfere env os (ig\<lparr>in_store := Some st'\<rparr>)))"

definition in_rpc :: "ingest_env \<Rightarrow> rpc_call \<Rightarrow> ingestor \<Rightarrow> ((request_error + json) \<times> ingestor) option" where
  "in_rpc env call ig =
     (let calls = in_calls ig @ [call]; (os, answer) = ie_client env calls
      in map_option (\<lambda>ig'. (answer, ig')) (interfere env os (ig\<lparr>in_world := (in_world ig)\<lparr>wd_calls := calls\<rparr>\<rparr>)))"

definition pause :: "ingest_env \<Rightarrow> ingestor \<Rightarrow> ingestor option" where
  "pause env ig = interfere env (ie_sleep env (in_calls ig)) ig"

section \<open>Reading answers\<close>

definition status_type :: "json option \<Rightarrow> string option" where
  "status_type params =
     Option.bind (Option.bind params (jget ''status''))
       (\<lambda>status. or_else (get_str ''type'' status) (as_str status))"

definition in_flight_turn_id :: "json \<Rightarrow> string option" where
  "in_flight_turn_id thread =
     Option.bind (Option.bind (jget ''turns'' thread) as_array)
       (\<lambda>turns. Option.bind (find (\<lambda>turn. \<not> terminal_turn turn) (rev turns)) (get_str ''id''))"

definition thread_is_active :: "json \<Rightarrow> bool" where
  "thread_is_active thread \<longleftrightarrow>
     Option.bind (jget ''status'' thread) (get_str ''type'') = Some ''active'' \<or>
     is_some_and (Option.bind (jget ''turns'' thread) as_array) (list_ex (\<lambda>turn. \<not> terminal_turn turn))"

text \<open>\<open>str::parse::<u64>\<close>: an optional plus sign and decimal digits, in range.\<close>

definition is_digit :: "char \<Rightarrow> bool" where
  "is_digit c \<longleftrightarrow> 48 \<le> (of_char c :: nat) \<and> (of_char c :: nat) \<le> 57"

definition digits_value :: "string \<Rightarrow> nat" where
  "digits_value s = foldl (\<lambda>n c. n * 10 + (of_char c - 48)) 0 s"

definition parse_u64 :: "string \<Rightarrow> u64 option" where
  "parse_u64 s0 =
     (let s = (case s0 of CHR ''+'' # rest \<Rightarrow> rest | _ \<Rightarrow> s0)
      in if s \<noteq> [] \<and> list_all is_digit s \<and> digits_value s < 2 ^ 64
         then Some (of_nat (digits_value s)) else None)"

definition numeric_timestamp :: "json option \<Rightarrow> u64 option" where
  "numeric_timestamp v =
     Option.bind v (\<lambda>v. or_else (as_u64 v) (Option.bind (as_str v) parse_u64))"

definition is_ephemeral_error :: "(json \<Rightarrow> string) \<Rightarrow> json \<Rightarrow> bool" where
  "is_ephemeral_error show_json err =
     (let text = to_ascii_lowercase (show_json err)
      in str_contains text ''ephemeral'' \<or> str_contains text ''rollout'' \<or> str_contains text ''not found'')"

definition is_retryable_server_error :: "(json \<Rightarrow> string) \<Rightarrow> json \<Rightarrow> bool" where
  "is_retryable_server_error show_json err =
     (let code = Option.bind (jget ''code'' err) as_i64; text = to_ascii_lowercase (show_json err)
      in code = Some (-32001) \<and>
         (str_contains text ''overload'' \<or> str_contains text ''retry'' \<or> str_contains text ''transient''))"

section \<open>Discovery\<close>

fun is_retained :: "subscription_state \<Rightarrow> bool" where
  "is_retained Subscribed = True"
| "is_retained (Subscribing _ _) = True"
| "is_retained (RetryWait _) = True"
| "is_retained _ = False"

definition retained_count :: "(string \<rightharpoonup> subscription_state) \<Rightarrow> nat" where
  "retained_count states = card {tid \<in> dom states. is_some_and (states tid) is_retained}"

text \<open>The section under the lock of the states: an outcome, or the claim of the thread.\<close>

definition claim :: "string \<Rightarrow> discovery_source \<Rightarrow> ingestor \<Rightarrow> discovery_outcome option \<times> ingestor" where
  "claim tid source ig =
     (if is_some_and (in_states ig tid) is_retained then (Some OutAlreadyManaged, ig)
      else if ic_subscription_cap (in_config ig) \<le> retained_count (in_states ig)
        then (Some OutCapacityDegraded, set_state tid CapacityDegraded ig)
      else (None, set_state tid (Subscribing source 1) ig))"

text \<open>What the loop does with an answer: leave it, try again, or end the discovery.\<close>

datatype resume_decision = ResumeDone | ResumeRetry | ResumeEphemeral | ResumeFailed string

definition decide_resume :: "ingest_env \<Rightarrow> nat \<Rightarrow> nat \<Rightarrow> (request_error + json) \<Rightarrow> resume_decision" where
  "decide_resume env attempt limit answer =
     (case answer of
        Inr _ \<Rightarrow> ResumeDone
      | Inl err \<Rightarrow>
          (let failed = ResumeFailed (request_error_text (ie_show_json env) (ie_debug_id env) err)
           in case err of
                NotWritten _ \<Rightarrow> if attempt < limit then ResumeRetry else failed
              | Rejected _ e \<Rightarrow>
                  if (is_ephemeral_error (ie_show_json env) e \<or> is_retryable_server_error (ie_show_json env) e) \<and>
                     attempt < limit
                  then ResumeRetry
                  else if is_ephemeral_error (ie_show_json env) e then ResumeEphemeral
                  else failed
              | _ \<Rightarrow> failed))"

definition thread_params :: "string \<Rightarrow> json" where
  "thread_params tid = JObject [(''threadId'', JString tid)]"

definition read_params :: "string \<Rightarrow> json" where
  "read_params tid = JObject [(''threadId'', JString tid), (''includeTurns'', JBool True)]"

text \<open>The loop of attempts. The outer option is the environment's store not returning.\<close>

lemma write_state_config [simp]: "in_config (write_state own tid s ig) = in_config ig"
  by (simp add: write_state_def)

lemma interfere_config: "interfere env os ig = Some ig' \<Longrightarrow> in_config ig' = in_config ig"
  by (induction env os ig rule: interfere.induct) (auto simp: bind_eq_Some_conv split: option.splits)

lemma in_rpc_config: "in_rpc env call ig = Some (a, ig') \<Longrightarrow> in_config ig' = in_config ig"
  by (auto simp: in_rpc_def Let_def split: prod.splits dest: interfere_config)

lemma pause_config: "pause env ig = Some ig' \<Longrightarrow> in_config ig' = in_config ig"
  by (simp add: pause_def interfere_config)

function resume_loop :: "ingest_env \<Rightarrow> string \<Rightarrow> discovery_source \<Rightarrow> nat \<Rightarrow> ingestor \<Rightarrow>
    (discovery_outcome option \<times> ingestor) option" where
  "resume_loop env tid source attempt ig =
     (case in_rpc env (Request ''thread/resume'' (thread_params tid)) ig of
        None \<Rightarrow> None
      | Some (answer, ig1) \<Rightarrow>
          (case decide_resume env attempt (ic_resume_retry_limit (in_config ig)) answer of
             ResumeDone \<Rightarrow> Some (None, ig1)
           | ResumeRetry \<Rightarrow>
               (case pause env (set_state tid (RetryWait (Suc attempt)) ig1) of
                  None \<Rightarrow> None
                | Some ig2 \<Rightarrow>
                    resume_loop env tid source (Suc attempt) (set_state tid (Subscribing source (Suc attempt)) ig2))
           | ResumeEphemeral \<Rightarrow>
               Some (Some OutEphemeral, in_reducer_do (cancel_subscription tid) (set_state tid Ephemeral ig1))
           | ResumeFailed detail \<Rightarrow>
               Some (Some (OutFailed detail),
                 in_reducer_do (cancel_subscription tid) (set_state tid (SubscriptionFailed detail) ig1))))"
  by pat_completeness auto
termination
proof (relation "measure (\<lambda>(env, tid, source, attempt, ig). ic_resume_retry_limit (in_config ig) - attempt)", goal_cases)
  case 1
  show ?case by simp
next
  case (2 env tid source attempt ig r answer ig1 ig2)
  from in_rpc_config [OF 2(1) [unfolded 2(2) [symmetric]]] pause_config [OF 2(4)] have "in_config ig2 = in_config ig"
    by simp
  moreover have "attempt < ic_resume_retry_limit (in_config ig)"
    using 2(3) by (auto simp: decide_resume_def Let_def split: sum.splits request_error.splits if_splits)
  ultimately show ?case by simp
qed

declare resume_loop.simps [simp del]

text \<open>The read after the subscription, and the anchor of a turn found in flight.\<close>

definition read_after_resume :: "ingest_env \<Rightarrow> string \<Rightarrow> ingestor \<Rightarrow> ingestor option" where
  "read_after_resume env tid ig =
     (case in_rpc env (Request ''thread/read'' (read_params tid)) ig of
        None \<Rightarrow> None
      | Some (Inl _, ig1) \<Rightarrow> Some ig1
      | Some (Inr response, ig1) \<Rightarrow>
          (case jget ''thread'' response of
             None \<Rightarrow> Some ig1
           | Some thread \<Rightarrow>
               (let ig2 = in_reducer_do (reconcile_thread thread) ig1
                in case (in_store ig2, in_flight_turn_id thread) of
                     (Some st, Some turn) \<Rightarrow>
                       map_option (\<lambda>(_, st'). ig2\<lparr>in_store := Some st'\<rparr>)
                         (record_reconstructed_active_turn (ie_encoder env) (ie_key_order env)
                           (ie_unix_now env (in_calls ig2)) (ie_now env (in_calls ig2))
                           (current_sequence (in_reducer ig2)) tid turn st)
                   | _ \<Rightarrow> Some ig2)))"

definition discover :: "ingest_env \<Rightarrow> string \<Rightarrow> discovery_source \<Rightarrow> ingestor \<Rightarrow> (discovery_outcome \<times> ingestor) option" where
  "discover env tid source ig =
     (case claim tid source ig of
        (Some outcome, ig1) \<Rightarrow> Some (outcome, ig1)
      | (None, ig1) \<Rightarrow>
          (case resume_loop env tid source 1 (in_reducer_do (begin_subscription tid) ig1) of
             None \<Rightarrow> None
           | Some (Some outcome, ig2) \<Rightarrow> Some (outcome, ig2)
           | Some (None, ig2) \<Rightarrow>
               map_option (Pair OutSubscribed)
                 (read_after_resume env tid
                   (set_state tid Subscribed (in_reducer_do (finish_subscription tid) ig2)))))"

definition handle_signal :: "ingest_env \<Rightarrow> sequenced_event \<Rightarrow> ingestor \<Rightarrow>
    (discovery_outcome option \<times> ingestor) option" where
  "handle_signal env e ig =
     (case (ev_thread_id e, ev_method e) of
        (Some tid, Some m) \<Rightarrow>
          if m = ''thread/started'' then
            map_option (map_prod Some id) (discover env tid SourceThreadStarted ig)
          else if m = ''thread/status/changed'' \<and> status_type (frame_params (ev_frame e)) = Some ''active'' then
            map_option (map_prod Some id) (discover env tid SourceActivationStatus ig)
          else Some (None, ig)
      | _ \<Rightarrow> Some (None, ig))"

section \<open>Reconciliation\<close>

definition list_params :: "string option \<Rightarrow> ingest_config \<Rightarrow> json" where
  "list_params cursor config =
     JObject [(''cursor'', case cursor of None \<Rightarrow> JNull | Some c \<Rightarrow> JString c),
              (''limit'', JNumber (PosInt (of_nat (ic_reconcile_page_size config)))),
              (''sortKey'', JString ''updated_at''), (''sortDirection'', JString ''desc'')]"

text \<open>
  One page: the newest time seen, the candidates so far, and whether the watermark was
  reached. Both breaks leave the page.
\<close>

fun scan_page :: "u64 \<Rightarrow> nat \<Rightarrow> json list \<Rightarrow> u64 \<times> string list \<times> bool \<Rightarrow> u64 \<times> string list \<times> bool" where
  "scan_page previous limit [] acc = acc"
| "scan_page previous limit (thread # rest) (newest, candidates, reached) =
     (case get_str ''id'' thread of
        None \<Rightarrow> scan_page previous limit rest (newest, candidates, reached)
      | Some tid \<Rightarrow>
          (let updated = unwrap_or (numeric_timestamp (jget ''updatedAt'' thread)) 0;
               newest' = max newest updated
           in if 0 < previous \<and> updated \<le> previous then (newest', candidates, True)
              else if limit \<le> length (candidates @ [tid]) then (newest', candidates @ [tid], reached)
              else scan_page previous limit rest (newest', candidates @ [tid], reached)))"

text \<open>The loop over at most as many pages as the bound allows.\<close>

fun scan_pages :: "ingest_env \<Rightarrow> u64 \<Rightarrow> nat \<Rightarrow> string option \<Rightarrow> u64 \<times> string list \<Rightarrow> ingestor \<Rightarrow>
    ((ingest_error + u64 \<times> string list) \<times> ingestor) option" where
  "scan_pages env previous 0 cursor acc ig = Some (Inr acc, ig)"
| "scan_pages env previous (Suc pages) cursor (newest, candidates) ig =
     (if ic_reconcile_candidate_limit (in_config ig) \<le> length candidates then Some (Inr (newest, candidates), ig)
      else
        (case in_rpc env (Request ''thread/list'' (list_params cursor (in_config ig))) ig of
           None \<Rightarrow> None
         | Some (Inl err, ig1) \<Rightarrow> Some (Inl (IngestRequest err), ig1)
         | Some (Inr result, ig1) \<Rightarrow>
             (case Option.bind (jget ''data'' result) as_array of
                None \<Rightarrow> Some (Inl MalformedList, ig1)
              | Some threads \<Rightarrow>
                  (let (newest', candidates', reached) =
                         scan_page previous (ic_reconcile_candidate_limit (in_config ig1)) threads (newest, candidates, False);
                       cursor' = get_str ''nextCursor'' result
                   in if reached \<or> cursor' = None then Some (Inr (newest', candidates'), ig1)
                      else scan_pages env previous pages cursor' (newest', candidates') ig1))))"

text \<open>The loop over the candidates: a read each, and a discovery for the active ones.\<close>

fun reconcile_candidates :: "ingest_env \<Rightarrow> string list \<Rightarrow> ingestor \<Rightarrow>
    ((string \<times> discovery_outcome) list \<times> ingestor) option" where
  "reconcile_candidates env [] ig = Some ([], ig)"
| "reconcile_candidates env (tid # rest) ig =
     (case in_rpc env (Request ''thread/read'' (read_params tid)) ig of
        None \<Rightarrow> None
      | Some (answer, ig1) \<Rightarrow>
          (case (case answer of Inl _ \<Rightarrow> None | Inr v \<Rightarrow> jget ''thread'' v) of
             Some thread \<Rightarrow>
               if thread_is_active thread then
                 (case discover env tid SourceReconciliation (in_reducer_do (reconcile_thread thread) ig1) of
                    None \<Rightarrow> None
                  | Some (outcome, ig2) \<Rightarrow>
                      map_option (map_prod (Cons (tid, outcome)) id) (reconcile_candidates env rest ig2))
               else reconcile_candidates env rest ig1
           | None \<Rightarrow> reconcile_candidates env rest ig1))"

definition reconcile :: "ingest_env \<Rightarrow> ingestor \<Rightarrow>
    ((ingest_error + (string \<times> discovery_outcome) list) \<times> ingestor) option" where
  "reconcile env ig =
     (let previous = in_watermark ig
      in case scan_pages env previous (ic_reconcile_page_bound (in_config ig)) None (previous, []) ig of
           None \<Rightarrow> None
         | Some (Inl err, ig1) \<Rightarrow> Some (Inl err, ig1)
         | Some (Inr (newest, candidates), ig1) \<Rightarrow>
             map_option (map_prod Inr id) (reconcile_candidates env candidates (ig1\<lparr>in_watermark := newest\<rparr>)))"

section \<open>Releasing\<close>

definition release_if_idle :: "ingest_env \<Rightarrow> string \<Rightarrow> ingestor \<Rightarrow> (bool \<times> ingestor) option" where
  "release_if_idle env tid ig =
     (if \<not> ic_release_idle_subscriptions (in_config ig) \<or> \<not> in_reactivation_verified ig then Some (False, ig)
      else if is_some_and (rd_threads (in_reducer ig) tid) (\<lambda>t. ts_status t \<noteq> ''idle'') then Some (False, ig)
      else
        (case in_rpc env (Request ''thread/unsubscribe'' (thread_params tid)) ig of
           None \<Rightarrow> None
         | Some (Inr _, ig1) \<Rightarrow>
             Some (True, in_reducer_do (set_subscribed tid False) (set_state tid Released ig1))
         | Some (Inl _, ig1) \<Rightarrow> Some (False, ig1)))"

fun unsubscribe_each :: "ingest_env \<Rightarrow> string list \<Rightarrow> ingestor \<Rightarrow> ingestor option" where
  "unsubscribe_each env [] ig = Some ig"
| "unsubscribe_each env (tid # rest) ig =
     (case in_rpc env (Request ''thread/unsubscribe'' (thread_params tid)) ig of
        None \<Rightarrow> None
      | Some (_, ig1) \<Rightarrow> unsubscribe_each env rest ig1)"

definition unsubscribe_all_best_effort :: "ingest_env \<Rightarrow> ingestor \<Rightarrow> ingestor option" where
  "unsubscribe_all_best_effort env ig =
     unsubscribe_each env
       (filter (\<lambda>tid. in_states ig tid = Some Subscribed) (ie_state_order env (in_states ig))) ig"

section \<open>Frames\<close>

definition ingest_answer :: "ingest_env \<Rightarrow> rpc_call list \<Rightarrow> request_error + json" where
  "ingest_answer env calls = snd (ie_client env calls)"

text \<open>The map of states after a list of writes, and what a step adds to the history.\<close>

definition states_after :: "(bool \<times> string \<times> subscription_state) list \<Rightarrow> (string \<rightharpoonup> subscription_state) \<Rightarrow>
    (string \<rightharpoonup> subscription_state)" where
  "states_after ws m = fold (\<lambda>w m. m(fst (snd w) \<mapsto> snd (snd w))) ws m"

lemma states_after_simps [simp]:
  "states_after [] m = m"
  "states_after (w # ws) m = states_after ws (m(fst (snd w) \<mapsto> snd (snd w)))"
  "states_after (us @ ws) m = states_after ws (states_after us m)"
  by (simp_all add: states_after_def)

definition wrote :: "ingestor \<Rightarrow> (bool \<times> string \<times> subscription_state) list \<Rightarrow> ingestor \<Rightarrow> bool" where
  "wrote ig ws ig' \<longleftrightarrow> in_writes ig' = in_writes ig @ ws \<and> in_states ig' = states_after ws (in_states ig) \<and>
     in_config ig' = in_config ig \<and> in_watermark ig' = in_watermark ig \<and>
     in_reactivation_verified ig' = in_reactivation_verified ig"

lemma wrote_refl: "wrote ig [] ig"
  by (simp add: wrote_def)

lemma wrote_trans: "wrote a us b \<Longrightarrow> wrote b ws c \<Longrightarrow> wrote a (us @ ws) c"
  by (auto simp: wrote_def)

lemma wrote_write: "wrote ig [(own, tid, s)] (write_state own tid s ig)"
  by (simp add: wrote_def write_state_def)

lemma wrote_reducer [simp]: "wrote ig ws (in_reducer_do f ig') \<longleftrightarrow> wrote ig ws ig'"
  by (simp add: wrote_def in_reducer_do_def)

lemma wrote_reducer_from [simp]: "wrote (in_reducer_do f ig) ws ig' \<longleftrightarrow> wrote ig ws ig'"
  by (simp add: wrote_def in_reducer_do_def)

lemma wrote_unique: "wrote ig us ig' \<Longrightarrow> wrote ig ws ig' \<Longrightarrow> us = ws"
  by (simp add: wrote_def)

lemma in_calls_frames [simp]:
  "in_calls (write_state own tid s ig) = in_calls ig"
  "in_calls (in_reducer_do f ig) = in_calls ig"
  "in_calls (ig\<lparr>in_store := st\<rparr>) = in_calls ig"
  by (simp_all add: write_state_def in_reducer_do_def)

lemma interfere_frames:
  "interfere env os ig = Some ig' \<Longrightarrow>
     in_calls ig' = in_calls ig \<and> (\<exists>ws. wrote ig ws ig' \<and> (\<forall>w \<in> set ws. \<not> fst w))"
proof (induction env os ig rule: interfere.induct)
  case (1 env ig)
  then show ?case using wrote_refl by force
next
  case (2 env op os ig)
  then obtain ws where "in_calls ig' = in_calls ig" "wrote (ig\<lparr>in_world := others [op] (in_world ig)\<rparr>) ws ig'"
    "\<forall>w \<in> set ws. \<not> fst w" by auto
  then show ?case by (intro conjI exI [of _ ws]) (auto simp: wrote_def)
next
  case (3 env tid s os ig)
  then obtain ws where ws: "in_calls ig' = in_calls ig" "wrote (write_state False tid s ig) ws ig'"
    "\<forall>w \<in> set ws. \<not> fst w" by auto
  from wrote_trans [OF wrote_write ws(2)] ws(1,3) show ?case
    by (intro conjI exI [of _ "(False, tid, s) # ws"]) auto
next
  case (4 env e os ig)
  show ?case
  proof (cases "in_store ig")
    case None
    with 4 show ?thesis by simp
  next
    case (Some st)
    with "4.prems" obtain st' where st': "record_event (ie_encoder env) (ie_key_order env) e st = Some st'"
      "interfere env os (ig\<lparr>in_store := Some st'\<rparr>) = Some ig'" by (auto simp: bind_eq_Some_conv)
    from "4.IH"(2) [OF Some st'(1,2)] obtain ws where "in_calls ig' = in_calls ig"
      "wrote (ig\<lparr>in_store := Some st'\<rparr>) ws ig'" "\<forall>w \<in> set ws. \<not> fst w" by auto
    then show ?thesis by (intro conjI exI [of _ ws]) (auto simp: wrote_def)
  qed
qed

lemma in_rpc_frames:
  assumes "in_rpc env call ig = Some (a, ig')"
  shows "in_calls ig' = in_calls ig @ [call]" "a = ingest_answer env (in_calls ig @ [call])"
    "\<exists>ws. wrote ig ws ig' \<and> (\<forall>w \<in> set ws. \<not> fst w)"
proof -
  let ?ig = "ig\<lparr>in_world := (in_world ig)\<lparr>wd_calls := in_calls ig @ [call]\<rparr>\<rparr>"
  have i: "interfere env (fst (ie_client env (in_calls ig @ [call]))) ?ig = Some ig'"
    and "a = snd (ie_client env (in_calls ig @ [call]))"
    using assms by (auto simp: in_rpc_def Let_def split: prod.splits)
  then show "a = ingest_answer env (in_calls ig @ [call])" by (simp add: ingest_answer_def)
  from interfere_frames [OF i] show "in_calls ig' = in_calls ig @ [call]"
    "\<exists>ws. wrote ig ws ig' \<and> (\<forall>w \<in> set ws. \<not> fst w)" by (auto simp: wrote_def)
qed

lemma pause_frames:
  assumes "pause env ig = Some ig'"
  shows "in_calls ig' = in_calls ig" "\<exists>ws. wrote ig ws ig' \<and> (\<forall>w \<in> set ws. \<not> fst w)"
  using interfere_frames [OF assms [unfolded pause_def]] by auto

section \<open>The attempts\<close>

abbreviation resume_call :: "string \<Rightarrow> rpc_call" where
  "resume_call tid \<equiv> Request ''thread/resume'' (thread_params tid)"

abbreviation read_thread_call :: "string \<Rightarrow> rpc_call" where
  "read_thread_call tid \<equiv> Request ''thread/read'' (read_params tid)"

text \<open>The decision about the answer to attempt \<open>Suc k\<close> of the calls made from a state on.\<close>

definition decision_at :: "ingest_env \<Rightarrow> string \<Rightarrow> nat \<Rightarrow> rpc_call list \<Rightarrow> nat \<Rightarrow> nat \<Rightarrow> resume_decision" where
  "decision_at env tid limit calls attempt k =
     decide_resume env (attempt + k) limit (ingest_answer env (calls @ replicate (Suc k) (resume_call tid)))"

fun resume_end :: "resume_decision \<Rightarrow> discovery_outcome option \<Rightarrow> bool" where
  "resume_end ResumeDone out \<longleftrightarrow> out = None"
| "resume_end ResumeRetry out \<longleftrightarrow> False"
| "resume_end ResumeEphemeral out \<longleftrightarrow> out = Some OutEphemeral"
| "resume_end (ResumeFailed d) out \<longleftrightarrow> out = Some (OutFailed d)"

text \<open>The states the discovery itself writes.\<close>

abbreviation own_states :: "(bool \<times> string \<times> subscription_state) list \<Rightarrow> subscription_state list" where
  "own_states ws \<equiv> map (\<lambda>w. snd (snd w)) (filter fst ws)"

fun end_state :: "discovery_outcome \<Rightarrow> subscription_state list" where
  "end_state OutEphemeral = [Ephemeral]"
| "end_state (OutFailed d) = [SubscriptionFailed d]"
| "end_state _ = []"

lemma decide_retry_limit: "decide_resume env attempt limit a = ResumeRetry \<Longrightarrow> attempt < limit"
  by (auto simp: decide_resume_def Let_def split: sum.splits request_error.splits if_splits)

lemma own_states_others: "\<forall>w \<in> set ws. \<not> fst w \<Longrightarrow> filter fst ws = []"
  by (simp add: filter_empty_conv)

lemma resume_loop_spec:
  "resume_loop env tid source attempt ig = Some (out, ig') \<Longrightarrow>
     \<exists>n ws. in_calls ig' = in_calls ig @ replicate (Suc n) (resume_call tid) \<and>
       n \<le> ic_resume_retry_limit (in_config ig) - attempt \<and>
       (\<forall>k < n. decision_at env tid (ic_resume_retry_limit (in_config ig)) (in_calls ig) attempt k = ResumeRetry) \<and>
       resume_end (decision_at env tid (ic_resume_retry_limit (in_config ig)) (in_calls ig) attempt n) out \<and>
       wrote ig ws ig' \<and> (\<forall>w \<in> set ws. fst w \<longrightarrow> fst (snd w) = tid) \<and>
       (\<exists>retries. own_states ws = retries @ (case out of None \<Rightarrow> [] | Some o1 \<Rightarrow> end_state o1) \<and>
          list_all is_retained retries)"
proof (induction env tid source attempt ig arbitrary: out ig' rule: resume_loop.induct)
  case (1 env tid source attempt ig)
  let ?limit = "ic_resume_retry_limit (in_config ig)"
  obtain a ig1 where r: "in_rpc env (resume_call tid) ig = Some (a, ig1)"
    using "1.prems" by (subst (asm) resume_loop.simps) (auto split: option.splits)
  note f1 = in_rpc_frames [OF r]
  obtain us where us: "wrote ig us ig1" "\<forall>w \<in> set us. \<not> fst w" using f1(3) by blast
  have dec: "decide_resume env attempt ?limit a = decision_at env tid ?limit (in_calls ig) attempt 0"
    by (simp add: decision_at_def f1(2))
  have stop: ?case
    if d: "decide_resume env attempt ?limit a = d" "resume_end d out" "in_calls ig' = in_calls ig1"
      and w: "wrote ig1 vs ig'" "filter fst vs = vs" "\<forall>v \<in> set vs. fst (snd v) = tid"
        "map (\<lambda>w. snd (snd w)) vs = (case out of None \<Rightarrow> [] | Some o1 \<Rightarrow> end_state o1)" for d vs
  proof (intro exI [of _ "0 :: nat"] exI [of _ "us @ vs"] conjI)
    show "in_calls ig' = in_calls ig @ replicate (Suc 0) (resume_call tid)" by (simp add: d(3) f1(1))
    show "resume_end (decision_at env tid ?limit (in_calls ig) attempt 0) out" using d(1,2) dec by simp
    show "wrote ig (us @ vs) ig'" by (rule wrote_trans [OF us(1) w(1)])
    show "\<forall>w \<in> set (us @ vs). fst w \<longrightarrow> fst (snd w) = tid" using us(2) w(3) by auto
    show "\<exists>retries. own_states (us @ vs) = retries @ (case out of None \<Rightarrow> [] | Some o1 \<Rightarrow> end_state o1) \<and>
        list_all is_retained retries"
      using w(2,4) by (intro exI [of _ "[]"]) (simp add: own_states_others [OF us(2)])
  qed auto
  show ?case
  proof (cases "decide_resume env attempt ?limit a")
    case ResumeDone
    with "1.prems" r have "out = None" "ig' = ig1" by (simp_all add: resume_loop.simps [of env tid source attempt ig])
    with ResumeDone wrote_refl show ?thesis by (intro stop [of ResumeDone "[]"]) auto
  next
    case ResumeEphemeral
    with "1.prems" r have "out = Some OutEphemeral"
      "ig' = in_reducer_do (cancel_subscription tid) (set_state tid Ephemeral ig1)"
      by (simp_all add: resume_loop.simps [of env tid source attempt ig])
    with ResumeEphemeral wrote_write show ?thesis
      by (intro stop [of ResumeEphemeral "[(True, tid, Ephemeral)]"]) auto
  next
    case (ResumeFailed d)
    with "1.prems" r have "out = Some (OutFailed d)"
      "ig' = in_reducer_do (cancel_subscription tid) (set_state tid (SubscriptionFailed d) ig1)"
      by (simp_all add: resume_loop.simps [of env tid source attempt ig])
    with ResumeFailed wrote_write show ?thesis
      by (intro stop [of "ResumeFailed d" "[(True, tid, SubscriptionFailed d)]"]) auto
  next
    case ResumeRetry
    let ?w1 = "set_state tid (RetryWait (Suc attempt)) ig1"
    obtain ig2 where p: "pause env ?w1 = Some ig2"
      using "1.prems" r ResumeRetry by (subst (asm) resume_loop.simps) (auto split: option.splits)
    let ?w2 = "set_state tid (Subscribing source (Suc attempt)) ig2"
    have rec: "resume_loop env tid source (Suc attempt) ?w2 = Some (out, ig')"
      using "1.prems" r ResumeRetry p by (simp add: resume_loop.simps [of env tid source attempt ig])
    note f2 = pause_frames [OF p]
    obtain vs where vs: "wrote ?w1 vs ig2" "\<forall>w \<in> set vs. \<not> fst w" using f2(2) by blast
    have calls: "in_calls ?w2 @ replicate k (resume_call tid) = in_calls ig @ replicate (Suc k) (resume_call tid)" for k
      by (simp add: f2(1) f1(1))
    have cfg: "in_config ?w2 = in_config ig" using us(1) vs(1) by (simp add: wrote_def write_state_def)
    have shift: "decision_at env tid ?limit (in_calls ?w2) (Suc attempt) k =
        decision_at env tid ?limit (in_calls ig) attempt (Suc k)" for k
      unfolding decision_at_def calls by simp
    from "1.IH" [OF r refl ResumeRetry p rec] obtain n ws where ih:
      "in_calls ig' = in_calls ?w2 @ replicate (Suc n) (resume_call tid)"
      "n \<le> ?limit - Suc attempt"
      "\<forall>k < n. decision_at env tid ?limit (in_calls ?w2) (Suc attempt) k = ResumeRetry"
      "resume_end (decision_at env tid ?limit (in_calls ?w2) (Suc attempt) n) out"
      "wrote ?w2 ws ig'" "\<forall>w \<in> set ws. fst w \<longrightarrow> fst (snd w) = tid"
      "\<exists>retries. own_states ws = retries @ (case out of None \<Rightarrow> [] | Some o1 \<Rightarrow> end_state o1) \<and>
          list_all is_retained retries"
      unfolding cfg by blast
    have lt: "attempt < ?limit" by (rule decide_retry_limit [OF ResumeRetry])
    let ?ws = "us @ [(True, tid, RetryWait (Suc attempt))] @ vs @ [(True, tid, Subscribing source (Suc attempt))] @ ws"
    from ih(7) obtain retries where retries:
      "own_states ws = retries @ (case out of None \<Rightarrow> [] | Some o1 \<Rightarrow> end_state o1)" "list_all is_retained retries"
      by blast
    show ?thesis
    proof (intro exI [of _ "Suc n"] exI [of _ ?ws] conjI)
      show "in_calls ig' = in_calls ig @ replicate (Suc (Suc n)) (resume_call tid)" using ih(1) calls by simp
      show "Suc n \<le> ?limit - attempt" using ih(2) lt by linarith
      show "\<forall>k < Suc n. decision_at env tid ?limit (in_calls ig) attempt k = ResumeRetry"
        using ih(3) ResumeRetry dec unfolding shift by (auto simp: less_Suc_eq_0_disj)
      show "resume_end (decision_at env tid ?limit (in_calls ig) attempt (Suc n)) out"
        using ih(4) unfolding shift .
      show "wrote ig ?ws ig'"
        by (rule wrote_trans [OF us(1) wrote_trans [OF wrote_write wrote_trans [OF vs(1) wrote_trans [OF wrote_write ih(5)]]]])
      show "\<forall>w \<in> set ?ws. fst w \<longrightarrow> fst (snd w) = tid" using us(2) vs(2) ih(6) by auto
      show "\<exists>retries. own_states ?ws = retries @ (case out of None \<Rightarrow> [] | Some o1 \<Rightarrow> end_state o1) \<and>
          list_all is_retained retries"
        using retries by (intro exI [of _ "RetryWait (Suc attempt) # Subscribing source (Suc attempt) # retries"])
          (simp add: own_states_others [OF us(2)] own_states_others [OF vs(2)])
    qed
  qed
qed

lemma wrote_store [simp]: "wrote ig ws (ig'\<lparr>in_store := st\<rparr>) \<longleftrightarrow> wrote ig ws ig'"
  by (simp add: wrote_def)

lemma read_after_resume_frames:
  assumes "read_after_resume env tid ig = Some ig'"
  shows "in_calls ig' = in_calls ig @ [read_thread_call tid]"
    "\<exists>ws. wrote ig ws ig' \<and> (\<forall>w \<in> set ws. \<not> fst w)"
proof -
  obtain a ig1 where r: "in_rpc env (read_thread_call tid) ig = Some (a, ig1)"
    using assms by (auto simp: read_after_resume_def split: option.splits)
  have "in_calls ig' = in_calls ig1 \<and> (\<forall>ws. wrote ig ws ig1 \<longrightarrow> wrote ig ws ig')"
    using assms r
    by (auto simp: read_after_resume_def Let_def split: option.splits sum.splits)
  with in_rpc_frames [OF r] show "in_calls ig' = in_calls ig @ [read_thread_call tid]"
    "\<exists>ws. wrote ig ws ig' \<and> (\<forall>w \<in> set ws. \<not> fst w)" by auto
qed

lemma discover_refused:
  assumes "discover env tid source ig = Some (out, ig')"
  shows "is_some_and (in_states ig tid) is_retained \<Longrightarrow> out = OutAlreadyManaged \<and> ig' = ig"
    and "\<not> is_some_and (in_states ig tid) is_retained \<Longrightarrow>
      ic_subscription_cap (in_config ig) \<le> retained_count (in_states ig) \<Longrightarrow>
      out = OutCapacityDegraded \<and> ig' = set_state tid CapacityDegraded ig"
  using assms by (auto simp: discover_def claim_def)

lemma discover_claimed:
  assumes "discover env tid source ig = Some (out, ig')"
    and "\<not> is_some_and (in_states ig tid) is_retained"
    and "retained_count (in_states ig) < ic_subscription_cap (in_config ig)"
  shows "\<exists>n ws. in_calls ig' = in_calls ig @ replicate (Suc n) (resume_call tid) @
        (if out = OutSubscribed then [read_thread_call tid] else []) \<and>
      n \<le> ic_resume_retry_limit (in_config ig) - 1 \<and>
      (\<forall>k < n. decision_at env tid (ic_resume_retry_limit (in_config ig)) (in_calls ig) 1 k = ResumeRetry) \<and>
      resume_end (decision_at env tid (ic_resume_retry_limit (in_config ig)) (in_calls ig) 1 n)
        (if out = OutSubscribed then None else Some out) \<and>
      wrote ig ((True, tid, Subscribing source 1) # ws) ig' \<and> (\<forall>w \<in> set ws. fst w \<longrightarrow> fst (snd w) = tid) \<and>
      (\<exists>retries. own_states ws = retries @ (if out = OutSubscribed then [Subscribed] else end_state out) \<and>
         list_all is_retained retries)"
proof -
  let ?ig1 = "set_state tid (Subscribing source 1) ig"
  let ?limit = "ic_resume_retry_limit (in_config ig)"
  have claim: "claim tid source ig = (None, ?ig1)" using assms(2,3) by (simp add: claim_def)
  obtain res ig2 where loop: "resume_loop env tid source 1 (in_reducer_do (begin_subscription tid) ?ig1) = Some (res, ig2)"
    using assms(1) claim by (auto simp: discover_def split: option.splits)
  have cfg: "in_config (in_reducer_do (begin_subscription tid) ?ig1) = in_config ig" by (simp add: in_reducer_do_def)
  from resume_loop_spec [OF loop] obtain n us where us:
    "in_calls ig2 = in_calls ig @ replicate (Suc n) (resume_call tid)"
    "n \<le> ?limit - 1" "\<forall>k < n. decision_at env tid ?limit (in_calls ig) 1 k = ResumeRetry"
    "resume_end (decision_at env tid ?limit (in_calls ig) 1 n) res"
    "wrote ?ig1 us ig2" "\<forall>w \<in> set us. fst w \<longrightarrow> fst (snd w) = tid"
    "\<exists>retries. own_states us = retries @ (case res of None \<Rightarrow> [] | Some o1 \<Rightarrow> end_state o1) \<and>
          list_all is_retained retries"
    unfolding cfg by auto
  have first: "wrote ig ((True, tid, Subscribing source 1) # us) ig2"
    using wrote_trans [OF wrote_write us(5)] by simp
  show ?thesis
  proof (cases res)
    case (Some o1)
    with assms(1) claim loop have "out = o1" "ig' = ig2" by (auto simp: discover_def)
    moreover have "o1 \<noteq> OutSubscribed" using us(4) Some by (cases "decision_at env tid ?limit (in_calls ig) 1 n") auto
    ultimately show ?thesis
      using us first Some by (intro exI [of _ n] exI [of _ us]) simp
  next
    case None
    let ?ig3 = "set_state tid Subscribed (in_reducer_do (finish_subscription tid) ig2)"
    from assms(1) claim loop None have out: "out = OutSubscribed" "read_after_resume env tid ?ig3 = Some ig'"
      by (auto simp: discover_def)
    note f = read_after_resume_frames [OF out(2)]
    obtain vs where vs: "wrote ?ig3 vs ig'" "\<forall>w \<in> set vs. \<not> fst w" using f(2) by blast
    have mid: "wrote ig2 [(True, tid, Subscribed)] ?ig3"
      using wrote_write [of "in_reducer_do (finish_subscription tid) ig2"] by simp
    let ?ws = "us @ [(True, tid, Subscribed)] @ vs"
    have all: "wrote ig ((True, tid, Subscribing source 1) # ?ws) ig'"
      using wrote_trans [OF first wrote_trans [OF mid vs(1)]] by simp
    from us(7) None obtain retries where retries: "own_states us = retries" "list_all is_retained retries" by auto
    show ?thesis
    proof (intro exI [of _ n] exI [of _ ?ws] conjI)
      show "in_calls ig' = in_calls ig @ replicate (Suc n) (resume_call tid) @
          (if out = OutSubscribed then [read_thread_call tid] else [])"
        using f(1) us(1) by (simp add: out(1))
      show "resume_end (decision_at env tid ?limit (in_calls ig) 1 n) (if out = OutSubscribed then None else Some out)"
        using us(4) None out(1) by simp
      show "\<forall>w \<in> set ?ws. fst w \<longrightarrow> fst (snd w) = tid" using us(6) vs(2) by auto
      show "\<exists>retries. own_states ?ws = retries @ (if out = OutSubscribed then [Subscribed] else end_state out) \<and>
         list_all is_retained retries"
        using retries out(1) by (intro exI [of _ retries]) (simp add: own_states_others [OF vs(2)])
    qed (use us(2,3) all in auto)
  qed
qed

section \<open>Capacity under interference\<close>

text \<open>A write keeps to the capacity: it retains only a thread that is retained already, or one more below it.\<close>

definition legal_write :: "nat \<Rightarrow> (string \<rightharpoonup> subscription_state) \<Rightarrow> string \<Rightarrow> subscription_state \<Rightarrow> bool" where
  "legal_write cap m tid s \<longleftrightarrow>
     (is_retained s \<longrightarrow> is_some_and (m tid) is_retained \<or> retained_count m < cap)"

text \<open>The writes of the chosen owners all keep to it, each in the map at its time.\<close>

fun writes_legal :: "(bool \<Rightarrow> bool) \<Rightarrow> nat \<Rightarrow> (string \<rightharpoonup> subscription_state) \<Rightarrow>
    (bool \<times> string \<times> subscription_state) list \<Rightarrow> bool" where
  "writes_legal whose cap m [] = True"
| "writes_legal whose cap m (w # ws) =
     ((whose (fst w) \<longrightarrow> legal_write cap m (fst (snd w)) (snd (snd w))) \<and>
      writes_legal whose cap (m(fst (snd w) \<mapsto> snd (snd w))) ws)"

lemma retained_set_update:
  "{k \<in> dom (m(tid \<mapsto> s)). is_some_and ((m(tid \<mapsto> s)) k) is_retained} =
     (if is_retained s then insert tid {k \<in> dom m. is_some_and (m k) is_retained}
      else {k \<in> dom m. is_some_and (m k) is_retained} - {tid})"
  by (auto split: if_splits)

lemma legal_write_count:
  assumes "finite (dom m)" and "legal_write cap m tid s" and "retained_count m \<le> cap"
  shows "retained_count (m(tid \<mapsto> s)) \<le> cap"
proof -
  let ?R = "{k \<in> dom m. is_some_and (m k) is_retained}"
  have fin: "finite ?R" using assms(1) by simp
  show ?thesis
  proof (cases "is_retained s")
    case True
    show ?thesis
    proof (cases "tid \<in> ?R")
      case True
      then show ?thesis
        using assms(3) \<open>is_retained s\<close> unfolding retained_count_def retained_set_update by (simp add: insert_absorb)
    next
      case False
      then have "\<not> is_some_and (m tid) is_retained" by (cases "m tid") auto
      with assms(2) True have "card ?R < cap" by (simp add: legal_write_def retained_count_def)
      with fin True show ?thesis unfolding retained_count_def retained_set_update by (simp add: card_insert_if)
    qed
  next
    case False
    have "card (?R - {tid}) \<le> card ?R" by (rule card_mono [OF fin]) auto
    with assms(3) False show ?thesis unfolding retained_count_def retained_set_update by simp
  qed
qed

lemma writes_legal_count:
  "writes_legal (\<lambda>_. True) cap m ws \<Longrightarrow> finite (dom m) \<Longrightarrow> retained_count m \<le> cap \<Longrightarrow>
     retained_count (states_after (take n ws) m) \<le> cap"
proof (induction ws arbitrary: m n)
  case (Cons w ws)
  show ?case
  proof (cases n)
    case (Suc k)
    from Cons.prems have "retained_count (m(fst (snd w) \<mapsto> snd (snd w))) \<le> cap"
      by (intro legal_write_count) simp_all
    with Cons.IH [of "m(fst (snd w) \<mapsto> snd (snd w))" k] Cons.prems Suc show ?thesis
      by (simp del: fun_upd_apply)
  qed (use Cons.prems in simp)
qed simp

lemma own_writes_legal:
  "is_some_and (m tid) is_retained \<Longrightarrow> \<forall>w \<in> set ws. fst (snd w) = tid \<longleftrightarrow> fst w \<Longrightarrow>
     own_states ws = retries @ final \<Longrightarrow> list_all is_retained retries \<Longrightarrow> length final \<le> 1 \<Longrightarrow>
     writes_legal Not cap m ws \<Longrightarrow> writes_legal (\<lambda>_. True) cap m ws"
proof (induction ws arbitrary: m retries)
  case (Cons w ws)
  obtain own k s where w: "w = (own, k, s)" by (cases w)
  show ?case
  proof (cases own)
    case False
    with Cons.prems w have "k \<noteq> tid" by auto
    with Cons.prems(1) have "is_some_and ((m(k \<mapsto> s)) tid) is_retained" by simp
    with Cons.IH [of "m(k \<mapsto> s)" retries] Cons.prems False show ?thesis
      by (simp add: w del: fun_upd_apply)
  next
    case True
    with Cons.prems w have k: "k = tid" by auto
    show ?thesis
    proof (cases retries)
      case (Cons r rs)
      with Cons.prems True w k have s: "s = r" "is_retained s" "own_states ws = rs @ final" by auto
      then have "is_some_and ((m(tid \<mapsto> s)) tid) is_retained" by simp
      with Cons.IH [of "m(tid \<mapsto> s)" rs] Cons.prems Cons True w k s show ?thesis
        by (simp add: legal_write_def del: fun_upd_apply)
    next
      case Nil
      with Cons.prems True w have "filter fst ws = []" by (cases final) auto
      then have none: "\<forall>w \<in> set ws. \<not> fst w" by (simp add: filter_empty_conv)
      have others: "writes_legal Not cap m ws \<Longrightarrow> \<forall>w \<in> set ws. \<not> fst w \<Longrightarrow> writes_legal (\<lambda>_. True) cap m ws"
        for m and ws :: "(bool \<times> string \<times> subscription_state) list"
        by (induction ws arbitrary: m) auto
      show ?thesis using Cons.prems True w k others [OF _ none] by (simp add: legal_write_def)
    qed
  qed
qed simp

section \<open>Other threads\<close>

text \<open>No other task writes the state of the thread.\<close>

definition leaves_alone :: "ingest_env \<Rightarrow> string \<Rightarrow> bool" where
  "leaves_alone env tid \<longleftrightarrow>
     (\<forall>calls s. OnState tid s \<notin> set (fst (ie_client env calls)) \<and> OnState tid s \<notin> set (ie_sleep env calls))"

lemma interfere_leaves:
  "interfere env os ig = Some ig' \<Longrightarrow> \<forall>s. OnState tid s \<notin> set os \<Longrightarrow> in_states ig' tid = in_states ig tid"
proof (induction env os ig rule: interfere.induct)
  case (3 env k s os ig)
  then show ?case by (auto simp: write_state_def)
next
  case (4 env e os ig)
  then show ?case by (fastforce simp: bind_eq_Some_conv split: option.splits)
qed auto

lemma in_rpc_leaves:
  assumes "in_rpc env call ig = Some (a, ig')" and "leaves_alone env tid"
  shows "in_states ig' tid = in_states ig tid"
proof -
  let ?ig = "ig\<lparr>in_world := (in_world ig)\<lparr>wd_calls := in_calls ig @ [call]\<rparr>\<rparr>"
  have i: "interfere env (fst (ie_client env (in_calls ig @ [call]))) ?ig = Some ig'"
    using assms(1) by (auto simp: in_rpc_def Let_def split: prod.splits)
  from interfere_leaves [OF i, of tid] assms(2) show ?thesis by (simp add: leaves_alone_def)
qed

lemma pause_leaves: "pause env ig = Some ig' \<Longrightarrow> leaves_alone env tid \<Longrightarrow> in_states ig' tid = in_states ig tid"
  unfolding pause_def leaves_alone_def by (auto dest: interfere_leaves)

lemma in_states_frames [simp]:
  "in_states (in_reducer_do f ig) = in_states ig"
  "k \<noteq> tid \<Longrightarrow> in_states (write_state own k s ig) tid = in_states ig tid"
  "in_states (write_state own tid s ig) tid = Some s"
  by (simp_all add: in_reducer_do_def write_state_def)

lemma resume_loop_leaves:
  "resume_loop env k source attempt ig = Some (out, ig') \<Longrightarrow> leaves_alone env tid \<Longrightarrow> k \<noteq> tid \<Longrightarrow>
     in_states ig' tid = in_states ig tid"
proof (induction env k source attempt ig arbitrary: out ig' rule: resume_loop.induct)
  case (1 env k source attempt ig)
  let ?limit = "ic_resume_retry_limit (in_config ig)"
  obtain a ig1 where r: "in_rpc env (resume_call k) ig = Some (a, ig1)"
    using "1.prems"(1) by (subst (asm) resume_loop.simps) (auto split: option.splits)
  note same = in_rpc_leaves [OF r "1.prems"(2)]
  show ?case
  proof (cases "decide_resume env attempt ?limit a")
    case ResumeRetry
    then obtain ig2 where p: "pause env (set_state k (RetryWait (Suc attempt)) ig1) = Some ig2"
      using "1.prems"(1) r by (subst (asm) resume_loop.simps) (auto split: option.splits)
    have "resume_loop env k source (Suc attempt) (set_state k (Subscribing source (Suc attempt)) ig2) = Some (out, ig')"
      using "1.prems"(1) r ResumeRetry p by (simp add: resume_loop.simps [of env k source attempt ig])
    from "1.IH" [OF r refl ResumeRetry p this "1.prems"(2,3)] pause_leaves [OF p "1.prems"(2)] same "1.prems"(3)
    show ?thesis by simp
  qed (use "1.prems" r same in \<open>auto simp: resume_loop.simps [of env k source attempt ig]\<close>)
qed

lemma read_after_resume_leaves:
  assumes "read_after_resume env k ig = Some ig'" and "leaves_alone env tid"
  shows "in_states ig' tid = in_states ig tid"
proof -
  obtain a ig1 where r: "in_rpc env (read_thread_call k) ig = Some (a, ig1)"
    using assms by (auto simp: read_after_resume_def split: option.splits)
  have "in_states ig' = in_states ig1"
    using assms(1) r by (auto simp: read_after_resume_def Let_def split: option.splits sum.splits)
  with in_rpc_leaves [OF r assms(2)] show ?thesis by simp
qed

lemma discover_leaves:
  assumes "discover env k source ig = Some (out, ig')" and "leaves_alone env tid" and "k \<noteq> tid"
  shows "in_states ig' tid = in_states ig tid"
proof -
  consider (refused) o1 ig1 where "claim k source ig = (Some o1, ig1)"
    | (claimed) ig1 where "claim k source ig = (None, ig1)" by (metis old.prod.exhaust option.exhaust)
  then show ?thesis
  proof cases
    case refused
    then show ?thesis using assms(1,3) by (auto simp: discover_def claim_def split: if_splits)
  next
    case claimed
    then have one: "in_states ig1 tid = in_states ig tid" using assms(3) by (auto simp: claim_def split: if_splits)
    obtain res ig2 where loop: "resume_loop env k source 1 (in_reducer_do (begin_subscription k) ig1) = Some (res, ig2)"
      using assms(1) claimed by (auto simp: discover_def split: option.splits)
    have two: "in_states ig2 tid = in_states ig1 tid" using resume_loop_leaves [OF loop assms(2,3)] by simp
    show ?thesis
    proof (cases res)
      case None
      with assms(1) claimed loop have "read_after_resume env k
          (set_state k Subscribed (in_reducer_do (finish_subscription k) ig2)) = Some ig'"
        by (auto simp: discover_def)
      from read_after_resume_leaves [OF this assms(2)] one two assms(3) show ?thesis by simp
    next
      case (Some o1)
      with assms(1) claimed loop one two show ?thesis by (auto simp: discover_def)
    qed
  qed
qed

section \<open>Bounds\<close>

lemma discover_calls:
  assumes "discover env tid source ig = Some (out, ig')"
  shows "\<exists>cs. in_calls ig' = in_calls ig @ cs \<and> set cs \<subseteq> {resume_call tid, read_thread_call tid} \<and>
    length cs \<le> max 1 (ic_resume_retry_limit (in_config ig)) + 1 \<and>
    (is_some_and (in_states ig tid) is_retained \<longrightarrow> cs = [])"
proof (cases "is_some_and (in_states ig tid) is_retained \<or>
    ic_subscription_cap (in_config ig) \<le> retained_count (in_states ig)")
  case True
  with discover_refused [OF assms] have "ig' = ig \<or> ig' = set_state tid CapacityDegraded ig" by blast
  then show ?thesis by (intro exI [of _ "[]"]) auto
next
  case False
  with discover_claimed [OF assms] obtain n where n:
    "in_calls ig' = in_calls ig @ replicate (Suc n) (resume_call tid) @
        (if out = OutSubscribed then [read_thread_call tid] else [])"
    "n \<le> ic_resume_retry_limit (in_config ig) - 1" by auto
  show ?thesis
    by (rule exI [of _ "replicate (Suc n) (resume_call tid) @
        (if out = OutSubscribed then [read_thread_call tid] else [])"]) (use n False in auto)
qed

lemma discover_config: "discover env tid source ig = Some (out, ig') \<Longrightarrow>
    in_config ig' = in_config ig \<and> in_watermark ig' = in_watermark ig"
proof -
  assume d: "discover env tid source ig = Some (out, ig')"
  show ?thesis
  proof (cases "is_some_and (in_states ig tid) is_retained \<or>
      ic_subscription_cap (in_config ig) \<le> retained_count (in_states ig)")
    case True
    with discover_refused [OF d] have "ig' = ig \<or> ig' = set_state tid CapacityDegraded ig" by blast
    then show ?thesis by (auto simp: write_state_def)
  next
    case False
    with discover_claimed [OF d] show ?thesis by (auto simp: wrote_def)
  qed
qed

lemma reconcile_candidates_spec:
  "reconcile_candidates env tids ig = Some (outs, ig') \<Longrightarrow>
     \<exists>cs. in_calls ig' = in_calls ig @ cs \<and>
       length cs \<le> length tids * (max 1 (ic_resume_retry_limit (in_config ig)) + 2) \<and>
       subseq (map fst outs) tids \<and> in_config ig' = in_config ig \<and> in_watermark ig' = in_watermark ig \<and>
       (leaves_alone env k \<longrightarrow> is_some_and (in_states ig k) is_retained \<longrightarrow>
          resume_call k \<notin> set cs \<and> in_states ig' k = in_states ig k)"
proof (induction tids arbitrary: ig outs)
  case Nil
  then show ?case by (intro exI [of _ "[]"]) simp
next
  case (Cons tid tids)
  let ?m = "max 1 (ic_resume_retry_limit (in_config ig)) + 2"
  obtain a ig1 where r: "in_rpc env (read_thread_call tid) ig = Some (a, ig1)"
    using Cons.prems by (auto split: option.splits)
  note f1 = in_rpc_frames [OF r]
  have c1: "in_config ig1 = in_config ig" "in_watermark ig1 = in_watermark ig" using f1(3) by (auto simp: wrote_def)
  show ?case
  proof (cases "\<exists>thread. (case a of Inl _ \<Rightarrow> None | Inr v \<Rightarrow> jget ''thread'' v) = Some thread \<and> thread_is_active thread")
    case False
    then have "reconcile_candidates env tids ig1 = Some (outs, ig')"
      using Cons.prems r by (auto split: option.splits if_splits)
    from Cons.IH [OF this] obtain cs where cs: "in_calls ig' = in_calls ig1 @ cs"
      "length cs \<le> length tids * ?m" "subseq (map fst outs) tids"
      "in_config ig' = in_config ig" "in_watermark ig' = in_watermark ig"
      "leaves_alone env k \<longrightarrow> is_some_and (in_states ig1 k) is_retained \<longrightarrow>
          resume_call k \<notin> set cs \<and> in_states ig' k = in_states ig1 k" using c1 by auto
    show ?thesis
      by (rule exI [of _ "read_thread_call tid # cs"])
        (use cs f1(1) in_rpc_leaves [OF r, of k] in \<open>auto intro: subseq_order.order_trans\<close>)
  next
    case True
    then obtain thread ig2 o1 outs2 where
      d: "discover env tid SourceReconciliation (in_reducer_do (reconcile_thread thread) ig1) = Some (o1, ig2)"
      and rest: "reconcile_candidates env tids ig2 = Some (outs2, ig')" and outs: "outs = (tid, o1) # outs2"
      using Cons.prems r by (auto split: option.splits)
    have pre: "in_config (in_reducer_do (reconcile_thread thread) ig1) = in_config ig"
      "in_watermark (in_reducer_do (reconcile_thread thread) ig1) = in_watermark ig" using c1 by (simp_all add: in_reducer_do_def)
    from discover_calls [OF d] obtain ds where ds: "in_calls ig2 = in_calls ig1 @ ds"
      "set ds \<subseteq> {resume_call tid, read_thread_call tid}"
      "length ds \<le> max 1 (ic_resume_retry_limit (in_config ig)) + 1"
      "is_some_and (in_states ig1 tid) is_retained \<Longrightarrow> ds = []" unfolding pre by auto
    have c2: "in_config ig2 = in_config ig" "in_watermark ig2 = in_watermark ig" using discover_config [OF d] pre by auto
    from Cons.IH [OF rest] obtain cs where cs: "in_calls ig' = in_calls ig2 @ cs"
      "length cs \<le> length tids * ?m" "subseq (map fst outs2) tids"
      "in_config ig' = in_config ig" "in_watermark ig' = in_watermark ig"
      "leaves_alone env k \<longrightarrow> is_some_and (in_states ig2 k) is_retained \<longrightarrow>
          resume_call k \<notin> set cs \<and> in_states ig' k = in_states ig2 k" using c2 by auto
    have kept: "in_states ig2 k = in_states ig k \<and> resume_call k \<notin> set ds"
      if alone: "leaves_alone env k" and ret: "is_some_and (in_states ig k) is_retained"
    proof (cases "tid = k")
      case True
      with ret in_rpc_leaves [OF r alone] have "is_some_and (in_states ig1 tid) is_retained" by simp
      with discover_refused(1) [OF d] ds(4) in_rpc_leaves [OF r alone] True show ?thesis by simp
    next
      case False
      from discover_leaves [OF d alone False] in_rpc_leaves [OF r alone] ds(2) False show ?thesis
        by (auto simp: thread_params_def)
    qed
    show ?thesis
    proof (intro exI [of _ "read_thread_call tid # ds @ cs"] conjI impI)
      show "in_calls ig' = in_calls ig @ read_thread_call tid # ds @ cs" using cs(1) ds(1) f1(1) by simp
      show "length (read_thread_call tid # ds @ cs) \<le> length (tid # tids) * ?m" using cs(2) ds(3) by simp
      assume "leaves_alone env k" "is_some_and (in_states ig k) is_retained"
      with kept cs(6) show "resume_call k \<notin> set (read_thread_call tid # ds @ cs)" "in_states ig' k = in_states ig k"
        by simp_all
    qed (use cs outs in auto)
  qed
qed

lemma scan_page_spec:
  "length candidates < limit \<Longrightarrow> scan_page previous limit threads (newest, candidates, reached) = (newest', candidates', reached') \<Longrightarrow>
     length candidates' \<le> limit \<and> newest \<le> newest'"
proof (induction previous limit threads "(newest, candidates, reached)" arbitrary: newest candidates reached rule: scan_page.induct)
  case (2 previous limit thread rest newest candidates reached)
  show ?case
  proof (cases "get_str ''id'' thread")
    case None
    with 2 show ?thesis by simp
  next
    case (Some tid)
    let ?updated = "unwrap_or (numeric_timestamp (jget ''updatedAt'' thread)) 0"
    show ?thesis
    proof (cases "0 < previous \<and> ?updated \<le> previous \<or> limit \<le> length (candidates @ [tid])")
      case True
      with "2.prems" Some show ?thesis by (auto simp: Let_def split: if_splits)
    next
      case False
      then have "\<not> (0 < previous \<and> ?updated \<le> previous)" "\<not> limit \<le> length (candidates @ [tid])" by auto
      with "2.hyps"(2) [OF Some refl refl this] "2.prems" Some False have
        "length candidates' \<le> limit \<and> max newest ?updated \<le> newest'" by (simp add: Let_def)
      then show ?thesis by simp
    qed
  qed
qed simp

lemma scan_pages_spec:
  "scan_pages env previous pages cursor (newest, candidates) ig = Some (res, ig') \<Longrightarrow>
     length candidates \<le> ic_reconcile_candidate_limit (in_config ig) \<Longrightarrow>
     \<exists>cs ws. in_calls ig' = in_calls ig @ cs \<and> length cs \<le> pages \<and> (\<forall>c \<in> set cs. \<exists>p. c = Request ''thread/list'' p) \<and>
       wrote ig ws ig' \<and> (leaves_alone env k \<longrightarrow> in_states ig' k = in_states ig k) \<and>
       (case res of Inl _ \<Rightarrow> True | Inr (newest', candidates') \<Rightarrow>
          newest \<le> newest' \<and> length candidates' \<le> ic_reconcile_candidate_limit (in_config ig))"
proof (induction env previous pages cursor "(newest, candidates)" ig arbitrary: newest candidates res rule: scan_pages.induct)
  case (1 env previous cursor newest candidates ig)
  then show ?case using wrote_refl by (intro exI [of _ "[]"]) auto
next
  case (2 env previous pages cursor newest candidates ig)
  let ?limit = "ic_reconcile_candidate_limit (in_config ig)"
  let ?call = "Request ''thread/list'' (list_params cursor (in_config ig))"
  show ?case
  proof (cases "?limit \<le> length candidates")
    case True
    with "2.prems" wrote_refl show ?thesis by (intro exI [of _ "[]"]) auto
  next
    case less: False
    obtain a ig1 where r: "in_rpc env ?call ig = Some (a, ig1)" using "2.prems"(1) less by (auto split: option.splits)
    note f1 = in_rpc_frames [OF r]
    obtain us where us: "wrote ig us ig1" using f1(3) by blast
    have cfg: "in_config ig1 = in_config ig" using us by (simp add: wrote_def)
    show ?thesis
    proof (cases "\<exists>result threads. a = Inr result \<and> Option.bind (jget ''data'' result) as_array = Some threads")
      case False
      with "2.prems" less r have "ig' = ig1 \<and> (\<exists>e. res = Inl e)" by (auto split: sum.splits option.splits)
      with f1(1) us in_rpc_leaves [OF r, of k] show ?thesis by (intro exI [of _ "[?call]"] exI [of _ us]) auto
    next
      case True
      then obtain result threads where a: "a = Inr result" "Option.bind (jget ''data'' result) as_array = Some threads"
        by blast
      obtain n1 c1 reached where page: "scan_page previous ?limit threads (newest, candidates, False) = (n1, c1, reached)"
        using prod_cases3 by blast
      have ps: "length c1 \<le> ?limit \<and> newest \<le> n1" by (rule scan_page_spec [OF _ page]) (use less in simp)
      show ?thesis
      proof (cases "reached \<or> get_str ''nextCursor'' result = None")
        case True
        with "2.prems" less r a page cfg have "ig' = ig1 \<and> res = Inr (n1, c1)" by auto
        with f1(1) us ps in_rpc_leaves [OF r, of k] show ?thesis by (intro exI [of _ "[?call]"] exI [of _ us]) auto
      next
        case False
        with "2.prems" less r a page cfg have rec:
          "scan_pages env previous pages (get_str ''nextCursor'' result) (n1, c1) ig1 = Some (res, ig')" by auto
        have ih: "\<exists>cs ws. in_calls ig' = in_calls ig1 @ cs \<and> length cs \<le> pages \<and>
            (\<forall>c \<in> set cs. \<exists>p. c = Request ''thread/list'' p) \<and> wrote ig1 ws ig' \<and>
            (leaves_alone env k \<longrightarrow> in_states ig' k = in_states ig1 k) \<and>
            (case res of Inl _ \<Rightarrow> True | Inr (newest', candidates') \<Rightarrow>
              n1 \<le> newest' \<and> length candidates' \<le> ic_reconcile_candidate_limit (in_config ig1))"
          using "2.hyps" less r a page cfg False rec ps by fastforce
        then obtain cs ws where cs: "in_calls ig' = in_calls ig1 @ cs" "length cs \<le> pages"
          "\<forall>c \<in> set cs. \<exists>p. c = Request ''thread/list'' p" "wrote ig1 ws ig'"
          "leaves_alone env k \<longrightarrow> in_states ig' k = in_states ig1 k"
          "case res of Inl _ \<Rightarrow> True | Inr (newest', candidates') \<Rightarrow> n1 \<le> newest' \<and> length candidates' \<le> ?limit"
          unfolding cfg by blast
        show ?thesis
          by (rule exI [of _ "?call # cs"], rule exI [of _ "us @ ws"])
            (use cs f1(1) ps wrote_trans [OF us cs(4)] in_rpc_leaves [OF r, of k] in \<open>auto split: sum.splits\<close>)
      qed
    qed
  qed
qed

section \<open>Totality\<close>

text \<open>Nothing here waits forever: the store's operations return in every state within its caps.\<close>

definition stores_ok :: "ingest_env \<Rightarrow> ingestor \<Rightarrow> bool" where
  "stores_ok env ig \<longleftrightarrow> is_none_or (in_store ig) (store_inv (ie_encoder env))"

lemma stores_ok_frames [simp]:
  "stores_ok env (write_state own tid s ig) = stores_ok env ig"
  "stores_ok env (in_reducer_do f ig) = stores_ok env ig"
  "stores_ok env (ig\<lparr>in_world := w\<rparr>) = stores_ok env ig"
  "stores_ok env (ig\<lparr>in_watermark := n\<rparr>) = stores_ok env ig"
  by (simp_all add: stores_ok_def write_state_def in_reducer_do_def)

lemma interfere_total:
  assumes "hash_order (ie_key_order env)"
  shows "stores_ok env ig \<Longrightarrow> \<exists>ig'. interfere env os ig = Some ig' \<and> stores_ok env ig' \<and>
    (in_store ig' = None \<longleftrightarrow> in_store ig = None)"
proof (induction os arbitrary: ig)
  case (Cons o1 os)
  show ?case
  proof (cases o1)
    case (OnReducer op)
    with Cons.IH [of "ig\<lparr>in_world := others [op] (in_world ig)\<rparr>"] Cons.prems show ?thesis by simp
  next
    case (OnState tid s)
    have "in_store (write_state False tid s ig) = in_store ig" by (simp add: write_state_def)
    with OnState Cons.IH [of "write_state False tid s ig"] Cons.prems show ?thesis by simp
  next
    case (OnStore e)
    show ?thesis
    proof (cases "in_store ig")
      case None
      with OnStore Cons.IH [OF Cons.prems] show ?thesis by simp
    next
      case (Some st)
      with Cons.prems have "store_inv (ie_encoder env) st" by (simp add: stores_ok_def)
      from record_event_total [OF assms this] obtain st' where
        "record_event (ie_encoder env) (ie_key_order env) e st = Some st'" "store_inv (ie_encoder env) st'" by blast
      with Some OnStore Cons.IH [of "ig\<lparr>in_store := Some st'\<rparr>"] show ?thesis by (auto simp: stores_ok_def)
    qed
  qed
qed simp

lemma in_rpc_total:
  assumes "hash_order (ie_key_order env)" and "stores_ok env ig"
  shows "\<exists>a ig'. in_rpc env call ig = Some (a, ig') \<and> stores_ok env ig' \<and> (in_store ig' = None \<longleftrightarrow> in_store ig = None)"
  using interfere_total [OF assms(1), of "ig\<lparr>in_world := (in_world ig)\<lparr>wd_calls := in_calls ig @ [call]\<rparr>\<rparr>"
      "fst (ie_client env (in_calls ig @ [call]))"] assms(2)
  by (auto simp: in_rpc_def Let_def split: prod.splits)

lemma pause_total:
  assumes "hash_order (ie_key_order env)" and "stores_ok env ig"
  shows "\<exists>ig'. pause env ig = Some ig' \<and> stores_ok env ig' \<and> (in_store ig' = None \<longleftrightarrow> in_store ig = None)"
  unfolding pause_def by (rule interfere_total [OF assms])

lemma resume_loop_total:
  assumes order: "hash_order (ie_key_order env)"
  shows "stores_ok env ig \<Longrightarrow> \<exists>out ig'. resume_loop env tid source attempt ig = Some (out, ig') \<and>
    stores_ok env ig' \<and> (in_store ig' = None \<longleftrightarrow> in_store ig = None)"
  using order
proof (induction env tid source attempt ig rule: resume_loop.induct)
  case (1 env tid source attempt ig)
  obtain a ig1 where r: "in_rpc env (resume_call tid) ig = Some (a, ig1)" "stores_ok env ig1"
    "in_store ig1 = None \<longleftrightarrow> in_store ig = None" using in_rpc_total [OF "1.prems"(2,1), of "resume_call tid"] by auto
  have store: "in_store (write_state own k s x) = in_store x" "in_store (in_reducer_do f x) = in_store x"
    for own k s x f by (simp_all add: write_state_def in_reducer_do_def)
  show ?case
  proof (cases "decide_resume env attempt (ic_resume_retry_limit (in_config ig)) a")
    case ResumeRetry
    have "stores_ok env (set_state tid (RetryWait (Suc attempt)) ig1)" using r(2) by simp
    from pause_total [OF "1.prems"(2) this] obtain ig2 where
      p: "pause env (set_state tid (RetryWait (Suc attempt)) ig1) = Some ig2" "stores_ok env ig2"
      "in_store ig2 = None \<longleftrightarrow> in_store ig1 = None" by (auto simp: store)
    from "1.IH" [OF r(1) refl ResumeRetry p(1) _ "1.prems"(2)] p r ResumeRetry show ?thesis
      by (auto simp: resume_loop.simps [of env tid source attempt ig] store)
  qed (use r store in \<open>auto simp: resume_loop.simps [of env tid source attempt ig]\<close>)
qed

lemma read_after_resume_total:
  assumes order: "hash_order (ie_key_order env)" and ok: "stores_ok env ig"
  shows "\<exists>ig'. read_after_resume env tid ig = Some ig' \<and> stores_ok env ig'"
proof -
  obtain a ig1 where r: "in_rpc env (read_thread_call tid) ig = Some (a, ig1)" "stores_ok env ig1"
    using in_rpc_total [OF assms, of "read_thread_call tid"] by auto
  have anchor: "\<exists>b st'. record_reconstructed_active_turn (ie_encoder env) (ie_key_order env) u n s t k st = Some (b, st') \<and>
      store_inv (ie_encoder env) st'" if st: "store_inv (ie_encoder env) st" for u n s t k st
  proof -
    from anchor_total [OF order st] obtain b st' where
      a: "record_reconstructed_active_turn (ie_encoder env) (ie_key_order env) u n s t k st = Some (b, st')" by blast
    from anchor_cases [OF a] record_keeps_inv [OF order st] st have "store_inv (ie_encoder env) st'" by blast
    with a show ?thesis by blast
  qed
  show ?thesis
  proof (cases "\<exists>response thread st turn. a = Inr response \<and> jget ''thread'' response = Some thread \<and>
      in_store ig1 = Some st \<and> in_flight_turn_id thread = Some turn")
    case True
    then obtain response thread st turn where h: "a = Inr response" "jget ''thread'' response = Some thread"
      "in_store ig1 = Some st" "in_flight_turn_id thread = Some turn" by blast
    let ?ig2 = "in_reducer_do (reconcile_thread thread) ig1"
    have store2: "in_store ?ig2 = Some st" using h(3) by (simp add: in_reducer_do_def)
    have "store_inv (ie_encoder env) st" using r(2) h(3) by (simp add: stores_ok_def)
    from anchor [OF this, of "ie_unix_now env (in_calls ?ig2)" "ie_now env (in_calls ?ig2)"
        "current_sequence (in_reducer ?ig2)" tid turn]
    obtain b st' where "record_reconstructed_active_turn (ie_encoder env) (ie_key_order env)
        (ie_unix_now env (in_calls ?ig2)) (ie_now env (in_calls ?ig2))
        (current_sequence (in_reducer ?ig2)) tid turn st = Some (b, st')" "store_inv (ie_encoder env) st'" by blast
    with r(1) h store2 show ?thesis by (simp add: read_after_resume_def Let_def stores_ok_def)
  next
    case False
    then show ?thesis using r
      by (auto simp: read_after_resume_def Let_def in_reducer_do_def split: sum.splits option.splits)
  qed
qed

lemma discover_total:
  assumes order: "hash_order (ie_key_order env)" and ok: "stores_ok env ig"
  shows "\<exists>out ig'. discover env tid source ig = Some (out, ig') \<and> stores_ok env ig'"
proof -
  obtain o1 ig1 where claim: "claim tid source ig = (o1, ig1)" by fastforce
  then have ok1: "stores_ok env ig1" using ok by (auto simp: claim_def split: if_splits)
  show ?thesis
  proof (cases o1)
    case (Some out)
    with claim ok1 show ?thesis by (simp add: discover_def)
  next
    case None
    obtain res ig2 where loop: "resume_loop env tid source 1 (in_reducer_do (begin_subscription tid) ig1) = Some (res, ig2)"
      "stores_ok env ig2"
      using resume_loop_total [OF order, of "in_reducer_do (begin_subscription tid) ig1" tid source 1] ok1 by auto
    let ?ig3 = "set_state tid Subscribed (in_reducer_do (finish_subscription tid) ig2)"
    obtain ig4 where "read_after_resume env tid ?ig3 = Some ig4" "stores_ok env ig4"
      using read_after_resume_total [OF order, of ?ig3] loop(2) by auto
    with claim None loop show ?thesis by (cases res) (simp_all add: discover_def)
  qed
qed

lemma reconcile_candidates_total:
  assumes order: "hash_order (ie_key_order env)"
  shows "stores_ok env ig \<Longrightarrow> \<exists>outs ig'. reconcile_candidates env tids ig = Some (outs, ig') \<and> stores_ok env ig'"
proof (induction tids arbitrary: ig)
  case (Cons tid tids)
  obtain a ig1 where r: "in_rpc env (read_thread_call tid) ig = Some (a, ig1)" "stores_ok env ig1"
    using in_rpc_total [OF order Cons.prems, of "read_thread_call tid"] by auto
  have d: "\<exists>out ig2. discover env tid SourceReconciliation (in_reducer_do (reconcile_thread thread) ig1) = Some (out, ig2) \<and>
      stores_ok env ig2" for thread
    using discover_total [OF order, of "in_reducer_do (reconcile_thread thread) ig1"] r(2) by simp
  show ?case
  proof (cases "\<exists>thread. (case a of Inl _ \<Rightarrow> None | Inr v \<Rightarrow> jget ''thread'' v) = Some thread \<and> thread_is_active thread")
    case True
    then obtain thread where t: "(case a of Inl _ \<Rightarrow> None | Inr v \<Rightarrow> jget ''thread'' v) = Some thread"
      "thread_is_active thread" by blast
    obtain out ig2 where d2: "discover env tid SourceReconciliation (in_reducer_do (reconcile_thread thread) ig1) = Some (out, ig2)"
      "stores_ok env ig2" using d by blast
    from Cons.IH [OF d2(2)] t d2 r show ?thesis by auto
  next
    case False
    from Cons.IH [OF r(2)] False r show ?thesis by (auto split: option.splits)
  qed
qed simp

lemma scan_pages_total:
  assumes order: "hash_order (ie_key_order env)"
  shows "stores_ok env ig \<Longrightarrow> \<exists>res ig'. scan_pages env previous pages cursor acc ig = Some (res, ig') \<and> stores_ok env ig'"
proof (induction pages arbitrary: cursor acc ig)
  case 0
  then show ?case by (cases acc) simp
next
  case (Suc pages)
  obtain newest candidates where acc: "acc = (newest, candidates)" by fastforce
  obtain a ig1 where r: "in_rpc env (Request ''thread/list'' (list_params cursor (in_config ig))) ig = Some (a, ig1)"
    "stores_ok env ig1" using in_rpc_total [OF order Suc.prems] by blast
  note ih = Suc.IH [OF r(2)]
  show ?case
  proof (cases a)
    case (Inl err)
    with r acc Suc.prems show ?thesis by simp
  next
    case (Inr result)
    obtain n1 c1 reached where page: "scan_page previous (ic_reconcile_candidate_limit (in_config ig1))
        (unwrap_or (Option.bind (jget ''data'' result) as_array) []) (newest, candidates, False) = (n1, c1, reached)"
      using prod_cases3 by blast
    from ih [of "get_str ''nextCursor'' result" "(n1, c1)"] page Inr r acc Suc.prems show ?thesis
      by (auto simp: Let_def split: option.splits)
  qed
qed

lemma reconcile_total:
  assumes order: "hash_order (ie_key_order env)" and ok: "stores_ok env ig"
  shows "\<exists>res ig'. reconcile env ig = Some (res, ig') \<and> stores_ok env ig'"
proof -
  obtain res ig1 where s: "scan_pages env (in_watermark ig) (ic_reconcile_page_bound (in_config ig)) None
      (in_watermark ig, []) ig = Some (res, ig1)" "stores_ok env ig1"
    using scan_pages_total [OF order ok] by blast
  have c: "\<exists>outs ig'. reconcile_candidates env tids (ig1\<lparr>in_watermark := n\<rparr>) = Some (outs, ig') \<and> stores_ok env ig'"
    for tids n using reconcile_candidates_total [OF order] s(2) by simp
  show ?thesis
  proof (cases res)
    case (Inl err)
    with s show ?thesis by (simp add: reconcile_def)
  next
    case (Inr nc)
    obtain n tids where nc: "nc = (n, tids)" by fastforce
    obtain outs ig' where "reconcile_candidates env tids (ig1\<lparr>in_watermark := n\<rparr>) = Some (outs, ig')" "stores_ok env ig'"
      using c by blast
    with s(1) Inr nc show ?thesis by (simp add: reconcile_def)
  qed
qed

section \<open>Final states\<close>

lemma resume_loop_end:
  "resume_loop env tid source attempt ig = Some (Some out, ig') \<Longrightarrow>
     out = OutEphemeral \<and> in_states ig' tid = Some Ephemeral \<or>
     (\<exists>d. out = OutFailed d \<and> in_states ig' tid = Some (SubscriptionFailed d))"
proof (induction env tid source attempt ig arbitrary: out ig' rule: resume_loop.induct)
  case (1 env tid source attempt ig)
  obtain a ig1 where r: "in_rpc env (resume_call tid) ig = Some (a, ig1)"
    using "1.prems" by (subst (asm) resume_loop.simps) (auto split: option.splits)
  show ?case
  proof (cases "decide_resume env attempt (ic_resume_retry_limit (in_config ig)) a")
    case ResumeRetry
    then obtain ig2 where p: "pause env (set_state tid (RetryWait (Suc attempt)) ig1) = Some ig2"
      using "1.prems" r by (subst (asm) resume_loop.simps) (auto split: option.splits)
    have "resume_loop env tid source (Suc attempt) (set_state tid (Subscribing source (Suc attempt)) ig2) = Some (Some out, ig')"
      using "1.prems" r ResumeRetry p by (simp add: resume_loop.simps [of env tid source attempt ig])
    from "1.IH" [OF r refl ResumeRetry p this] show ?thesis .
  qed (use "1.prems" r in \<open>auto simp: resume_loop.simps [of env tid source attempt ig]\<close>)
qed

fun final_state :: "discovery_outcome \<Rightarrow> subscription_state option \<Rightarrow> subscription_state option" where
  "final_state OutAlreadyManaged before = before"
| "final_state OutSubscribed before = Some Subscribed"
| "final_state OutEphemeral before = Some Ephemeral"
| "final_state OutCapacityDegraded before = Some CapacityDegraded"
| "final_state (OutFailed d) before = Some (SubscriptionFailed d)"

lemma discover_final:
  assumes "discover env tid source ig = Some (out, ig')" and "leaves_alone env tid"
  shows "in_states ig' tid = final_state out (in_states ig tid)"
proof -
  obtain o1 ig1 where claim: "claim tid source ig = (o1, ig1)" by fastforce
  show ?thesis
  proof (cases o1)
    case (Some o2)
    with claim assms(1) show ?thesis by (auto simp: discover_def claim_def split: if_splits)
  next
    case None
    obtain res ig2 where loop: "resume_loop env tid source 1 (in_reducer_do (begin_subscription tid) ig1) = Some (res, ig2)"
      using assms(1) claim None by (auto simp: discover_def split: option.splits)
    show ?thesis
    proof (cases res)
      case (Some o2)
      with assms(1) claim None loop have "out = o2" "ig' = ig2" by (auto simp: discover_def)
      with resume_loop_end [OF loop [unfolded Some]] show ?thesis by auto
    next
      case res: None
      with assms(1) claim None loop have "out = OutSubscribed" "read_after_resume env tid
          (set_state tid Subscribed (in_reducer_do (finish_subscription tid) ig2)) = Some ig'"
        by (auto simp: discover_def)
      with read_after_resume_leaves [OF this(2) assms(2)] show ?thesis by simp
    qed
  qed
qed

text \<open>The reducer's entry of a subscribed thread, while no other task unsubscribes it.\<close>

definition entry_subscribed :: "string \<Rightarrow> reducer \<Rightarrow> bool" where
  "entry_subscribed k r \<longleftrightarrow> is_some_and (rd_threads r k) ts_subscribed"

lemma exec_keeps_entry:
  assumes "entry_subscribed k r" and "op \<noteq> SetSubscribed k False"
  shows "entry_subscribed k (reducer_exec op r)"
proof -
  obtain t where t: "rd_threads r k = Some t" "ts_subscribed t"
    using assms(1) by (cases "rd_threads r k") (auto simp: entry_subscribed_def)
  show ?thesis
  proof (cases op)
    case (Apply e)
    then show ?thesis using t
      by (auto simp: entry_subscribed_def apply_state_threads is_prunable_def Let_def split: option.splits)
  next
    case (SetSubscribed j b)
    then show ?thesis using t assms(2)
      by (auto simp: entry_subscribed_def set_subscribed_def finish_subscription_def Let_def split: option.splits)
  next
    case (Reconcile raw)
    then show ?thesis using t
      by (auto simp: entry_subscribed_def reconcile_thread_def Let_def split: option.splits)
  next
    case EvictIdle
    then show ?thesis using t
      by (auto simp: entry_subscribed_def evict_idle_def Let_def map_retain_def is_prunable_def)
  qed (use t in \<open>auto simp: entry_subscribed_def begin_subscription_def finish_subscription_def
      cancel_subscription_def is_prunable_def Let_def\<close>)
qed

definition never_unsubscribes :: "ingest_env \<Rightarrow> string \<Rightarrow> bool" where
  "never_unsubscribes env tid \<longleftrightarrow>
     (\<forall>calls. OnReducer (SetSubscribed tid False) \<notin> set (fst (ie_client env calls)))"

lemma interfere_keeps_entry:
  "interfere env os ig = Some ig' \<Longrightarrow> OnReducer (SetSubscribed k False) \<notin> set os \<Longrightarrow>
     entry_subscribed k (in_reducer ig) \<Longrightarrow> entry_subscribed k (in_reducer ig')"
proof (induction env os ig rule: interfere.induct)
  case (2 env op os ig)
  then show ?case by (auto intro: exec_keeps_entry)
next
  case (3 env tid s os ig)
  then show ?case by (auto simp: write_state_def)
next
  case (4 env e os ig)
  then show ?case by (fastforce simp: bind_eq_Some_conv split: option.splits)
qed auto

lemma discover_entry:
  assumes "discover env tid source ig = Some (OutSubscribed, ig')" and "never_unsubscribes env tid"
  shows "entry_subscribed tid (in_reducer ig')"
proof -
  obtain o1 ig1 where claim: "claim tid source ig = (o1, ig1)" by fastforce
  obtain res ig2 where loop: "o1 = None" "resume_loop env tid source 1 (in_reducer_do (begin_subscription tid) ig1) = Some (res, ig2)"
    using assms(1) claim by (cases o1) (auto simp: discover_def claim_def split: option.splits if_splits)
  have res: "res = None"
    using assms(1) claim loop resume_loop_end [of env tid source 1 _ _ ig2] by (cases res) (auto simp: discover_def)
  let ?ig3 = "set_state tid Subscribed (in_reducer_do (finish_subscription tid) ig2)"
  have read: "read_after_resume env tid ?ig3 = Some ig'" using assms(1) claim loop res by (auto simp: discover_def)
  have three: "entry_subscribed tid (in_reducer ?ig3)"
    by (simp add: entry_subscribed_def write_state_def in_reducer_do_def finish_subscription_def Let_def)
  obtain a ig4 where r: "in_rpc env (read_thread_call tid) ?ig3 = Some (a, ig4)"
    using read by (auto simp: read_after_resume_def split: option.splits)
  let ?calls = "in_calls ?ig3 @ [read_thread_call tid]"
  have i: "interfere env (fst (ie_client env ?calls)) (?ig3\<lparr>in_world := (in_world ?ig3)\<lparr>wd_calls := ?calls\<rparr>\<rparr>) = Some ig4"
    using r by (auto simp: in_rpc_def Let_def split: prod.splits)
  have "entry_subscribed tid (in_reducer ig4)"
    by (rule interfere_keeps_entry [OF i]) (use assms(2) three in \<open>simp_all add: never_unsubscribes_def\<close>)
  moreover have "entry_subscribed tid (reconcile_thread raw r)" if "entry_subscribed tid r" for raw r
    using exec_keeps_entry [OF that, of "Reconcile raw"] by simp
  ultimately show ?thesis
    using read r by (auto simp: read_after_resume_def Let_def in_reducer_do_def split: sum.splits option.splits)
qed

section \<open>Anchors\<close>

text \<open>The configuration of the store survives whatever is done to its events.\<close>

lemma interfere_store_config: "interfere env os ig = Some ig' \<Longrightarrow> map_option es_config (in_store ig') = map_option es_config (in_store ig)"
  by (induction env os ig rule: interfere.induct)
    (auto simp: write_state_def bind_eq_Some_conv record_event_Some(2) split: option.splits)

lemma in_rpc_store_config: "in_rpc env req ig = Some (a, ig') \<Longrightarrow> map_option es_config (in_store ig') = map_option es_config (in_store ig)"
  by (auto simp: in_rpc_def Let_def split: prod.splits dest: interfere_store_config)

lemma resume_loop_store_config:
  "resume_loop env tid source attempt ig = Some (out, ig') \<Longrightarrow> map_option es_config (in_store ig') = map_option es_config (in_store ig)"
proof (induction env tid source attempt ig arbitrary: out ig' rule: resume_loop.induct)
  case (1 env tid source attempt ig)
  have store: "in_store (write_state own k s x) = in_store x" "in_store (in_reducer_do f x) = in_store x"
    for own k s x f by (simp_all add: write_state_def in_reducer_do_def)
  from "1.prems" obtain a ig1 where r: "in_rpc env (Request ''thread/resume'' (thread_params tid)) ig = Some (a, ig1)"
    by (auto simp: resume_loop.simps [of env tid source attempt ig] split: option.splits)
  note c = in_rpc_store_config [OF r]
  show ?case
  proof (cases "decide_resume env attempt (ic_resume_retry_limit (in_config ig)) a")
    case ResumeRetry
    with "1.prems" r obtain ig2 where p: "pause env (set_state tid (RetryWait (Suc attempt)) ig1) = Some ig2"
      and l: "resume_loop env tid source (Suc attempt) (set_state tid (Subscribing source (Suc attempt)) ig2) = Some (out, ig')"
      by (auto simp: resume_loop.simps [of env tid source attempt ig] split: option.splits)
    from "1.IH" [OF r refl ResumeRetry p l] interfere_store_config [OF p [unfolded pause_def]] c show ?thesis by (simp add: store)
  qed (use "1.prems" r c store in \<open>auto simp: resume_loop.simps [of env tid source attempt ig]\<close>)
qed

text \<open>
  The start of a turn is on record: the genuine notification, or the newest event is an anchor made
  for it at the given sequence and receipt time.
\<close>

definition is_anchor :: "duration option \<Rightarrow> sequence \<Rightarrow> string \<Rightarrow> string \<Rightarrow> sequenced_event \<Rightarrow> bool" where
  "is_anchor unix_now seq thread turn e \<longleftrightarrow>
     ev_reconstructed e \<and> ev_plane e = Lifecycle \<and> ev_method e = Some ''turn/started'' \<and> ev_thread_id e = Some thread \<and>
     ev_turn_id e = Some turn \<and> ev_sequence e = seq \<and> ev_unix_receipt_ms e = unix_receipt unix_now"

definition anchors_fit :: "encoder \<Rightarrow> store_config \<Rightarrow> string \<Rightarrow> string \<Rightarrow> bool" where
  "anchors_fit tv cfg thread turn \<longleftrightarrow>
     (\<forall>unix_now seq monotonic e. reconstructed_active_turn unix_now seq monotonic thread turn = Some e \<longrightarrow> fits tv cfg e)"

lemma anchor_on_record:
  assumes "record_reconstructed_active_turn tv order unix_now now seq thread turn st = Some (b, st')"
    and "store_inv tv st" and "anchors_fit tv (es_config st) thread turn"
  shows "if list_ex (genuine_start thread turn) (in_events (es_inner st)) then st' = st
    else \<exists>es e. in_events (es_inner st') = es @ [e] \<and> is_anchor unix_now seq thread turn e"
proof (cases "list_ex (genuine_start thread turn) (in_events (es_inner st))")
  case True
  with assms(1) show ?thesis by (simp add: record_reconstructed_active_turn_def)
next
  case False
  obtain e where e: "reconstructed_active_turn unix_now seq (now - es_started_at st) thread turn = Some e"
    using reconstructed_Some by blast
  with False assms(1) have b: b by (auto simp: record_reconstructed_active_turn_def)
  with e assms(1) have r: "record_event tv order e st = Some st'" by (auto intro: anchor_Some)
  have "fits tv (es_config st) e" using assms(3) e by (auto simp: anchors_fit_def)
  from record_keeps_last [OF r assms(2) reconstructed_fields(4) [OF e] this] obtain es where
    es: "in_events (es_inner st') = es @ [e]" by blast
  have "ev_unix_receipt_ms e = unix_receipt unix_now"
    using e by (auto simp: reconstructed_active_turn_def split: sum.splits)
  with reconstructed_fields [OF e] es False show ?thesis by (simp add: is_anchor_def)
qed

lemma discover_anchor:
  assumes order: "hash_order (ie_key_order env)" and ok: "stores_ok env ig" and store: "in_store ig = Some st0"
    and fits: "anchors_fit (ie_encoder env) (es_config st0) tid turn"
    and d: "discover env tid source ig = Some (OutSubscribed, ig')"
    and answer: "ingest_answer env (in_calls ig') = Inr response" "jget ''thread'' response = Some thread"
      "in_flight_turn_id thread = Some turn"
  shows "\<exists>st. in_store ig' = Some st \<and>
    (list_ex (genuine_start tid turn) (in_events (es_inner st)) \<or>
     (\<exists>es e. in_events (es_inner st) = es @ [e] \<and>
        is_anchor (ie_unix_now env (in_calls ig')) (current_sequence (in_reducer ig')) tid turn e))"
proof -
  obtain o1 ig1 where claim: "claim tid source ig = (o1, ig1)" by fastforce
  have ok1: "stores_ok env ig1" "in_store ig1 = in_store ig" using claim ok
    by (auto simp: claim_def write_state_def stores_ok_def split: if_splits)
  obtain res ig2 where loop: "o1 = None" "resume_loop env tid source 1 (in_reducer_do (begin_subscription tid) ig1) = Some (res, ig2)"
    using d claim by (cases o1) (auto simp: discover_def claim_def split: option.splits if_splits)
  have res: "res = None"
    using d claim loop resume_loop_end [of env tid source 1 _ _ ig2] by (cases res) (auto simp: discover_def)
  have "stores_ok env (in_reducer_do (begin_subscription tid) ig1)" using ok1 by simp
  from resume_loop_total [OF order this, of tid source 1] loop(2) have ok2: "stores_ok env ig2" by auto
  have cfg2: "map_option es_config (in_store ig2) = Some (es_config st0)"
    using resume_loop_store_config [OF loop(2)] store ok1(2) by (simp add: in_reducer_do_def)
  let ?ig3 = "set_state tid Subscribed (in_reducer_do (finish_subscription tid) ig2)"
  have read: "read_after_resume env tid ?ig3 = Some ig'" using d claim loop res by (auto simp: discover_def)
  have ok3: "stores_ok env ?ig3" "in_store ?ig3 = in_store ig2"
    using ok2 by (simp_all add: write_state_def in_reducer_do_def stores_ok_def)
  obtain a ig4 where r: "in_rpc env (read_thread_call tid) ?ig3 = Some (a, ig4)"
    using read by (auto simp: read_after_resume_def split: option.splits)
  from in_rpc_store_config [OF r] ok3(2) cfg2 obtain st where st: "in_store ig4 = Some st" "es_config st = es_config st0" by auto
  have inv: "store_inv (ie_encoder env) st"
    using in_rpc_total [OF order ok3(1), of "read_thread_call tid"] r st(1) by (auto simp: stores_ok_def)
  have "a = Inr response"
    using in_rpc_frames(2) [OF r] read_after_resume_frames(1) [OF read] answer(1) by simp
  with read r answer(2,3) st(1) obtain b st' where
    rec: "record_reconstructed_active_turn (ie_encoder env) (ie_key_order env) (ie_unix_now env (in_calls ig'))
      (ie_now env (in_calls ig')) (current_sequence (in_reducer ig')) tid turn st = Some (b, st')"
    and "in_store ig' = Some st'"
    by (auto simp: read_after_resume_def Let_def in_reducer_do_def)
  with anchor_on_record [OF rec inv] fits st(2) show ?thesis by (auto split: if_splits)
qed

section \<open>Leaving\<close>

lemma unsubscribe_each_calls:
  "unsubscribe_each env tids ig = Some ig' \<Longrightarrow>
     in_calls ig' = in_calls ig @ map (\<lambda>tid. Request ''thread/unsubscribe'' (thread_params tid)) tids"
proof (induction tids arbitrary: ig)
  case (Cons tid tids)
  obtain a ig1 where r: "in_rpc env (Request ''thread/unsubscribe'' (thread_params tid)) ig = Some (a, ig1)"
    using Cons.prems by (auto split: option.splits)
  with Cons in_rpc_frames(1) [OF r] show ?case by simp
qed simp

section \<open>Sample environments\<close>

text \<open>A daemon that accepts everything, and one that never takes a request.\<close>

definition calm_env :: ingest_env where
  "calm_env =
     \<lparr> ie_client = (\<lambda>_. ([], Inr (JObject [(''thread'', JObject [(''turns'', JArray [JObject [(''id'', JString ''a'')]])])]))),
       ie_sleep = (\<lambda>_. []), ie_encoder = sample_tv, ie_key_order = sorted_keys,
       ie_state_order = (\<lambda>m. sorted_list_of_set (dom m)), ie_unix_now = (\<lambda>_. None), ie_now = (\<lambda>_. 0),
       ie_show_json = (\<lambda>_. []), ie_debug_id = (\<lambda>_. []) \<rparr>"

definition refusing_env :: ingest_env where
  "refusing_env = calm_env\<lparr>ie_client := (\<lambda>_. ([], Inl (NotWritten ''down'')))\<rparr>"

interpretation calm_order: hash_order "ie_key_order calm_env"
  by unfold_locales (simp add: calm_env_def sorted_keys_def)

interpretation refusing_order: hash_order "ie_key_order refusing_env"
  by unfold_locales (simp add: refusing_env_def calm_env_def sorted_keys_def)

interpretation calm_state_order: hash_order "ie_state_order calm_env"
  by unfold_locales (simp add: calm_env_def)

definition sample_ingestor :: ingestor where
  "sample_ingestor = with_store (store_new roomy_cfg 0)
     (ingestor_new (case reducer_new 4 of Some r \<Rightarrow> r | None \<Rightarrow> undefined) ingest_config_default)"

lemma sample_ingestor_simps [simp]:
  "in_states sample_ingestor = Map.empty" "in_calls sample_ingestor = []" "in_writes sample_ingestor = []"
  "in_store sample_ingestor = Some (store_new roomy_cfg 0)" "in_watermark sample_ingestor = 0"
  "in_config sample_ingestor = ingest_config_default"
  by (simp_all add: sample_ingestor_def with_store_def ingestor_new_def)

lemma sample_stores_ok: "stores_ok calm_env sample_ingestor" "stores_ok refusing_env sample_ingestor"
  by (simp_all add: stores_ok_def store_inv_new)

lemma sample_alone: "leaves_alone calm_env tid" "never_unsubscribes calm_env tid" "leaves_alone refusing_env tid"
  by (simp_all add: leaves_alone_def never_unsubscribes_def calm_env_def refusing_env_def)

lemma retained_empty [simp]: "retained_count Map.empty = 0"
  by (simp add: retained_count_def)

text \<open>The first discovery of the accepting daemon subscribes; the refusing one's fails.\<close>

lemma sample_discover:
  "\<exists>ig'. discover calm_env tid source sample_ingestor = Some (OutSubscribed, ig')"
proof -
  obtain out ig' where d: "discover calm_env tid source sample_ingestor = Some (out, ig')"
    using discover_total [OF calm_order.hash_order_axioms sample_stores_ok(1)] by blast
  have "\<exists>n. resume_end (decision_at calm_env tid 8 [] 1 n) (if out = OutSubscribed then None else Some out)"
    using discover_claimed [OF d] by (auto simp: ingest_config_default_def)
  then have "out = OutSubscribed"
    by (auto simp: decision_at_def ingest_answer_def calm_env_def decide_resume_def split: if_splits)
  with d show ?thesis by blast
qed

lemma calm_rpc: "in_rpc calm_env call ig =
    Some (Inr (JObject [(''thread'', JObject [(''turns'', JArray [JObject [(''id'', JString ''a'')]])])]),
      ig\<lparr>in_world := (in_world ig)\<lparr>wd_calls := in_calls ig @ [call]\<rparr>\<rparr>)"
  by (simp add: in_rpc_def calm_env_def)

lemma calm_resume: "resume_loop calm_env tid source attempt ig =
    Some (None, ig\<lparr>in_world := (in_world ig)\<lparr>wd_calls := in_calls ig @ [resume_call tid]\<rparr>\<rparr>)"
  by (subst resume_loop.simps) (simp add: calm_rpc decide_resume_def)

lemma calm_unsubscribe: "unsubscribe_each calm_env tids ig \<noteq> None"
  by (induction tids arbitrary: ig) (simp_all add: calm_rpc)

lemma calm_writes:
  assumes "discover calm_env tid source sample_ingestor = Some (out, ig')"
  shows "in_writes ig' = [(True, tid, Subscribing source 1), (True, tid, Subscribed)]"
  using assms
  by (auto simp: discover_def claim_def calm_resume read_after_resume_def calm_rpc write_state_def in_reducer_do_def
      ingest_config_default_def Let_def split: option.splits)

section \<open>Properties\<close>

text \<open>Discovering a thread sends a bounded number of requests, each for a reason. A thread
  that is subscribed or being subscribed is left alone and nothing is sent; at the capacity the
  thread is marked and nothing is sent; otherwise the thread is resumed at most
  \<open>resume_retry_limit\<close> times (once when that is 0), again only after an answer that nothing was
  written or that the daemon may yet accept it, the last answer decides the outcome, and
  success is followed by exactly one read.\<close>

theorem discover_requests_bounded:
  assumes "discover env tid source ig = Some (out, ig')"
  shows "if is_some_and (in_states ig tid) is_retained then out = OutAlreadyManaged \<and> ig' = ig
    else if ic_subscription_cap (in_config ig) \<le> retained_count (in_states ig)
      then out = OutCapacityDegraded \<and> ig' = set_state tid CapacityDegraded ig
    else (\<exists>n. in_calls ig' = in_calls ig @ replicate (Suc n) (resume_call tid) @
          (if out = OutSubscribed then [read_thread_call tid] else []) \<and>
        n \<le> ic_resume_retry_limit (in_config ig) - 1 \<and>
        list_all (\<lambda>k. decision_at env tid (ic_resume_retry_limit (in_config ig)) (in_calls ig) 1 k = ResumeRetry) [0..<n] \<and>
        resume_end (decision_at env tid (ic_resume_retry_limit (in_config ig)) (in_calls ig) 1 n)
          (if out = OutSubscribed then None else Some out))"
proof (cases "is_some_and (in_states ig tid) is_retained")
  case True
  then show ?thesis using discover_refused(1) [OF assms] by simp
next
  case free: False
  show ?thesis
  proof (cases "ic_subscription_cap (in_config ig) \<le> retained_count (in_states ig)")
    case True
    then show ?thesis using discover_refused(2) [OF assms free] free by simp
  next
    case False
    with discover_claimed [OF assms free] free show ?thesis by (fastforce simp: list_all_iff)
  qed
qed

theorem discover_requests_bounded_witness:
  "\<exists>out ig' n. discover refusing_env ''t'' SourceReconciliation sample_ingestor = Some (out, ig') \<and>
     in_calls ig' = replicate (Suc n) (resume_call ''t'') \<and> n \<le> 7 \<and> out \<noteq> OutSubscribed"
proof -
  obtain out ig' where d: "discover refusing_env ''t'' SourceReconciliation sample_ingestor = Some (out, ig')"
    using discover_total [OF refusing_order.hash_order_axioms sample_stores_ok(2)] by blast
  have "\<And>k. decision_at refusing_env ''t'' 8 [] 1 k \<noteq> ResumeDone"
    by (simp add: decision_at_def ingest_answer_def refusing_env_def decide_resume_def)
  with discover_requests_bounded [OF d] have "\<exists>n. in_calls ig' = replicate (Suc n) (resume_call ''t'') \<and> n \<le> 7 \<and>
      out \<noteq> OutSubscribed"
    by (auto simp: ingest_config_default_def split: if_splits) (metis resume_end.simps(2-4) resume_decision.exhaust option.distinct(1))
  with d show ?thesis by blast
qed

text \<open>C12. Discoveries share the subscription capacity. Whatever other tasks do to the map of states
  while a discovery waits, as long as they keep to the capacity themselves and leave the thread
  alone, every write of the discovery keeps to it: a thread becomes retained only below the
  capacity, so at no moment are more threads retained than it allows.\<close>

theorem discoveries_respect_capacity:
  assumes "discover env tid source ig = Some (out, ig')"
    and "in_writes ig' = in_writes ig @ ws"
    and "finite (dom (in_states ig))" and "retained_count (in_states ig) \<le> ic_subscription_cap (in_config ig)"
    and "writes_legal Not (ic_subscription_cap (in_config ig)) (in_states ig) ws"
    and "\<forall>w \<in> set ws. fst (snd w) = tid \<longrightarrow> fst w"
  shows "writes_legal (\<lambda>_. True) (ic_subscription_cap (in_config ig)) (in_states ig) ws \<and>
    in_states ig' = states_after ws (in_states ig) \<and>
    retained_count (states_after (take n ws) (in_states ig)) \<le> ic_subscription_cap (in_config ig)"
proof -
  let ?cap = "ic_subscription_cap (in_config ig)"
  have all: "writes_legal (\<lambda>_. True) ?cap (in_states ig) ws \<and> in_states ig' = states_after ws (in_states ig)"
  proof (cases "is_some_and (in_states ig tid) is_retained")
    case True
    with discover_refused(1) [OF assms(1)] assms(2) show ?thesis by simp
  next
    case free: False
    show ?thesis
    proof (cases "?cap \<le> retained_count (in_states ig)")
      case True
      with discover_refused(2) [OF assms(1) free] assms(2) show ?thesis
        by (auto simp: write_state_def legal_write_def)
    next
      case False
      then have below: "retained_count (in_states ig) < ?cap" by simp
      from discover_claimed [OF assms(1) free below] obtain us retries where
        us: "wrote ig ((True, tid, Subscribing source 1) # us) ig'" "\<forall>w \<in> set us. fst w \<longrightarrow> fst (snd w) = tid"
        "own_states us = retries @ (if out = OutSubscribed then [Subscribed] else end_state out)"
        "list_all is_retained retries" by blast
      have ws: "ws = (True, tid, Subscribing source 1) # us" "in_states ig' = states_after ws (in_states ig)"
        using us(1) assms(2) by (auto simp: wrote_def)
      let ?m = "(in_states ig)(tid \<mapsto> Subscribing source 1)"
      have "writes_legal (\<lambda>_. True) ?cap ?m us"
      proof (rule own_writes_legal [OF _ _ us(3,4)])
        show "\<forall>w \<in> set us. (fst (snd w) = tid) = fst w" using us(2) assms(6) ws(1) by auto
        show "writes_legal Not ?cap ?m us" using assms(5) by (simp add: ws(1))
        show "length (if out = OutSubscribed then [Subscribed] else end_state out) \<le> 1" by (cases out) auto
      qed simp
      with below ws show ?thesis by (simp add: legal_write_def del: fun_upd_apply)
    qed
  qed
  with writes_legal_count [OF conjunct1 [OF all] assms(3,4)] show ?thesis by blast
qed

theorem discoveries_respect_capacity_witness:
  "\<exists>ig' ws. discover calm_env ''t'' SourceReconciliation sample_ingestor = Some (OutSubscribed, ig') \<and>
     in_writes ig' = ws \<and> writes_legal (\<lambda>_. True) 512 Map.empty ws \<and> retained_count (in_states ig') \<le> 512"
proof -
  obtain ig' where d: "discover calm_env ''t'' SourceReconciliation sample_ingestor = Some (OutSubscribed, ig')"
    using sample_discover by blast
  have writes: "in_writes ig' = [(True, ''t'', Subscribing SourceReconciliation 1), (True, ''t'', Subscribed)]"
    by (rule calm_writes [OF d])
  let ?ws = "in_writes ig'"
  have "in_writes ig' = in_writes sample_ingestor @ ?ws" by simp
  from discoveries_respect_capacity [OF d this, of 2] d show ?thesis
    by (simp add: writes ingest_config_default_def)
qed

text \<open>The outcome of a discovery is the state it leaves behind. While no other task writes
  the thread's state, that state afterwards is the one the outcome names; and a discovery that
  subscribed leaves a subscribed entry in the reducer, unless another task unsubscribed the
  thread, whatever events pruned before.\<close>

theorem discovery_outcome_is_state:
  assumes "discover env tid source ig = Some (out, ig')"
    and "leaves_alone env tid" and "never_unsubscribes env tid"
  shows "in_states ig' tid = final_state out (in_states ig tid) \<and>
    (out = OutSubscribed \<longrightarrow> entry_subscribed tid (in_reducer ig'))"
  using discover_final [OF assms(1,2)] discover_entry [of env tid source ig ig'] assms(1,3) by blast

theorem discovery_outcome_is_state_witness:
  "\<exists>ig'. discover calm_env ''t'' SourceThreadStarted sample_ingestor = Some (OutSubscribed, ig') \<and>
     in_states ig' ''t'' = Some Subscribed \<and> entry_subscribed ''t'' (in_reducer ig')"
proof -
  obtain ig' where d: "discover calm_env ''t'' SourceThreadStarted sample_ingestor = Some (OutSubscribed, ig')"
    using sample_discover by blast
  from discovery_outcome_is_state [OF d sample_alone(1,2)] d show ?thesis by auto
qed

text \<open>C33. A turn in flight at subscription is on record. When a discovery with a store subscribes
  and its read shows an unfinished turn, the genuine \<open>turn/started\<close> of that turn is retained
  in the store afterwards, or the newest event of the store is a \<open>turn/started\<close> anchor of
  that turn and thread that is marked as reconstructed, with the current sequence of the reducer
  and the receipt time of the read. It is retained whatever was evicted for it, as long as an
  anchor of the turn is no larger than the byte caps of the store.\<close>

theorem in_flight_turn_is_anchored:
  assumes "hash_order (ie_key_order env)" and "stores_ok env ig" and "in_store ig = Some st0"
    and "anchors_fit (ie_encoder env) (es_config st0) tid turn"
    and "discover env tid source ig = Some (OutSubscribed, ig')"
    and "ingest_answer env (in_calls ig') = Inr response" and "jget ''thread'' response = Some thread"
    and "in_flight_turn_id thread = Some turn"
  shows "\<exists>st. in_store ig' = Some st \<and>
    (list_ex (genuine_start tid turn) (in_events (es_inner st)) \<or>
     (\<exists>es e. in_events (es_inner st) = es @ [e] \<and>
        is_anchor (ie_unix_now env (in_calls ig')) (current_sequence (in_reducer ig')) tid turn e))"
  by (rule discover_anchor [OF assms])

theorem in_flight_turn_is_anchored_witness:
  "\<exists>ig' st e. discover calm_env ''t'' SourceReconciliation sample_ingestor = Some (OutSubscribed, ig') \<and>
     in_store ig' = Some st \<and> e \<in> set (in_events (es_inner st)) \<and> ev_method e = Some ''turn/started'' \<and>
     ev_thread_id e = Some ''t'' \<and> ev_turn_id e = Some ''a''"
proof -
  obtain ig' where d: "discover calm_env ''t'' SourceReconciliation sample_ingestor = Some (OutSubscribed, ig')"
    using sample_discover by blast
  let ?turn = "JObject [(''id'', JString ''a'')]"
  have answer: "ingest_answer calm_env (in_calls ig') = Inr (JObject [(''thread'', JObject [(''turns'', JArray [?turn])])])"
    by (simp add: ingest_answer_def calm_env_def)
  have fits: "anchors_fit (ie_encoder calm_env) (es_config (store_new roomy_cfg 0)) ''t'' ''a''"
    by (simp add: anchors_fit_def fits_def calm_env_def store_new_def roomy_cfg_def)
  have "in_flight_turn_id (JObject [(''turns'', JArray [?turn])]) = Some ''a''"
    by (simp add: in_flight_turn_id_def terminal_turn_def get_str_def)
  from in_flight_turn_is_anchored [OF calm_order.hash_order_axioms sample_stores_ok(1) _ fits d answer _ this]
  obtain st where "in_store ig' = Some st" "\<exists>e \<in> set (in_events (es_inner st)). ev_method e = Some ''turn/started'' \<and>
      ev_thread_id e = Some ''t'' \<and> ev_turn_id e = Some ''a''"
    by (auto simp: list_ex_iff genuine_start_def is_anchor_def)
  with d show ?thesis by blast
qed

text \<open>Reconciliation is bounded and only moves forward. A pass makes at most
  \<open>reconcile_page_bound\<close> list requests and, for each of at most
  \<open>reconcile_candidate_limit\<close> candidates, a read and the requests of one discovery; a pass that
  succeeds reports at most that many outcomes and never lowers the watermark, and one that fails
  leaves the watermark alone.\<close>

theorem reconcile_bounded:
  assumes "reconcile env ig = Some (res, ig')"
  shows "\<exists>cs. in_calls ig' = in_calls ig @ cs \<and>
    length cs \<le> ic_reconcile_page_bound (in_config ig) +
      ic_reconcile_candidate_limit (in_config ig) * (max 1 (ic_resume_retry_limit (in_config ig)) + 2) \<and>
    (case res of Inl err \<Rightarrow> in_watermark ig' = in_watermark ig
     | Inr outs \<Rightarrow> length outs \<le> ic_reconcile_candidate_limit (in_config ig) \<and> in_watermark ig \<le> in_watermark ig')"
proof -
  let ?m = "max 1 (ic_resume_retry_limit (in_config ig)) + 2"
  obtain r1 ig1 where pages: "scan_pages env (in_watermark ig) (ic_reconcile_page_bound (in_config ig)) None
      (in_watermark ig, []) ig = Some (r1, ig1)"
    using assms by (auto simp: reconcile_def Let_def split: option.splits)
  from scan_pages_spec [OF pages, where k = "[]"] obtain cs ws where cs: "in_calls ig1 = in_calls ig @ cs"
    "length cs \<le> ic_reconcile_page_bound (in_config ig)" "wrote ig ws ig1"
    "case r1 of Inl _ \<Rightarrow> True | Inr (newest', candidates') \<Rightarrow>
       in_watermark ig \<le> newest' \<and> length candidates' \<le> ic_reconcile_candidate_limit (in_config ig)" by auto
  show ?thesis
  proof (cases r1)
    case (Inl err)
    with assms pages have "res = Inl err" "ig' = ig1" by (auto simp: reconcile_def)
    with cs show ?thesis by (intro exI [of _ cs]) (auto simp: wrote_def)
  next
    case (Inr nc)
    obtain n tids where nc: "nc = (n, tids)" by fastforce
    with assms pages Inr obtain outs where cand:
      "reconcile_candidates env tids (ig1\<lparr>in_watermark := n\<rparr>) = Some (outs, ig')" and res: "res = Inr outs"
      by (auto simp: reconcile_def)
    have cfg: "in_config (ig1\<lparr>in_watermark := n\<rparr>) = in_config ig" using cs(3) by (simp add: wrote_def)
    from reconcile_candidates_spec [OF cand, where k = "[]"] obtain ds where ds: "in_calls ig' = in_calls ig1 @ ds"
      "length ds \<le> length tids * ?m" "subseq (map fst outs) tids" "in_watermark ig' = n"
      unfolding cfg by auto
    have n: "in_watermark ig \<le> n" "length tids \<le> ic_reconcile_candidate_limit (in_config ig)"
      using cs(4) Inr nc by auto
    have "length ds \<le> ic_reconcile_candidate_limit (in_config ig) * ?m"
      using ds(2) mult_le_mono1 [OF n(2), of ?m] by linarith
    moreover have "length outs \<le> ic_reconcile_candidate_limit (in_config ig)"
      using list_emb_length [OF ds(3)] n(2) by simp
    ultimately show ?thesis
      using cs(1,2) ds(1,4) n(1) by (intro exI [of _ "cs @ ds"]) (simp add: res)
  qed
qed

theorem reconcile_bounded_witness:
  "\<exists>res ig'. reconcile refusing_env sample_ingestor = Some (res, ig') \<and> length (in_calls ig') \<le> 2004"
proof -
  obtain res ig' where r: "reconcile refusing_env sample_ingestor = Some (res, ig')"
    using reconcile_total [OF refusing_order.hash_order_axioms sample_stores_ok(2)] by blast
  from reconcile_bounded [OF r] obtain cs where "in_calls ig' = cs" "length cs \<le> 4 + 200 * (max 1 8 + 2)"
    by (auto simp: ingest_config_default_def)
  with r show ?thesis by auto
qed

text \<open>C34. Discovery, reconciliation and release always return: with a store within its caps,
  no loop of theirs runs forever, whatever the daemon answers.\<close>

theorem ingest_returns:
  assumes "hash_order (ie_key_order env)" and "stores_ok env ig"
  shows "discover env tid source ig \<noteq> None \<and> reconcile env ig \<noteq> None \<and> release_if_idle env tid ig \<noteq> None"
  using discover_total [OF assms, of tid source] reconcile_total [OF assms]
    in_rpc_total [OF assms, of "Request ''thread/unsubscribe'' (thread_params tid)"]
  by (auto simp: release_if_idle_def split: sum.splits)

theorem ingest_returns_witness:
  "discover calm_env ''t'' SourceThreadStarted sample_ingestor \<noteq> None \<and> reconcile calm_env sample_ingestor \<noteq> None"
  using ingest_returns [OF calm_order.hash_order_axioms sample_stores_ok(1), of "''t''" SourceThreadStarted] by blast

text \<open>Reconciliation never resumes a thread it already counts as subscribed. As long as no
  other task changes the thread's state, no pass, also the one after a reconnection, sends a
  \<open>thread/resume\<close> for a thread whose state is retained, and the state stays what it was.\<close>

theorem reconcile_never_resubscribes:
  assumes "reconcile env ig = Some (res, ig')" and "is_some_and (in_states ig tid) is_retained"
    and "leaves_alone env tid"
  shows "\<exists>cs. in_calls ig' = in_calls ig @ cs \<and> resume_call tid \<notin> set cs \<and> in_states ig' tid = in_states ig tid"
proof -
  obtain r1 ig1 where pages: "scan_pages env (in_watermark ig) (ic_reconcile_page_bound (in_config ig)) None
      (in_watermark ig, []) ig = Some (r1, ig1)"
    using assms by (auto simp: reconcile_def Let_def split: option.splits)
  from scan_pages_spec [OF pages, of tid] assms(3) obtain cs where cs: "in_calls ig1 = in_calls ig @ cs"
    "\<forall>c \<in> set cs. \<exists>p. c = Request ''thread/list'' p" "in_states ig1 tid = in_states ig tid" by auto
  then have no: "resume_call tid \<notin> set cs" by auto
  show ?thesis
  proof (cases r1)
    case (Inl err)
    with assms pages have "ig' = ig1" by (auto simp: reconcile_def)
    with cs no show ?thesis by (intro exI [of _ cs]) simp
  next
    case (Inr nc)
    obtain n tids where nc: "nc = (n, tids)" by fastforce
    with assms pages Inr obtain outs where cand:
      "reconcile_candidates env tids (ig1\<lparr>in_watermark := n\<rparr>) = Some (outs, ig')"
      by (auto simp: reconcile_def)
    from reconcile_candidates_spec [OF cand, of tid] assms(2,3) cs(3) obtain ds where
      "in_calls ig' = in_calls ig1 @ ds" "resume_call tid \<notin> set ds" "in_states ig' tid = in_states ig tid" by auto
    with cs(1) no show ?thesis by (intro exI [of _ "cs @ ds"]) simp
  qed
qed

theorem reconcile_never_resubscribes_witness:
  "\<exists>res ig'. reconcile calm_env (set_state ''t'' Subscribed sample_ingestor) = Some (res, ig') \<and>
     resume_call ''t'' \<notin> set (in_calls ig') \<and> in_states ig' ''t'' = Some Subscribed"
proof -
  let ?ig = "set_state ''t'' Subscribed sample_ingestor"
  have "stores_ok calm_env ?ig" using sample_stores_ok(1) by simp
  then obtain res ig' where r: "reconcile calm_env ?ig = Some (res, ig')"
    using reconcile_total [OF calm_order.hash_order_axioms] by blast
  have "is_some_and (in_states ?ig ''t'') is_retained" by simp
  from reconcile_never_resubscribes [OF r this sample_alone(1)] r show ?thesis by auto
qed

text \<open>Shutting down unsubscribes exactly the subscribed threads, once each and best effort:
  one request per thread whose state is \<open>Subscribed\<close> when it starts, whatever the answers.\<close>

theorem shutdown_unsubscribes_subscribed:
  assumes "unsubscribe_all_best_effort env ig = Some ig'"
    and "hash_order (ie_state_order env)" and "finite (dom (in_states ig))"
    and "distinct (ie_state_order env (in_states ig))"
  shows "\<exists>tids. in_calls ig' = in_calls ig @ map (\<lambda>tid. Request ''thread/unsubscribe'' (thread_params tid)) tids \<and>
    distinct tids \<and> set tids = {tid. in_states ig tid = Some Subscribed}"
  using unsubscribe_each_calls [OF assms(1) [unfolded unsubscribe_all_best_effort_def]]
    hash_order.order_keys [OF assms(2,3)] assms(4)
  by (intro exI) auto

theorem shutdown_unsubscribes_subscribed_witness:
  "\<exists>ig'. unsubscribe_all_best_effort calm_env (set_state ''t'' Subscribed sample_ingestor) = Some ig' \<and>
     in_calls ig' = [Request ''thread/unsubscribe'' (thread_params ''t'')]"
proof -
  let ?ig = "set_state ''t'' Subscribed sample_ingestor"
  have states: "in_states ?ig = [''t'' \<mapsto> Subscribed]" by (simp add: write_state_def)
  obtain ig' where u: "unsubscribe_all_best_effort calm_env ?ig = Some ig'"
    using calm_unsubscribe by (fastforce simp: unsubscribe_all_best_effort_def)
  have fin: "finite (dom (in_states ?ig))" "distinct (ie_state_order calm_env (in_states ?ig))"
    by (simp_all add: states calm_env_def)
  from shutdown_unsubscribes_subscribed [OF u calm_state_order.hash_order_axioms fin] obtain tids where
    "in_calls ig' = map (\<lambda>tid. Request ''thread/unsubscribe'' (thread_params tid)) tids"
    "distinct tids" "set tids = {''t''}" by (auto simp: states split: if_splits)
  moreover from this(2,3) have "length tids = 1" using distinct_card [of tids] by simp
  moreover from this have "tids = [''t'']" using \<open>set tids = {''t''}\<close> by (cases tids) auto
  ultimately show ?thesis using u by auto
qed

end
