(* ===== verification/Transport.thy ===== *)
theory Transport
  imports Rpc "HOL-Library.AList" "HOL-Library.Char_ord" "HOL-Library.List_Lexorder"
begin

text \<open>
  The reconnecting transport of \<open>src/transport/src/lib.rs\<close>: the task that owns the socket
  (\<open>connection_loop\<close>, \<open>initialize\<close>, \<open>drive\<close>) as a state machine that takes one
  completed \<open>await\<close> at a time, and the operations of the handles other tasks hold, which
  run between those. What the socket, the JSON parser and the clocks answer is part of the
  input of a step. A oneshot channel is a number; what became of its sender is kept in
  \<open>tr_resolved\<close>.
\<close>

section \<open>Configuration and health\<close>

record transport_config =
  tc_socket_path :: string
  tc_connect_timeout :: duration
  tc_read_idle_timeout :: duration
  tc_request_timeout :: duration
  tc_retry_initial :: duration
  tc_retry_max :: duration
  tc_max_incoming_bytes :: nat
  tc_client_name :: string
  tc_client_version :: string

text \<open>The value of \<open>HOME\<close> and the package version are arguments.\<close>

definition transport_config_default :: "string option \<Rightarrow> string \<Rightarrow> transport_config" where
  "transport_config_default home version =
     \<lparr> tc_socket_path = path_join (unwrap_or home ''/var/empty'')
         ''.codex/app-server-control/app-server-control.sock'',
       tc_connect_timeout = from_secs 3,
       tc_read_idle_timeout = from_secs 30,
       tc_request_timeout = from_secs 15,
       tc_retry_initial = from_millis 100,
       tc_retry_max = from_secs 5,
       tc_max_incoming_bytes = 32 * 2 ^ 20,
       tc_client_name = ''codex-control'',
       tc_client_version = version \<rparr>"

datatype connection_phase = Connecting | Handshaking | Reconciling | Connected | Degraded | Stopped

record health =
  hl_phase :: connection_phase
  hl_reconnect_attempts :: u64
  hl_last_frame_sequence :: u64
  hl_detail :: "string option"

definition health_default :: health where
  "health_default =
     \<lparr> hl_phase = Connecting, hl_reconnect_attempts = 0, hl_last_frame_sequence = 0, hl_detail = None \<rparr>"

section \<open>State\<close>

type_synonym channel = nat

datatype command =
    CmdRequest rpc_id string json channel
  | CmdNotify string json
  | CmdReconciled channel
  | CmdShutdown channel

record pending =
  pd_method :: string
  pd_response :: channel

text \<open>
  What became of the sender of a oneshot channel: an answer was sent, \<open>()\<close> was sent, or it
  was dropped without sending.
\<close>

datatype resolution = Resolved "request_error + json" | Done | Dropped

text \<open>
  What is written to the socket. A request frame also names the channel its answer goes to,
  which is not on the wire.
\<close>

datatype outgoing =
    RequestFrame channel rpc_id string json
  | InitializeFrame json
  | NotificationFrame json
  | PingFrame
  | PongFrame "8 word list"
  | CloseFrame

text \<open>The await the task is at; while it drives a connection, its local variables.\<close>

datatype task =
    AtConnect
  | AtInitialize
  | AtBackoff string
  | AtDrive "(rpc_id \<times> pending) list" duration
  | AtEnd

record transport =
  tr_config :: transport_config
  tr_task :: task
  tr_sequence :: sequence
  tr_attempts :: u64
  tr_backoff :: duration
  tr_health :: health
  tr_ready :: bool
  tr_next_id :: u64
  tr_next_channel :: channel
  tr_sending :: "command list"
  tr_commands :: "command list"
  tr_handles :: bool
  tr_ingress :: "sequenced_event list"
  tr_ingress_open :: bool
  tr_ingress_taken :: bool
  tr_inbound :: "sequenced_event list"
  tr_written :: "(outgoing \<times> bool) list"
  tr_resolved :: "(channel \<times> resolution) list"

text \<open>
  \<open>TransportHandle::spawn\<close>. \<open>tr_sending\<close> holds the commands other tasks are about to
  put into the bounded channel, \<open>tr_commands\<close> what is in it.
\<close>

definition transport_spawn :: "transport_config \<Rightarrow> transport" where
  "transport_spawn config =
     \<lparr> tr_config = config, tr_task = AtConnect, tr_sequence = 0, tr_attempts = 0,
       tr_backoff = tc_retry_initial config, tr_health = health_default, tr_ready = False,
       tr_next_id = 1, tr_next_channel = 0, tr_sending = [], tr_commands = [], tr_handles = True,
       tr_ingress = [], tr_ingress_open = True, tr_ingress_taken = False, tr_inbound = [],
       tr_written = [], tr_resolved = [] \<rparr>"

definition resolve :: "channel \<Rightarrow> resolution \<Rightarrow> transport \<Rightarrow> transport" where
  "resolve k r t = t\<lparr>tr_resolved := tr_resolved t @ [(k, r)]\<rparr>"

text \<open>A write: what was written and whether the write succeeded (\<open>None\<close> is \<open>Ok\<close>).\<close>

definition socket_send :: "outgoing \<Rightarrow> string option \<Rightarrow> transport \<Rightarrow> transport" where
  "socket_send out result t = t\<lparr>tr_written := tr_written t @ [(out, result = None)]\<rparr>"

definition set_health :: "connection_phase \<Rightarrow> string option \<Rightarrow> transport \<Rightarrow> transport" where
  "set_health phase detail t =
     t\<lparr>tr_health := \<lparr> hl_phase = phase, hl_reconnect_attempts = tr_attempts t,
         hl_last_frame_sequence = tr_sequence t, hl_detail = detail \<rparr>\<rparr>"

section \<open>The environment\<close>

record transport_env =
  te_from_str :: "string \<Rightarrow> string + json"
  te_from_slice :: "8 word list \<Rightarrow> string + json"
  te_show_duration :: "duration \<Rightarrow> string"
  te_drain :: "(rpc_id \<times> pending) list \<Rightarrow> (rpc_id \<times> pending) list"

text \<open>
  \<open>te_drain\<close> is the order in which the hash map of pending requests is consumed.
\<close>

definition drains_all :: "transport_env \<Rightarrow> bool" where
  "drains_all env \<longleftrightarrow> (\<forall>ps. mset (te_drain env ps) = mset ps)"

text \<open>One admissible order: numbers before strings, each kind in its own order.\<close>

instantiation rpc_id :: linorder
begin

fun less_eq_rpc_id :: "rpc_id \<Rightarrow> rpc_id \<Rightarrow> bool" where
  "RpcNumber m \<le> RpcNumber n \<longleftrightarrow> m \<le> n"
| "RpcNumber m \<le> RpcString t \<longleftrightarrow> True"
| "RpcString s \<le> RpcNumber n \<longleftrightarrow> False"
| "RpcString s \<le> RpcString t \<longleftrightarrow> s \<le> t"

definition less_rpc_id :: "rpc_id \<Rightarrow> rpc_id \<Rightarrow> bool" where
  "less_rpc_id a b \<longleftrightarrow> a \<le> b \<and> \<not> b \<le> a"

instance
proof
  fix a b c :: rpc_id
  show "a < b \<longleftrightarrow> a \<le> b \<and> \<not> b \<le> a" by (rule less_rpc_id_def)
  show "a \<le> a" by (cases a) simp_all
  show "a \<le> c" if "a \<le> b" and "b \<le> c" using that by (cases a; cases b; cases c) auto
  show "a = b" if "a \<le> b" and "b \<le> a" using that by (cases a; cases b) auto
  show "a \<le> b \<or> b \<le> a" by (cases a; cases b) auto
qed

end

definition drain_by_id :: "(rpc_id \<times> pending) list \<Rightarrow> (rpc_id \<times> pending) list" where
  "drain_by_id = sort_key fst"

lemma drain_by_id_simps [simp]: "drain_by_id [] = []" "drain_by_id [p] = [p]"
  by (simp_all add: drain_by_id_def)

lemma drain_by_id_all: "te_drain env = drain_by_id \<Longrightarrow> drains_all env"
  by (simp add: drains_all_def drain_by_id_def)

datatype ws_message =
    MsgText string
  | MsgBinary "8 word list"
  | MsgPing "8 word list"
  | MsgPong "8 word list"
  | MsgClose
  | MsgFrame

datatype received = RxTimedOut | RxEnded | RxError string | RxMessage ws_message

text \<open>
  The clocks at a read: the wall clock, when the message was read and when its event was made,
  both since the task started.
\<close>

record clock =
  ck_unix :: "duration option"
  ck_read :: duration
  ck_elapsed :: duration

definition message_json :: "transport_env \<Rightarrow> ws_message \<Rightarrow> string + json option" where
  "message_json env m =
     (case m of
        MsgText s \<Rightarrow> map_sum id Some (te_from_str env s)
      | MsgBinary bytes \<Rightarrow> map_sum id Some (te_from_slice env bytes)
      | MsgClose \<Rightarrow> Inl ''peer closed websocket''
      | _ \<Rightarrow> Inr None)"

section \<open>Connecting\<close>

datatype connect_result =
    ConnectTimedOut
  | ConnectError string
  | UpgradeTimedOut
  | UpgradeError string
  | Upgraded nat string

text \<open>\<open>connect\<close>: the outcome of the two awaits, with the status of the upgrade response.\<close>

fun connect :: "connect_result \<Rightarrow> string + unit" where
  "connect ConnectTimedOut = Inl ''unix socket connect timed out''"
| "connect (ConnectError e) = Inl (''unix socket connect: '' @ e)"
| "connect UpgradeTimedOut = Inl ''websocket handshake timed out''"
| "connect (UpgradeError e) = Inl (''websocket handshake: '' @ e)"
| "connect (Upgraded status shown) =
     (if status \<noteq> 101 then Inl (''unexpected websocket status '' @ shown) else Inr ())"

definition begin_attempt :: "transport \<Rightarrow> transport" where
  "begin_attempt t = (set_health Connecting None t)\<lparr>tr_task := AtConnect\<rparr>"

definition connection_failed :: "string \<Rightarrow> transport \<Rightarrow> transport" where
  "connection_failed detail t =
     (set_health Degraded (Some detail) (t\<lparr>tr_attempts := tr_attempts t + 1\<rparr>))\<lparr>tr_task := AtBackoff detail\<rparr>"

definition back_off :: "transport \<Rightarrow> transport" where
  "back_off t = begin_attempt (t\<lparr>tr_backoff := min (tr_backoff t * 2) (tc_retry_max (tr_config t))\<rparr>)"

definition initialize_request :: "transport_config \<Rightarrow> json" where
  "initialize_request config =
     request_envelope (RpcNumber 0) ''initialize''
       (JObject [(''clientInfo'', JObject [(''name'', JString (tc_client_name config)),
                    (''title'', JString ''Codex Control''),
                    (''version'', JString (tc_client_version config))]),
                 (''capabilities'', JObject [(''serverRequests'', JBool False)])])"

definition connect_returned :: "connect_result \<Rightarrow> string option \<Rightarrow> transport \<Rightarrow> transport" where
  "connect_returned result write t =
     (case connect result of
        Inl detail \<Rightarrow> connection_failed detail t
      | Inr _ \<Rightarrow>
          (let t1 = socket_send (InitializeFrame (initialize_request (tr_config t))) write (set_health Handshaking None t)
           in case write of
                Some err \<Rightarrow> connection_failed err t1
              | None \<Rightarrow> t1\<lparr>tr_task := AtInitialize\<rparr>))"

section \<open>Frames in\<close>

text \<open>A frame takes the next sequence number and becomes an event.\<close>

definition next_event :: "clock \<Rightarrow> incoming_frame \<Rightarrow> transport \<Rightarrow> sequenced_event \<times> transport" where
  "next_event clock frame t =
     (let seq = tr_sequence t + 1
      in (from_frame (ck_unix clock) seq (ck_elapsed clock) frame, t\<lparr>tr_sequence := seq\<rparr>))"

text \<open>Sending to the ingress fails once its receiver is gone.\<close>

definition send_ingress :: "sequenced_event \<Rightarrow> transport \<Rightarrow> transport option" where
  "send_ingress e t = (if tr_ingress_open t then Some (t\<lparr>tr_ingress := tr_ingress t @ [e]\<rparr>) else None)"

definition send_inbound :: "sequenced_event \<Rightarrow> transport \<Rightarrow> transport" where
  "send_inbound e t = t\<lparr>tr_inbound := tr_inbound t @ [e]\<rparr>"

fun initialize_accepted :: "incoming_frame \<Rightarrow> bool" where
  "initialize_accepted (Response i _ None _) \<longleftrightarrow> i = RpcNumber 0"
| "initialize_accepted _ \<longleftrightarrow> False"

fun initialize_rejected :: "incoming_frame \<Rightarrow> bool" where
  "initialize_rejected (Response i _ (Some _) _) \<longleftrightarrow> i = RpcNumber 0"
| "initialize_rejected _ \<longleftrightarrow> False"

datatype handshake = HandshakeContinues | HandshakeDone | HandshakeFailed string

text \<open>
  One pass of the loop of \<open>initialize\<close>; \<open>write\<close> is the result of writing the
  \<open>initialized\<close> notification, which the accepting response leads to.
\<close>

definition initialize_read :: "transport_env \<Rightarrow> clock \<Rightarrow> received \<Rightarrow> string option \<Rightarrow> transport \<Rightarrow> handshake \<times> transport" where
  "initialize_read env clock rx write t =
     (case rx of
        RxTimedOut \<Rightarrow> (HandshakeFailed ''initialize response timed out'', t)
      | RxEnded \<Rightarrow> (HandshakeFailed ''socket closed during initialize'', t)
      | RxError e \<Rightarrow> (HandshakeFailed e, t)
      | RxMessage m \<Rightarrow>
          (case message_json env m of
             Inl e \<Rightarrow> (HandshakeFailed e, t)
           | Inr None \<Rightarrow> (HandshakeContinues, t)
           | Inr (Some v) \<Rightarrow>
               (case parse_frame v of
                  Inl e \<Rightarrow> (HandshakeFailed e, t)
                | Inr frame \<Rightarrow>
                    (let (event, t1) = next_event clock frame t
                     in case send_ingress event t1 of
                          None \<Rightarrow> (HandshakeFailed ''authoritative ingress closed'', t1)
                        | Some t2 \<Rightarrow>
                            (let t3 = set_health Handshaking None (send_inbound event t2)
                             in if initialize_accepted frame then
                                  (case write of
                                     Some err \<Rightarrow> HandshakeFailed err
                                   | None \<Rightarrow> HandshakeDone,
                                   socket_send (NotificationFrame (notification_envelope ''initialized'' (JObject []))) write t3)
                                else if initialize_rejected frame then (HandshakeFailed ''initialize rejected'', t3)
                                else (HandshakeContinues, t3))))))"

text \<open>The gate is closed and the backoff reset before the new connection is driven.\<close>

definition begin_drive :: "duration \<Rightarrow> transport \<Rightarrow> transport" where
  "begin_drive now t =
     (set_health Reconciling None (t\<lparr>tr_ready := False, tr_backoff := tc_retry_initial (tr_config t)\<rparr>))
       \<lparr>tr_task := AtDrive [] now\<rparr>"

definition handshake_read :: "transport_env \<Rightarrow> clock \<Rightarrow> received \<Rightarrow> string option \<Rightarrow> transport \<Rightarrow> transport" where
  "handshake_read env clock rx write t =
     (let (h, t1) = initialize_read env clock rx write t
      in case h of
           HandshakeContinues \<Rightarrow> t1
         | HandshakeDone \<Rightarrow> begin_drive (ck_elapsed clock) t1
         | HandshakeFailed detail \<Rightarrow> connection_failed detail t1)"

section \<open>Commands while disconnected\<close>

text \<open>
  Receiving a command: the head of the queue, \<open>None\<close> inside when the queue is empty and
  every handle is gone, and no result (the task waits) otherwise.
\<close>

definition recv_command :: "transport \<Rightarrow> (command option \<times> transport) option" where
  "recv_command t =
     (case tr_commands t of
        c # cs \<Rightarrow> Some (Some c, t\<lparr>tr_commands := cs\<rparr>)
      | [] \<Rightarrow> if tr_handles t then None else Some (None, t))"

definition reject_while_disconnected :: "command option \<Rightarrow> string \<Rightarrow> transport \<Rightarrow> bool \<times> transport" where
  "reject_while_disconnected c detail t =
     (case c of
        Some (CmdRequest _ _ _ k) \<Rightarrow> (False, resolve k (Resolved (Inl (NotWritten detail))) t)
      | Some (CmdShutdown k) \<Rightarrow> (True, resolve k Done t)
      | Some (CmdNotify _ _) \<Rightarrow> (False, t)
      | Some (CmdReconciled k) \<Rightarrow> (False, resolve k Done t)
      | None \<Rightarrow> (True, t))"

fun command_channel :: "command \<Rightarrow> channel option" where
  "command_channel (CmdRequest _ _ _ k) = Some k"
| "command_channel (CmdNotify _ _) = None"
| "command_channel (CmdReconciled k) = Some k"
| "command_channel (CmdShutdown k) = Some k"

text \<open>A command that is dropped drops the sender it carries.\<close>

definition drop_command :: "command \<Rightarrow> transport \<Rightarrow> transport" where
  "drop_command c t = (case command_channel c of None \<Rightarrow> t | Some k \<Rightarrow> resolve k Dropped t)"

text \<open>The task returns: the receiver goes, with every command still in it.\<close>

definition end_task :: "transport \<Rightarrow> transport" where
  "end_task t = (fold drop_command (tr_commands t) t)\<lparr>tr_commands := [], tr_task := AtEnd\<rparr>"

definition backoff_command :: "string \<Rightarrow> transport \<Rightarrow> transport option" where
  "backoff_command detail t =
     map_option (\<lambda>(c, t1).
         let (stop, t2) = reject_while_disconnected c detail t1
         in if stop then end_task t2 else back_off t2)
       (recv_command t)"

section \<open>Driving a connection\<close>

datatype drive_exit = ExitShutdown channel | ExitDisconnected string | ExitCommandsClosed

fun pending_of :: "task \<Rightarrow> (rpc_id \<times> pending) list" where
  "pending_of (AtDrive ps _) = ps"
| "pending_of _ = []"

fun last_read_of :: "task \<Rightarrow> duration" where
  "last_read_of (AtDrive _ r) = r"
| "last_read_of _ = 0"

text \<open>\<open>HashMap::insert\<close>: an entry that was under the key is dropped.\<close>

definition insert_pending :: "rpc_id \<Rightarrow> pending \<Rightarrow> transport \<Rightarrow> transport" where
  "insert_pending i p t =
     (let ps = pending_of (tr_task t);
          t1 = (case map_of ps i of None \<Rightarrow> t | Some old \<Rightarrow> resolve (pd_response old) Dropped t)
      in t1\<lparr>tr_task := AtDrive ((i, p) # filter (\<lambda>q. fst q \<noteq> i) ps) (last_read_of (tr_task t))\<rparr>)"

text \<open>
  Each branch of the \<open>select!\<close> gives the exit it breaks with, if it does. \<open>write\<close> is the
  result of the write the branch makes.
\<close>

definition drive_command :: "string option \<Rightarrow> command option \<Rightarrow> transport \<Rightarrow> drive_exit option \<times> transport" where
  "drive_command write c t =
     (case c of
        Some (CmdRequest i meth params k) \<Rightarrow>
          (let t1 = socket_send (RequestFrame k i meth params) write t
           in case write of
                Some err \<Rightarrow> (Some (ExitDisconnected err), resolve k (Resolved (Inl (NotWritten err))) t1)
              | None \<Rightarrow> (None, insert_pending i \<lparr> pd_method = meth, pd_response = k \<rparr> t1))
      | Some (CmdNotify meth params) \<Rightarrow>
          (map_option ExitDisconnected write,
           socket_send (NotificationFrame (notification_envelope meth params)) write t)
      | Some (CmdReconciled k) \<Rightarrow> (None, resolve k Done (set_health Connected None (t\<lparr>tr_ready := True\<rparr>)))
      | Some (CmdShutdown k) \<Rightarrow> (Some (ExitShutdown k), t)
      | None \<Rightarrow> (Some ExitCommandsClosed, t))"

text \<open>A response answers the pending request of its id, if there is one.\<close>

fun response_answer :: "string \<Rightarrow> json option \<Rightarrow> json option \<Rightarrow> request_error + json" where
  "response_answer meth result (Some err) = Inl (Rejected meth err)"
| "response_answer meth result None = Inr (unwrap_or result JNull)"

fun answer_pending :: "incoming_frame \<Rightarrow> transport \<Rightarrow> transport" where
  "answer_pending (Response i result err _) t =
     (let ps = pending_of (tr_task t)
      in case map_of ps i of
           None \<Rightarrow> t
         | Some p \<Rightarrow> resolve (pd_response p) (Resolved (response_answer (pd_method p) result err))
             (t\<lparr>tr_task := AtDrive (filter (\<lambda>q. fst q \<noteq> i) ps) (last_read_of (tr_task t))\<rparr>))"
| "answer_pending _ t = t"

definition drive_frame :: "clock \<Rightarrow> incoming_frame \<Rightarrow> transport \<Rightarrow> drive_exit option \<times> transport" where
  "drive_frame clock frame t =
     (let (event, t1) = next_event clock frame t
      in case send_ingress event (answer_pending frame t1) of
           None \<Rightarrow> (Some ExitCommandsClosed, answer_pending frame t1)
         | Some t2 \<Rightarrow>
             (None, (send_inbound event t2)\<lparr>tr_health := (tr_health t2)\<lparr>hl_last_frame_sequence := ev_sequence event\<rparr>\<rparr>))"

definition drive_read :: "transport_env \<Rightarrow> clock \<Rightarrow> received \<Rightarrow> string option \<Rightarrow> transport \<Rightarrow>
    drive_exit option \<times> transport" where
  "drive_read env clock rx write t =
     (case rx of
        RxTimedOut \<Rightarrow> (None, t)
      | RxEnded \<Rightarrow> (Some (ExitDisconnected ''websocket stream ended''), t)
      | RxError e \<Rightarrow> (Some (ExitDisconnected e), t)
      | RxMessage m \<Rightarrow>
          (let t1 = t\<lparr>tr_task := AtDrive (pending_of (tr_task t)) (ck_read clock)\<rparr>
           in case m of
                MsgPing payload \<Rightarrow> (None, socket_send (PongFrame payload) write t1)
              | _ \<Rightarrow>
                  (case message_json env m of
                     Inl e \<Rightarrow> (Some (ExitDisconnected e), t1)
                   | Inr None \<Rightarrow> (None, t1)
                   | Inr (Some v) \<Rightarrow>
                       (case parse_frame v of
                          Inl _ \<Rightarrow> (None, t1)
                        | Inr frame \<Rightarrow> drive_frame clock frame t1))))"

definition drive_tick :: "transport_env \<Rightarrow> duration \<Rightarrow> string option \<Rightarrow> transport \<Rightarrow> drive_exit option \<times> transport" where
  "drive_tick env now write t =
     (let idle = now - last_read_of (tr_task t); timeout = tc_read_idle_timeout (tr_config t)
      in if timeout * 2 \<le> idle then (Some (ExitDisconnected (''read idle for '' @ te_show_duration env idle)), t)
         else if timeout \<le> idle then
           (map_option (\<lambda>_. ExitDisconnected ''ping write failed'') write, socket_send PingFrame write t)
         else (None, t))"

fun exit_detail :: "drive_exit \<Rightarrow> string" where
  "exit_detail (ExitDisconnected detail) = detail"
| "exit_detail _ = ''connection closed''"

definition fail_pending :: "string \<Rightarrow> rpc_id \<times> pending \<Rightarrow> transport \<Rightarrow> transport" where
  "fail_pending detail q t =
     resolve (pd_response (snd q)) (Resolved (Inl (WrittenOutcomeUnknown (fst q) (pd_method (snd q)) detail))) t"

text \<open>The end of \<open>drive\<close> and what \<open>connection_loop\<close> does with its exit.\<close>

definition finish_drive :: "transport_env \<Rightarrow> string option \<Rightarrow> drive_exit \<Rightarrow> transport \<Rightarrow> transport" where
  "finish_drive env write exit t =
     (let t1 = fold (fail_pending (exit_detail exit)) (te_drain env (pending_of (tr_task t))) t
      in case exit of
           ExitShutdown k \<Rightarrow> end_task (resolve k Done (set_health Stopped None (socket_send CloseFrame write t1)))
         | ExitDisconnected detail \<Rightarrow>
             begin_attempt (set_health Degraded (Some detail)
               (t1\<lparr>tr_ready := False, tr_attempts := tr_attempts t1 + 1\<rparr>))
         | ExitCommandsClosed \<Rightarrow> end_task t1)"

definition drive_next :: "transport_env \<Rightarrow> string option \<Rightarrow> drive_exit option \<times> transport \<Rightarrow> transport" where
  "drive_next env write result =
     (case result of (None, t) \<Rightarrow> t | (Some exit, t) \<Rightarrow> finish_drive env write exit t)"

section \<open>The task\<close>

datatype task_input =
    ConnectReturned connect_result "string option"
  | HandshakeRead clock received "string option"
  | BackoffCommand
  | BackoffElapsed
  | DriveCommand "string option"
  | DriveRead clock received "string option"
  | DriveTick duration "string option"

text \<open>
  One step of the task: \<open>None\<close> when the task does not wait for such an input where it is.
\<close>

definition task_step :: "transport_env \<Rightarrow> task_input \<Rightarrow> transport \<Rightarrow> transport option" where
  "task_step env x t =
     (case (tr_task t, x) of
        (AtConnect, ConnectReturned result write) \<Rightarrow> Some (connect_returned result write t)
      | (AtInitialize, HandshakeRead clock rx write) \<Rightarrow> Some (handshake_read env clock rx write t)
      | (AtBackoff detail, BackoffCommand) \<Rightarrow> backoff_command detail t
      | (AtBackoff detail, BackoffElapsed) \<Rightarrow> Some (back_off t)
      | (AtDrive ps r, DriveCommand write) \<Rightarrow>
          map_option (\<lambda>(c, t1). drive_next env write (drive_command write c t1)) (recv_command t)
      | (AtDrive ps r, DriveRead clock rx write) \<Rightarrow>
          if rx = RxTimedOut then None else Some (drive_next env write (drive_read env clock rx write t))
      | (AtDrive ps r, DriveTick now write) \<Rightarrow> Some (drive_next env write (drive_tick env now write t))
      | _ \<Rightarrow> None)"

section \<open>Handles\<close>

definition is_reconciled :: "transport \<Rightarrow> bool" where
  "is_reconciled t = tr_ready t"

definition take_ingress :: "transport \<Rightarrow> bool \<times> transport" where
  "take_ingress t = (\<not> tr_ingress_taken t, t\<lparr>tr_ingress_taken := True\<rparr>)"

text \<open>
  \<open>request_inner\<close> up to the send: the gate of an action, a fresh id, a fresh oneshot. The
  error of a closed gate is returned at once.
\<close>

definition request_begin :: "string \<Rightarrow> json \<Rightarrow> bool \<Rightarrow> transport \<Rightarrow> (request_error + channel) \<times> transport" where
  "request_begin meth params action t =
     (if action \<and> \<not> is_reconciled t then (Inl (NotWritten ''reconciliation gate is closed''), t)
      else
        (let k = tr_next_channel t
         in (Inr k, t\<lparr>tr_next_id := tr_next_id t + 1, tr_next_channel := Suc k,
               tr_sending := tr_sending t @ [CmdRequest (RpcNumber (tr_next_id t)) meth params k]\<rparr>)))"

text \<open>
  The rest of \<open>request_inner\<close>: what the wait for the answer on a channel gives, when the
  request timeout has passed and when it has not; \<open>None\<close> while it still waits.
\<close>

definition request_await :: "bool \<Rightarrow> string \<Rightarrow> channel \<Rightarrow> transport \<Rightarrow> (request_error + json) option" where
  "request_await elapsed meth k t =
     (case map_of (tr_resolved t) k of
        Some (Resolved r) \<Rightarrow> Some r
      | Some Done \<Rightarrow> Some (Inl RequestClosed)
      | Some Dropped \<Rightarrow> Some (Inl RequestClosed)
      | None \<Rightarrow> if elapsed then Some (Inl (TimedOut meth)) else None)"

definition notify_begin :: "string \<Rightarrow> json \<Rightarrow> transport \<Rightarrow> transport" where
  "notify_begin meth params t = t\<lparr>tr_sending := tr_sending t @ [CmdNotify meth params]\<rparr>"

text \<open>\<open>mark_reconciled\<close> opens the gate before its command is sent.\<close>

definition mark_reconciled :: "transport \<Rightarrow> transport" where
  "mark_reconciled t =
     t\<lparr>tr_ready := True, tr_next_channel := Suc (tr_next_channel t),
       tr_sending := tr_sending t @ [CmdReconciled (tr_next_channel t)]\<rparr>"

definition shutdown_begin :: "transport \<Rightarrow> transport" where
  "shutdown_begin t =
     t\<lparr>tr_next_channel := Suc (tr_next_channel t),
       tr_sending := tr_sending t @ [CmdShutdown (tr_next_channel t)]\<rparr>"

text \<open>
  A send into the command channel completes: the channel has room for 256 commands; a send
  after the receiver is gone fails, and \<open>mark_reconciled\<close> then closes the gate again.
\<close>

fun is_mark :: "command \<Rightarrow> bool" where
  "is_mark (CmdReconciled _) = True"
| "is_mark _ = False"

definition send_command :: "nat \<Rightarrow> transport \<Rightarrow> transport option" where
  "send_command i t =
     (if i < length (tr_sending t) then
        (let c = tr_sending t ! i; t1 = t\<lparr>tr_sending := remove_index i (tr_sending t)\<rparr>
         in if tr_task t = AtEnd then
              Some (let t2 = drop_command c t1 in if is_mark c then t2\<lparr>tr_ready := False\<rparr> else t2)
            else if length (tr_commands t) < 256 then Some (t1\<lparr>tr_commands := tr_commands t @ [c]\<rparr>)
            else None)
      else None)"

datatype handle_op =
    RequestBegin string json bool
  | NotifyBegin string json
  | MarkReconciled
  | ShutdownBegin
  | SendCommand nat
  | TakeIngress
  | DropIngress
  | DropHandles

text \<open>
  Handles are gone only when no task is about to send a command; after that there is none that
  could start one.
\<close>

definition handle_step :: "handle_op \<Rightarrow> transport \<Rightarrow> transport option" where
  "handle_step x t =
     (case x of
        SendCommand i \<Rightarrow> send_command i t
      | DropIngress \<Rightarrow> Some (t\<lparr>tr_ingress_open := False\<rparr>)
      | DropHandles \<Rightarrow> if tr_sending t = [] then Some (t\<lparr>tr_handles := False\<rparr>) else None
      | _ \<Rightarrow>
          if \<not> tr_handles t then None
          else Some (case x of
                 RequestBegin meth params action \<Rightarrow> snd (request_begin meth params action t)
               | NotifyBegin meth params \<Rightarrow> notify_begin meth params t
               | MarkReconciled \<Rightarrow> mark_reconciled t
               | ShutdownBegin \<Rightarrow> shutdown_begin t
               | TakeIngress \<Rightarrow> snd (take_ingress t)
               | _ \<Rightarrow> t))"

section \<open>Runs\<close>

datatype transport_input = Task task_input | Handle handle_op

fun transport_step :: "transport_env \<Rightarrow> transport_input \<Rightarrow> transport \<Rightarrow> transport option" where
  "transport_step env (Task x) t = task_step env x t"
| "transport_step env (Handle x) t = handle_step x t"

fun transport_run :: "transport_env \<Rightarrow> transport_input list \<Rightarrow> transport \<Rightarrow> transport option" where
  "transport_run env [] t = Some t"
| "transport_run env (x # xs) t = Option.bind (transport_step env x t) (transport_run env xs)"

end
