(* ===== verification/Channels.thy ===== *)
theory Channels
  imports Transport
begin

text \<open>
  Invariants of the transport's answer channels: every oneshot sender given out is in exactly one
  place (a command, a pending request, or gone), and what was answered on it agrees with what
  was written to the socket and received from it.
\<close>

section \<open>Every oneshot sender has one place\<close>

abbreviation cmd_channels :: "command list \<Rightarrow> channel list" where
  "cmd_channels \<equiv> List.map_filter command_channel"

abbreviation waiting_channels :: "transport \<Rightarrow> channel list" where
  "waiting_channels t \<equiv> cmd_channels (tr_sending t) @ cmd_channels (tr_commands t)"

definition pending_channels :: "(rpc_id \<times> pending) list \<Rightarrow> channel list" where
  "pending_channels ps = map (\<lambda>q. pd_response (snd q)) ps"

text \<open>The senders in the transport: in commands, in pending requests, and gone.\<close>

definition held :: "transport \<Rightarrow> channel multiset" where
  "held t = mset (cmd_channels (tr_sending t)) + mset (cmd_channels (tr_commands t)) +
     mset (pending_channels (pending_of (tr_task t))) + mset (map fst (tr_resolved t))"

definition keys_ok :: "transport \<Rightarrow> bool" where
  "keys_ok t \<longleftrightarrow> distinct (map fst (pending_of (tr_task t)))"

fun exit_channels :: "drive_exit option \<Rightarrow> channel multiset" where
  "exit_channels (Some (ExitShutdown k)) = {#k#}"
| "exit_channels _ = {#}"

definition option_channels :: "command option \<Rightarrow> channel multiset" where
  "option_channels c = (case Option.bind c command_channel of None \<Rightarrow> {#} | Some k \<Rightarrow> {#k#})"

lemmas transport_fields [simp] = resolve_def socket_send_def set_health_def send_inbound_def

lemma mset_map_filter: "mset (List.map_filter f xs) =
    image_mset (\<lambda>x. the (f x)) (filter_mset (\<lambda>x. f x \<noteq> None) (mset xs))"
  by (induction xs) (auto simp: List.map_filter_simps split: option.splits)

lemma mset_cmd_channels_remove:
  assumes "i < length cs"
  shows "mset (cmd_channels cs) = mset (cmd_channels (remove_index i cs)) + option_channels (Some (cs ! i))"
proof -
  have "mset cs = add_mset (cs ! i) (mset (remove_index i cs))"
    using mset_remove_index [OF assms] assms by (metis insert_DiffM nth_mem_mset)
  then show ?thesis by (auto simp: mset_map_filter option_channels_def)
qed

lemma pending_split:
  assumes "map_of ps i = Some p" and "distinct (map fst ps)"
  shows "mset ps = add_mset (i, p) (mset (filter (\<lambda>q. fst q \<noteq> i) ps))"
  using assms
proof (induction ps)
  case (Cons q ps)
  obtain j r where q: "q = (j, r)" by fastforce
  show ?case
  proof (cases "j = i")
    case True
    with Cons.prems q have "filter (\<lambda>q. fst q \<noteq> i) ps = ps" by (auto intro!: filter_True)
    with True Cons.prems q show ?thesis by simp
  next
    case False
    with Cons q show ?thesis by simp
  qed
qed simp

lemma fold_drop_command:
  "fold drop_command cs t = t\<lparr>tr_resolved := tr_resolved t @ map (\<lambda>k. (k, Dropped)) (cmd_channels cs)\<rparr>"
  by (induction cs arbitrary: t) (auto simp: drop_command_def List.map_filter_simps split: option.splits)

definition unknown_answer :: "string \<Rightarrow> rpc_id \<times> pending \<Rightarrow> channel \<times> resolution" where
  "unknown_answer detail q =
     (pd_response (snd q), Resolved (Inl (WrittenOutcomeUnknown (fst q) (pd_method (snd q)) detail)))"

lemma fold_fail_pending:
  "fold (fail_pending d) qs t = t\<lparr>tr_resolved := tr_resolved t @ map (unknown_answer d) qs\<rparr>"
  by (induction qs arbitrary: t) (auto simp: fail_pending_def unknown_answer_def)

lemma map_fst_unknown [simp]: "map fst (map (unknown_answer d) qs) = pending_channels qs"
  by (simp add: unknown_answer_def pending_channels_def)

lemma end_task_eq:
  "end_task t = t\<lparr>tr_resolved := tr_resolved t @ map (\<lambda>k. (k, Dropped)) (cmd_channels (tr_commands t)),
     tr_commands := [], tr_task := AtEnd\<rparr>"
  by (simp add: end_task_def fold_drop_command)

lemma held_end_task: "pending_of (tr_task t) = [] \<Longrightarrow> held (end_task t) = held t"
  by (simp add: end_task_eq held_def List.map_filter_simps comp_def pending_channels_def)

lemma recv_command_held:
  assumes "recv_command t = Some (c, t1)"
  shows "held t = held t1 + option_channels c" and "tr_task t1 = tr_task t"
    and "tr_next_channel t1 = tr_next_channel t"
  using assms by (auto simp: recv_command_def held_def option_channels_def List.map_filter_simps
      split: list.splits if_splits option.splits)

lemma held_simps [simp]:
  "held (t\<lparr>tr_health := h\<rparr>) = held t" "held (t\<lparr>tr_sequence := s\<rparr>) = held t"
  "held (t\<lparr>tr_written := w\<rparr>) = held t" "held (t\<lparr>tr_ready := b\<rparr>) = held t"
  "held (t\<lparr>tr_attempts := n\<rparr>) = held t" "held (t\<lparr>tr_backoff := d\<rparr>) = held t"
  "held (t\<lparr>tr_ingress := es\<rparr>) = held t" "held (t\<lparr>tr_inbound := es\<rparr>) = held t"
  "tr_resolved t = rs \<Longrightarrow> held (t\<lparr>tr_resolved := rs @ [(k, r)]\<rparr>) = add_mset k (held t)"
  "held (t\<lparr>tr_ingress_open := b\<rparr>) = held t" "held (t\<lparr>tr_handles := b\<rparr>) = held t"
  "held (t\<lparr>tr_ingress_taken := b\<rparr>) = held t"  "held (t\<lparr>tr_next_id := s\<rparr>) = held t"
  by (auto simp: held_def)

lemma held_task:
  "held (t\<lparr>tr_task := a\<rparr>) + mset (pending_channels (pending_of (tr_task t))) =
     held t + mset (pending_channels (pending_of a))"
  by (simp add: held_def ac_simps)

lemma held_retask:
  assumes "mset (pending_channels (pending_of (tr_task t))) = M + mset (pending_channels (pending_of a))"
  shows "held t = M + held (t\<lparr>tr_task := a\<rparr>)"
  using assms by (simp add: held_def ac_simps)

lemma pending_channels_split:
  assumes "map_of ps i = Some p" and "distinct (map fst ps)"
  shows "mset (pending_channels ps) = add_mset (pd_response p) (mset (pending_channels (filter (\<lambda>q. fst q \<noteq> i) ps)))"
  using arg_cong [OF pending_split [OF assms], of "image_mset (\<lambda>q. pd_response (snd q))"]
  by (simp add: pending_channels_def)

lemma distinct_keys_filter: "distinct (map fst ps) \<Longrightarrow> distinct (map fst (filter P ps))"
  by (induction ps) auto

lemma held_insert_pending:
  assumes "keys_ok t"
  shows "held (insert_pending i p t) = add_mset (pd_response p) (held t)" and "keys_ok (insert_pending i p t)"
proof -
  let ?ps = "pending_of (tr_task t)"
  show "held (insert_pending i p t) = add_mset (pd_response p) (held t)"
  proof (cases "map_of ?ps i")
    case None
    then have "filter (\<lambda>q. fst q \<noteq> i) ?ps = ?ps" by (force simp: map_of_eq_None_iff intro!: filter_True)
    with None show ?thesis by (simp add: insert_pending_def held_def pending_channels_def)
  next
    case (Some old)
    with assms pending_channels_split [OF Some] show ?thesis
      by (simp add: insert_pending_def held_def keys_ok_def pending_channels_def)
  qed
  show "keys_ok (insert_pending i p t)"
    using assms by (auto simp: insert_pending_def keys_ok_def distinct_keys_filter Let_def)
qed

lemma held_answer_pending:
  assumes "keys_ok t"
  shows "held (answer_pending frame t) = held t" and "keys_ok (answer_pending frame t)"
proof -
  have "held (answer_pending frame t) = held t \<and> keys_ok (answer_pending frame t)"
  proof (cases frame)
    case (Response i result err raw)
    show ?thesis
    proof (cases "map_of (pending_of (tr_task t)) i")
      case (Some p)
      with assms pending_channels_split [OF Some] Response show ?thesis
        by (simp add: keys_ok_def held_def distinct_keys_filter)
    qed (use Response assms in simp)
  qed (use assms in simp_all)
  then show "held (answer_pending frame t) = held t" and "keys_ok (answer_pending frame t)" by blast+
qed

lemma keys_ok_simps [simp]:
  "keys_ok (t\<lparr>tr_health := h\<rparr>) = keys_ok t" "keys_ok (t\<lparr>tr_sequence := s\<rparr>) = keys_ok t"
  "keys_ok (t\<lparr>tr_written := w\<rparr>) = keys_ok t" "keys_ok (t\<lparr>tr_ready := b\<rparr>) = keys_ok t"
  "keys_ok (t\<lparr>tr_attempts := n\<rparr>) = keys_ok t" "keys_ok (t\<lparr>tr_backoff := d\<rparr>) = keys_ok t"
  "keys_ok (t\<lparr>tr_ingress := es\<rparr>) = keys_ok t" "keys_ok (t\<lparr>tr_inbound := es\<rparr>) = keys_ok t"
  "keys_ok (t\<lparr>tr_resolved := rs\<rparr>) = keys_ok t" "keys_ok (t\<lparr>tr_commands := cs\<rparr>) = keys_ok t"
  "keys_ok (t\<lparr>tr_task := a\<rparr>) = distinct (map fst (pending_of a))"
  by (simp_all add: keys_ok_def)

lemma exit_channels_disconnected [simp]: "exit_channels (map_option (\<lambda>x. ExitDisconnected (f x)) w) = {#}"
  by (cases w) auto

lemma held_drive_command:
  assumes "keys_ok t" and "drive_command write c t = (exit, t1)"
  shows "held t1 + exit_channels exit = held t + option_channels c" and "keys_ok t1"
  using assms exit_channels_disconnected [of "\<lambda>x. x" "write"]
  by (auto simp: drive_command_def option_channels_def held_insert_pending Let_def
      split: option.splits command.splits)

lemma next_event_frames:
  assumes "next_event clock frame t = (e, t1)"
  shows "t1 = t\<lparr>tr_sequence := tr_sequence t + 1\<rparr>"
    and "e = from_frame (ck_unix clock) (tr_sequence t + 1) (ck_elapsed clock) frame"
  using assms by (auto simp: next_event_def Let_def)

lemma held_drive_frame:
  assumes "keys_ok t" and "drive_frame clock frame t = (exit, t1)"
  shows "held t1 + exit_channels exit = held t" and "keys_ok t1"
  using assms by (auto simp: drive_frame_def next_event_def send_ingress_def Let_def held_answer_pending
      split: option.splits if_splits)

lemma held_drive_read:
  assumes "keys_ok t" and "drive_read env clock rx write t = (exit, t1)"
  shows "held t1 + exit_channels exit = held t" and "keys_ok t1"
proof -
  let ?t = "t\<lparr>tr_task := AtDrive (pending_of (tr_task t)) (ck_read clock)\<rparr>"
  have h: "held ?t = held t" and k: "keys_ok ?t" using assms(1) by (simp_all add: held_def keys_ok_def)
  have "held t1 + exit_channels exit = held t \<and> keys_ok t1"
    using assms(2) k held_drive_frame [OF k] h
    by (auto simp: drive_read_def Let_def keys_ok_def split: received.splits ws_message.splits sum.splits option.splits)
  then show "held t1 + exit_channels exit = held t" and "keys_ok t1" by blast+
qed

lemma held_drive_tick:
  assumes "keys_ok t" and "drive_tick env now write t = (exit, t1)"
  shows "held t1 + exit_channels exit = held t" and "keys_ok t1"
  using assms by (cases "write"; auto simp: drive_tick_def Let_def split: if_splits)+

lemma mset_pending_drain: "drains_all env \<Longrightarrow> mset (pending_channels (te_drain env ps)) = mset (pending_channels ps)"
  by (simp add: pending_channels_def drains_all_def)

lemma held_finish_drive:
  assumes "drains_all env"
  shows "held (finish_drive env write exit t) = held t + exit_channels (Some exit)"
  using mset_pending_drain [OF assms] by (cases exit)
    (simp_all add: finish_drive_def fold_fail_pending Let_def end_task_eq begin_attempt_def held_def
      List.map_filter_simps comp_def pending_channels_def unknown_answer_def)

lemma keys_ok_finish_drive [simp]: "keys_ok (finish_drive env write exit t)"
  by (cases exit) (simp_all add: finish_drive_def Let_def end_task_eq begin_attempt_def)

lemma held_drive_next:
  assumes "drains_all env" and "keys_ok t"
  shows "held (drive_next env write (exit, t)) = held t + exit_channels exit"
    and "keys_ok (drive_next env write (exit, t))"
  using assms by (cases exit; simp add: drive_next_def held_finish_drive)+

lemma held_no_pending:
  "pending_of (tr_task t) = [] \<Longrightarrow> pending_of a = [] \<Longrightarrow> held (t\<lparr>tr_task := a\<rparr>) = held t"
  by (simp add: held_def)

lemma held_begin_attempt: "pending_of (tr_task t) = [] \<Longrightarrow> held (begin_attempt t) = held t"
  and held_connection_failed: "pending_of (tr_task t) = [] \<Longrightarrow> held (connection_failed d t) = held t"
  and held_back_off: "pending_of (tr_task t) = [] \<Longrightarrow> held (back_off t) = held t"
  and held_begin_drive: "pending_of (tr_task t) = [] \<Longrightarrow> held (begin_drive now t) = held t"
  by (simp_all add: held_def begin_attempt_def connection_failed_def back_off_def begin_drive_def)

lemma keys_ok_disconnected [simp]: "keys_ok (begin_attempt t)" "keys_ok (connection_failed d t)" "keys_ok (back_off t)"
  "keys_ok (begin_drive now t)" "keys_ok (end_task t)"
  by (simp_all add: begin_attempt_def connection_failed_def back_off_def begin_drive_def end_task_eq)

lemma held_connect_returned:
  assumes "pending_of (tr_task t) = []"
  shows "held (connect_returned result write t) = held t" and "keys_ok (connect_returned result write t)"
  using assms by (auto simp: connect_returned_def held_connection_failed Let_def held_no_pending
      split: sum.splits option.splits)

lemma initialize_read_frames:
  assumes "initialize_read env clock rx write t = (h, t1)"
  shows "held t1 = held t" and "tr_task t1 = tr_task t" and "tr_next_channel t1 = tr_next_channel t"
  using assms by (auto simp: initialize_read_def next_event_def send_ingress_def Let_def
      split: received.splits sum.splits option.splits if_splits)

lemma held_handshake_read:
  assumes "tr_task t = AtInitialize"
  shows "held (handshake_read env clock rx write t) = held t" and "keys_ok (handshake_read env clock rx write t)"
proof -
  obtain h t1 where r: "initialize_read env clock rx write t = (h, t1)" by fastforce
  note f = initialize_read_frames [OF r]
  have p: "pending_of (tr_task t1) = []" "keys_ok t1" using f assms by (simp_all add: keys_ok_def)
  show "held (handshake_read env clock rx write t) = held t"
    using r f(1) p by (cases h) (simp_all add: handshake_read_def held_begin_drive held_connection_failed)
  show "keys_ok (handshake_read env clock rx write t)"
    using r p by (cases h) (simp_all add: handshake_read_def)
qed

lemma backoff_command_cases:
  assumes "backoff_command detail t = Some t'"
  obtains c t1 stop t2 where "recv_command t = Some (c, t1)" "reject_while_disconnected c detail t1 = (stop, t2)"
    "t' = (if stop then end_task t2 else back_off t2)"
proof -
  obtain c t1 where r: "recv_command t = Some (c, t1)" using assms by (auto simp: backoff_command_def)
  obtain stop t2 where "reject_while_disconnected c detail t1 = (stop, t2)" by fastforce
  with that r assms show ?thesis by (auto simp: backoff_command_def)
qed

lemma held_backoff_command:
  assumes "backoff_command detail t = Some t'" and "tr_task t = AtBackoff d"
  shows "held t' = held t" and "keys_ok t'"
proof -
  from assms(1) obtain c t1 stop t2 where r: "recv_command t = Some (c, t1)"
      and rj: "reject_while_disconnected c detail t1 = (stop, t2)" and t': "t' = (if stop then end_task t2 else back_off t2)"
    by (rule backoff_command_cases)
  have "held t2 = held t1 + option_channels c" "tr_task t2 = tr_task t1"
    using rj by (auto simp: reject_while_disconnected_def option_channels_def split: option.splits command.splits)
  with recv_command_held [OF r] assms(2) t' show "held t' = held t" by (simp add: held_end_task held_back_off)
  show "keys_ok t'" using t' by simp
qed

section \<open>Case analysis of a step\<close>

lemma task_step_cases:
  assumes "task_step env x t = Some t'"
  obtains
    (Connect) result w where "x = ConnectReturned result w" "tr_task t = AtConnect"
      "t' = connect_returned result w t"
  | (Handshake) clock rx w where "x = HandshakeRead clock rx w" "tr_task t = AtInitialize"
      "t' = handshake_read env clock rx w t"
  | (Reject) detail where "x = BackoffCommand" "tr_task t = AtBackoff detail" "backoff_command detail t = Some t'"
  | (Elapsed) detail where "x = BackoffElapsed" "tr_task t = AtBackoff detail" "t' = back_off t"
  | (Command) w ps r c t1 exit t2 where "x = DriveCommand w" "tr_task t = AtDrive ps r"
      "recv_command t = Some (c, t1)" "drive_command w c t1 = (exit, t2)" "t' = drive_next env w (exit, t2)"
  | (Read) clock rx w ps r exit t2 where "x = DriveRead clock rx w" "tr_task t = AtDrive ps r" "rx \<noteq> RxTimedOut"
      "drive_read env clock rx w t = (exit, t2)" "t' = drive_next env w (exit, t2)"
  | (Tick) now w ps r exit t2 where "x = DriveTick now w" "tr_task t = AtDrive ps r"
      "drive_tick env now w t = (exit, t2)" "t' = drive_next env w (exit, t2)"
proof (cases x)
  case (ConnectReturned result w)
  with assms that(1) show ?thesis by (auto simp: task_step_def split: task.splits)
next
  case (HandshakeRead clock rx w)
  with assms that(2) show ?thesis by (auto simp: task_step_def split: task.splits)
next
  case BackoffCommand
  with assms that(3) show ?thesis by (auto simp: task_step_def split: task.splits)
next
  case BackoffElapsed
  with assms that(4) show ?thesis by (auto simp: task_step_def split: task.splits)
next
  case (DriveCommand w)
  with assms obtain ps r c t1 where "tr_task t = AtDrive ps r" "recv_command t = Some (c, t1)"
      "t' = drive_next env w (drive_command w c t1)"
    by (auto simp: task_step_def split: task.splits)
  with DriveCommand that(5) show ?thesis by (metis surj_pair)
next
  case (DriveRead clock rx w)
  with assms obtain ps r where "tr_task t = AtDrive ps r" "rx \<noteq> RxTimedOut"
      "t' = drive_next env w (drive_read env clock rx w t)"
    by (auto simp: task_step_def split: task.splits if_splits)
  with DriveRead that(6) show ?thesis by (metis surj_pair)
next
  case (DriveTick now w)
  with assms obtain ps r where "tr_task t = AtDrive ps r" "t' = drive_next env w (drive_tick env now w t)"
    by (auto simp: task_step_def split: task.splits)
  with DriveTick that(7) show ?thesis by (metis surj_pair)
qed

lemma recv_command_keys: "recv_command t = Some (c, t1) \<Longrightarrow> keys_ok t1 = keys_ok t"
  by (simp add: keys_ok_def recv_command_held)

lemma task_step_held:
  assumes "drains_all env" and "keys_ok t" and "task_step env x t = Some t'"
  shows "held t' = held t" and "keys_ok t'"
proof -
  have "held t' = held t \<and> keys_ok t'"
    using assms(3)
  proof (cases rule: task_step_cases)
    case (Command w ps r c t1 exit t2)
    have "keys_ok t1" using recv_command_keys [OF Command(3)] assms(2) by simp
    note d = held_drive_command [OF this Command(4)]
    with held_drive_next [OF assms(1) d(2)] recv_command_held(1) [OF Command(3)] Command(5) show ?thesis by simp
  next
    case (Read clock rx w ps r exit t2)
    note d = held_drive_read [OF assms(2) Read(4)]
    with held_drive_next [OF assms(1) d(2)] Read(5) show ?thesis by simp
  next
    case (Tick now w ps r exit t2)
    note d = held_drive_tick [OF assms(2) Tick(3)]
    with held_drive_next [OF assms(1) d(2)] Tick(4) show ?thesis by simp
  qed (simp_all add: held_connect_returned held_handshake_read held_backoff_command held_back_off)
  then show "held t' = held t" and "keys_ok t'" by blast+
qed

lemma cmd_channels_snoc: "cmd_channels (cs @ [c]) = cmd_channels cs @ (case command_channel c of None \<Rightarrow> [] | Some k \<Rightarrow> [k])"
  by (induction cs) (auto simp: List.map_filter_simps split: option.splits)

lemma send_command_cases:
  assumes "send_command i t = Some t'"
  obtains (Ended) "i < length (tr_sending t)" "tr_task t = AtEnd"
      "t' = (let t2 = drop_command (tr_sending t ! i) (t\<lparr>tr_sending := remove_index i (tr_sending t)\<rparr>)
             in if is_mark (tr_sending t ! i) then t2\<lparr>tr_ready := False\<rparr> else t2)"
  | (Open) "i < length (tr_sending t)" "tr_task t \<noteq> AtEnd" "length (tr_commands t) < 256"
      "t' = t\<lparr>tr_sending := remove_index i (tr_sending t), tr_commands := tr_commands t @ [tr_sending t ! i]\<rparr>"
  using assms by (auto simp: send_command_def Let_def split: if_splits)

lemma send_command_frames:
  assumes "send_command i t = Some t'"
  shows "held t' = held t" and "tr_task t' = tr_task t" and "tr_next_channel t' = tr_next_channel t"
    and "tr_written t' = tr_written t"
    and "set (cmd_channels (tr_sending t')) \<union> set (cmd_channels (tr_commands t')) \<subseteq>
      set (cmd_channels (tr_sending t)) \<union> set (cmd_channels (tr_commands t))"
    and "tr_resolved t' = tr_resolved t \<or> (\<exists>k \<in> set (cmd_channels (tr_sending t)). tr_resolved t' = tr_resolved t @ [(k, Dropped)])"
proof -
  let ?c = "tr_sending t ! i" and ?rest = "remove_index i (tr_sending t)"
  have i: "i < length (tr_sending t)" using assms by (auto simp: send_command_def split: if_splits)
  note m = mset_cmd_channels_remove [OF i]
  have s: "set (cmd_channels (tr_sending t)) = set (cmd_channels ?rest) \<union> set_mset (option_channels (Some ?c))"
    using arg_cong [OF m, of set_mset] by simp
  have "held t' = held t \<and> tr_task t' = tr_task t \<and> tr_next_channel t' = tr_next_channel t \<and>
      tr_written t' = tr_written t \<and>
      set (cmd_channels (tr_sending t')) \<union> set (cmd_channels (tr_commands t')) \<subseteq>
        set (cmd_channels (tr_sending t)) \<union> set (cmd_channels (tr_commands t)) \<and>
      (tr_resolved t' = tr_resolved t \<or> (\<exists>k \<in> set (cmd_channels (tr_sending t)). tr_resolved t' = tr_resolved t @ [(k, Dropped)]))"
    using assms
  proof (cases rule: send_command_cases)
    case Ended
    show ?thesis
    proof (cases "command_channel ?c")
      case None
      with Ended s m show ?thesis by (simp add: Let_def drop_command_def option_channels_def held_def)
    next
      case (Some k)
      with Ended s m show ?thesis by (auto simp: Let_def drop_command_def option_channels_def held_def)
    qed
  next
    case Open
    show ?thesis
    proof (cases "command_channel ?c")
      case None
      with Open s m show ?thesis by (simp add: option_channels_def held_def cmd_channels_snoc)
    next
      case (Some k)
      with Open s m show ?thesis by (simp add: option_channels_def held_def cmd_channels_snoc)
    qed
  qed
  then show "held t' = held t" and "tr_task t' = tr_task t" and "tr_next_channel t' = tr_next_channel t"
    and "tr_written t' = tr_written t"
    and "set (cmd_channels (tr_sending t')) \<union> set (cmd_channels (tr_commands t')) \<subseteq>
      set (cmd_channels (tr_sending t)) \<union> set (cmd_channels (tr_commands t))"
    and "tr_resolved t' = tr_resolved t \<or> (\<exists>k \<in> set (cmd_channels (tr_sending t)). tr_resolved t' = tr_resolved t @ [(k, Dropped)])"
    by blast+
qed

text \<open>The channels given out so far are exactly those in the transport, each once.\<close>

definition channels_ok :: "transport \<Rightarrow> bool" where
  "channels_ok t \<longleftrightarrow> keys_ok t \<and> held t = mset [0..<tr_next_channel t]"

lemma next_channel_simps [simp]:
  "tr_next_channel (begin_attempt t) = tr_next_channel t"
  "tr_next_channel (connection_failed d t) = tr_next_channel t"
  "tr_next_channel (back_off t) = tr_next_channel t"
  "tr_next_channel (begin_drive now t) = tr_next_channel t"
  "tr_next_channel (end_task t) = tr_next_channel t"
  "tr_next_channel (insert_pending i p t) = tr_next_channel t"
  by (simp_all add: begin_attempt_def connection_failed_def back_off_def begin_drive_def end_task_eq
      insert_pending_def Let_def split: option.splits)

lemma next_channel_answer [simp]: "tr_next_channel (answer_pending frame t) = tr_next_channel t"
  by (cases frame) (auto simp: Let_def split: option.splits)

lemma next_channel_drive_next [simp]: "tr_next_channel (drive_next env w (exit, t)) = tr_next_channel t"
  by (auto simp: drive_next_def finish_drive_def fold_fail_pending Let_def split: option.splits drive_exit.splits)

lemma next_channel_drive:
  "drive_command w c t = (exit, t1) \<Longrightarrow> tr_next_channel t1 = tr_next_channel t"
  "drive_read env clock rx w t = (exit, t1) \<Longrightarrow> tr_next_channel t1 = tr_next_channel t"
  "drive_tick env now w t = (exit, t1) \<Longrightarrow> tr_next_channel t1 = tr_next_channel t"
  by (auto simp: drive_command_def drive_read_def drive_frame_def next_event_def send_ingress_def drive_tick_def Let_def
      split: option.splits command.splits received.splits ws_message.splits sum.splits if_splits)

lemma task_step_next_channel:
  assumes "task_step env x t = Some t'"
  shows "tr_next_channel t' = tr_next_channel t"
  using assms
proof (cases rule: task_step_cases)
  case (Connect result w)
  then show ?thesis by (auto simp: connect_returned_def Let_def split: sum.splits option.splits)
next
  case (Handshake clock rx w)
  then show ?thesis using initialize_read_frames(3) [of env clock rx w t]
    by (auto simp: handshake_read_def Let_def split: prod.splits handshake.splits)
next
  case (Reject detail)
  then show ?thesis
    by (auto simp: backoff_command_def Let_def reject_while_disconnected_def recv_command_held
        split: prod.splits if_splits option.splits command.splits)
next
  case (Command w ps r c t1 exit t2)
  then show ?thesis by (simp add: next_channel_drive(1) [OF Command(4)] recv_command_held(3) [OF Command(3)])
qed (simp_all add: next_channel_drive)

lemma channels_upto_Suc [simp]: "mset_set {0..<Suc n} = add_mset n (mset_set {0..<n})"
  by (simp add: atLeastLessThanSuc)

lemma handle_step_channels:
  assumes "channels_ok t" and "handle_step x t = Some t'"
  shows "channels_ok t'"
proof (cases x)
  case (SendCommand i)
  with assms send_command_frames [of i t t'] show ?thesis by (simp add: handle_step_def channels_ok_def keys_ok_def)
next
  case (RequestBegin meth params action)
  with assms show ?thesis
    by (auto simp: handle_step_def channels_ok_def request_begin_def keys_ok_def held_def cmd_channels_snoc Let_def
        split: if_splits)
next
  case MarkReconciled
  with assms show ?thesis
    by (auto simp: handle_step_def channels_ok_def mark_reconciled_def keys_ok_def held_def cmd_channels_snoc
        split: if_splits)
next
  case ShutdownBegin
  with assms show ?thesis
    by (auto simp: handle_step_def channels_ok_def shutdown_begin_def keys_ok_def held_def cmd_channels_snoc
        split: if_splits)
qed (use assms in \<open>auto simp: handle_step_def channels_ok_def keys_ok_def notify_begin_def held_def take_ingress_def
    cmd_channels_snoc split: if_splits\<close>)

lemma transport_step_channels:
  assumes "drains_all env" and "channels_ok t" and "transport_step env x t = Some t'"
  shows "channels_ok t'"
proof (cases x)
  case (Task y)
  with assms task_step_held [of env t y t'] task_step_next_channel [of env y t t'] show ?thesis
    by (simp add: channels_ok_def)
next
  case (Handle y)
  with assms handle_step_channels show ?thesis by simp
qed

lemma channels_ok_distinct:
  assumes "channels_ok t"
  shows "distinct (waiting_channels t @ pending_channels (pending_of (tr_task t)) @ map fst (tr_resolved t))"
proof -
  have "mset (waiting_channels t @ pending_channels (pending_of (tr_task t)) @ map fst (tr_resolved t)) =
      mset [0..<tr_next_channel t]"
    using assms by (simp add: channels_ok_def held_def ac_simps)
  from mset_eq_imp_distinct_iff [OF this] show ?thesis by simp
qed

lemma channels_ok_spawn: "channels_ok (transport_spawn config)"
  by (simp add: channels_ok_def transport_spawn_def keys_ok_def held_def pending_channels_def List.map_filter_simps)

section \<open>Answers and writes\<close>

fun outgoing_channel :: "outgoing \<Rightarrow> channel option" where
  "outgoing_channel (RequestFrame k _ _ _) = Some k"
| "outgoing_channel _ = None"

text \<open>The writes of the request whose answer goes to a channel.\<close>

definition requests_to :: "channel \<Rightarrow> (outgoing \<times> bool) list \<Rightarrow> (outgoing \<times> bool) list" where
  "requests_to k out = filter (\<lambda>w. outgoing_channel (fst w) = Some k) out"

text \<open>
  What an answer says about the writes made and the frames received: the contract of
  \<open>RequestError\<close> and of a result.
\<close>

fun settled :: "incoming_frame set \<Rightarrow> (outgoing \<times> bool) list \<Rightarrow> channel \<Rightarrow> resolution \<Rightarrow> bool" where
  "settled F out k (Resolved (Inr v)) \<longleftrightarrow>
     (\<exists>i m p result raw. requests_to k out = [(RequestFrame k i m p, True)] \<and>
        Response i result None raw \<in> F \<and> v = unwrap_or result JNull)"
| "settled F out k (Resolved (Inl (Rejected m err))) \<longleftrightarrow>
     (\<exists>i p result raw. requests_to k out = [(RequestFrame k i m p, True)] \<and> Response i result (Some err) raw \<in> F)"
| "settled F out k (Resolved (Inl (WrittenOutcomeUnknown i m detail))) \<longleftrightarrow>
     (\<exists>p. requests_to k out = [(RequestFrame k i m p, True)])"
| "settled F out k (Resolved (Inl (NotWritten detail))) \<longleftrightarrow>
     requests_to k out = [] \<or> (\<exists>i m p. requests_to k out = [(RequestFrame k i m p, False)])"
| "settled F out k (Resolved (Inl (TimedOut m))) \<longleftrightarrow> False"
| "settled F out k (Resolved (Inl RequestClosed)) \<longleftrightarrow> False"
| "settled F out k Done \<longleftrightarrow> requests_to k out = []"
| "settled F out k Dropped \<longleftrightarrow> length (requests_to k out) \<le> 1"

text \<open>
  The invariant behind it: a waiting command was never written, a pending request was written
  once, what was answered is settled.
\<close>

definition ledger_ok :: "incoming_frame set \<Rightarrow> channel \<Rightarrow> channel list \<Rightarrow> (rpc_id \<times> pending) list \<Rightarrow>
    (channel \<times> resolution) list \<Rightarrow> (outgoing \<times> bool) list \<Rightarrow> bool" where
  "ledger_ok F n waiting ps rs out \<longleftrightarrow>
     (\<forall>k \<in> set waiting. requests_to k out = []) \<and>
     (\<forall>k \<ge> n. requests_to k out = []) \<and>
     (\<forall>(i, p) \<in> set ps. \<exists>x. requests_to (pd_response p) out = [(RequestFrame (pd_response p) i (pd_method p) x, True)]) \<and>
     (\<forall>(k, r) \<in> set rs. settled F out k r)"

definition ledger :: "incoming_frame set \<Rightarrow> transport \<Rightarrow> bool" where
  "ledger F t \<longleftrightarrow> ledger_ok F (tr_next_channel t) (waiting_channels t) (pending_of (tr_task t)) (tr_resolved t) (tr_written t)"

lemma requests_to_Nil [simp]: "requests_to k [] = []"
  by (simp add: requests_to_def)

lemma requests_to_snoc: "requests_to k (out @ [(w, b)]) =
    requests_to k out @ (if outgoing_channel w = Some k then [(w, b)] else [])"
  by (simp add: requests_to_def)

lemma settled_cong: "requests_to k out = requests_to k out' \<Longrightarrow> settled F out k r = settled F out' k r"
  by (induction F out k r rule: settled.induct) auto

lemma settled_more: "settled F out k r \<Longrightarrow> F \<subseteq> G \<Longrightarrow> settled G out k r"
  by (induction F out k r rule: settled.induct) auto

lemma ledger_more: "ledger F t \<Longrightarrow> F \<subseteq> G \<Longrightarrow> ledger G t"
  unfolding ledger_def ledger_ok_def using settled_more by blast

lemma ledger_ok_other_write:
  "outgoing_channel w = None \<Longrightarrow> ledger_ok F n ws ps rs (out @ [(w, b)]) = ledger_ok F n ws ps rs out"
proof -
  assume "outgoing_channel w = None"
  then have eq: "requests_to k (out @ [(w, b)]) = requests_to k out" for k by (simp add: requests_to_snoc)
  show ?thesis unfolding ledger_ok_def eq settled_cong [OF eq] by simp
qed

lemma ledger_ok_mono:
  "ledger_ok F n ws ps rs out \<Longrightarrow> set ws' \<subseteq> set ws \<Longrightarrow> set ps' \<subseteq> set ps \<Longrightarrow> ledger_ok F n ws' ps' rs out"
  unfolding ledger_ok_def by blast

lemma ledger_ok_fresh:
  assumes "ledger_ok F n ws ps rs out" and "set ws' \<subseteq> insert n (set ws)"
  shows "ledger_ok F (Suc n) ws' ps rs out"
proof -
  have "requests_to k out = []" if "k \<in> set ws'" for k
  proof (cases "k = n")
    case False
    with that assms(2) have "k \<in> set ws" by blast
    with assms(1) show ?thesis by (simp add: ledger_ok_def)
  qed (use assms(1) in \<open>simp add: ledger_ok_def\<close>)
  with assms(1) show ?thesis by (simp add: ledger_ok_def)
qed

lemma ledger_ok_settle:
  "ledger_ok F n ws ps rs out \<Longrightarrow> \<forall>(k, r) \<in> set rs'. settled F out k r \<Longrightarrow> ledger_ok F n ws ps (rs @ rs') out"
  unfolding ledger_ok_def by auto

lemma ledger_ok_request:
  assumes "ledger_ok F n ws ps rs out" and "requests_to k out = []" and "k < n"
    and "k \<notin> set ws" and "k \<notin> set (pending_channels ps)" and "k \<notin> fst ` set rs"
  shows "ledger_ok F n ws ps rs (out @ [(RequestFrame k i m p, b)])"
    and "requests_to k (out @ [(RequestFrame k i m p, b)]) = [(RequestFrame k i m p, b)]"
proof -
  have eq: "requests_to j (out @ [(RequestFrame k i m p, b)]) = requests_to j out" if "j \<noteq> k" for j
    using that by (simp add: requests_to_snoc)
  have "settled F (out @ [(RequestFrame k i m p, b)]) j r = settled F out j r" if "j \<noteq> k" for j r
    using settled_cong [OF eq [OF that]] .
  with assms eq show "ledger_ok F n ws ps rs (out @ [(RequestFrame k i m p, b)])"
    unfolding ledger_ok_def pending_channels_def by (fastforce simp: image_iff)
  show "requests_to k (out @ [(RequestFrame k i m p, b)]) = [(RequestFrame k i m p, b)]"
    using assms(2) by (simp add: requests_to_snoc)
qed

lemma ledger_simps [simp]:
  "ledger F (t\<lparr>tr_health := h\<rparr>) = ledger F t" "ledger F (t\<lparr>tr_sequence := s\<rparr>) = ledger F t"
  "ledger F (t\<lparr>tr_ready := b\<rparr>) = ledger F t" "ledger F (t\<lparr>tr_attempts := n\<rparr>) = ledger F t"
  "ledger F (t\<lparr>tr_backoff := d\<rparr>) = ledger F t" "ledger F (t\<lparr>tr_ingress := es\<rparr>) = ledger F t"
  "ledger F (t\<lparr>tr_inbound := es\<rparr>) = ledger F t" "ledger F (t\<lparr>tr_ingress_open := b\<rparr>) = ledger F t"
  "ledger F (t\<lparr>tr_handles := b\<rparr>) = ledger F t" "ledger F (t\<lparr>tr_ingress_taken := b\<rparr>) = ledger F t"
  "ledger F (t\<lparr>tr_next_id := s\<rparr>) = ledger F t"
  by (simp_all add: ledger_def)

lemma ledger_other_write [simp]:
  "tr_written t = out \<Longrightarrow> outgoing_channel w = None \<Longrightarrow> ledger F (t\<lparr>tr_written := out @ [(w, b)]\<rparr>) = ledger F t"
  by (auto simp: ledger_def ledger_ok_other_write)

lemma ledger_resolve:
  assumes "ledger F t" and "tr_resolved t = rs" and "\<forall>(k, r) \<in> set rs'. settled F (tr_written t) k r"
  shows "ledger F (t\<lparr>tr_resolved := rs @ rs'\<rparr>)"
  using assms ledger_ok_settle by (auto simp: ledger_def)

lemma ledger_retask:
  assumes "ledger F t" and "set (pending_of a) \<subseteq> set (pending_of (tr_task t))"
  shows "ledger F (t\<lparr>tr_task := a\<rparr>)"
  using assms by (auto simp: ledger_def intro: ledger_ok_mono)

lemma ledger_pending:
  assumes "ledger F t" and "(i, p) \<in> set (pending_of (tr_task t))"
  obtains x where "requests_to (pd_response p) (tr_written t) = [(RequestFrame (pd_response p) i (pd_method p) x, True)]"
  using assms unfolding ledger_def ledger_ok_def by blast

lemma ledger_waiting: "ledger F t \<Longrightarrow> k \<in> set (waiting_channels t) \<Longrightarrow> requests_to k (tr_written t) = []"
  by (simp add: ledger_def ledger_ok_def)

lemma ledger_insert_pending:
  assumes "ledger F t"
    and "requests_to (pd_response p) (tr_written t) = [(RequestFrame (pd_response p) i (pd_method p) x, True)]"
  shows "ledger F (insert_pending i p t)"
proof -
  let ?ps = "pending_of (tr_task t)"
  let ?t1 = "case map_of ?ps i of None \<Rightarrow> t | Some old \<Rightarrow> resolve (pd_response old) Dropped t"
  have l: "ledger F ?t1"
  proof (cases "map_of ?ps i")
    case (Some old)
    obtain y where "requests_to (pd_response old) (tr_written t) = [(RequestFrame (pd_response old) i (pd_method old) y, True)]"
      using ledger_pending [OF assms(1) map_of_SomeD [OF Some]] .
    then show ?thesis using Some ledger_resolve [OF assms(1) refl, of "[(pd_response old, Dropped)]"] by simp
  qed (use assms in simp)
  have t: "tr_task ?t1 = tr_task t" "tr_written ?t1 = tr_written t" by (simp_all split: option.splits)
  have e: "insert_pending i p t = ?t1\<lparr>tr_task := AtDrive ((i, p) # filter (\<lambda>q. fst q \<noteq> i) ?ps) (last_read_of (tr_task t))\<rparr>"
    by (simp add: insert_pending_def Let_def)
  from l assms(2) t show ?thesis unfolding e ledger_def ledger_ok_def by auto
qed

lemma ledger_answer_pending:
  assumes "ledger F t" and "frame \<in> F"
  shows "ledger F (answer_pending frame t)"
proof (cases frame)
  case (Response i result err raw)
  let ?ps = "pending_of (tr_task t)"
  show ?thesis
  proof (cases "map_of ?ps i")
    case (Some p)
    obtain y where y: "requests_to (pd_response p) (tr_written t) = [(RequestFrame (pd_response p) i (pd_method p) y, True)]"
      using ledger_pending [OF assms(1) map_of_SomeD [OF Some]] .
    have "settled F (tr_written t) (pd_response p) (Resolved (response_answer (pd_method p) result err))"
      using y assms(2) Response by (cases err) auto
    with ledger_retask [OF assms(1), of "AtDrive (filter (\<lambda>q. fst q \<noteq> i) ?ps) (last_read_of (tr_task t))"] Some Response
    show ?thesis by (auto simp: Let_def intro!: ledger_resolve)
  qed (use assms Response in simp)
qed (use assms in simp_all)

lemma ledger_end_task:
  assumes "ledger F t"
  shows "ledger F (end_task t)"
proof -
  let ?rs = "map (\<lambda>k. (k, Dropped)) (cmd_channels (tr_commands t))"
  have "settled F (tr_written t) k Dropped" if "k \<in> set (cmd_channels (tr_commands t))" for k
    using ledger_waiting [OF assms, of k] that by simp
  then have "\<forall>(k, r) \<in> set ?rs. settled F (tr_written t) k r" by force
  from ledger_resolve [OF assms refl this]
  have "ledger_ok F (tr_next_channel t) (waiting_channels t) (pending_of (tr_task t)) (tr_resolved t @ ?rs) (tr_written t)"
    by (simp add: ledger_def)
  then have "ledger_ok F (tr_next_channel t) (cmd_channels (tr_sending t)) [] (tr_resolved t @ ?rs) (tr_written t)"
    by (rule ledger_ok_mono) simp_all
  then show ?thesis by (simp add: end_task_eq ledger_def List.map_filter_simps)
qed

lemma ledger_fail_all:
  assumes "drains_all env" and "ledger F t"
  shows "ledger F (fold (fail_pending d) (te_drain env (pending_of (tr_task t))) t)"
proof -
  let ?ps = "pending_of (tr_task t)"
  have "set (te_drain env ?ps) = set ?ps" using assms(1) by (metis drains_all_def set_mset_mset)
  moreover have "settled F (tr_written t) (pd_response p) (Resolved (Inl (WrittenOutcomeUnknown i (pd_method p) d)))"
    if "(i, p) \<in> set ?ps" for i p
    using ledger_pending [OF assms(2) that] by (metis settled.simps(3))
  ultimately have "\<forall>(k, r) \<in> set (map (unknown_answer d) (te_drain env ?ps)). settled F (tr_written t) k r"
    by (force simp: unknown_answer_def simp del: settled.simps)
  from ledger_resolve [OF assms(2) refl this] show ?thesis by (simp add: fold_fail_pending)
qed

lemma ledger_disconnected:
  assumes "ledger F t"
  shows "ledger F (begin_attempt t)" and "ledger F (connection_failed d t)" and "ledger F (back_off t)"
    and "ledger F (begin_drive now t)"
  using assms by (auto simp: begin_attempt_def connection_failed_def back_off_def begin_drive_def intro!: ledger_retask)

lemma ledger_finish_drive:
  assumes "drains_all env" and "ledger F t"
    and "\<And>k. exit = ExitShutdown k \<Longrightarrow> requests_to k (tr_written t) = []"
  shows "ledger F (finish_drive env w exit t)"
proof -
  let ?t1 = "fold (fail_pending (exit_detail exit)) (te_drain env (pending_of (tr_task t))) t"
  have l: "ledger F ?t1" by (rule ledger_fail_all [OF assms(1,2)])
  have wr: "tr_written ?t1 = tr_written t" by (simp add: fold_fail_pending)
  show ?thesis
  proof (cases exit)
    case (ExitShutdown k)
    have "ledger F (resolve k Done (set_health Stopped None (socket_send CloseFrame w ?t1)))"
      using l assms(3) [OF ExitShutdown] wr by (auto simp: requests_to_snoc intro!: ledger_resolve)
    with ExitShutdown show ?thesis by (simp add: finish_drive_def Let_def ledger_end_task)
  next
    case (ExitDisconnected detail)
    with l show ?thesis by (simp add: finish_drive_def Let_def ledger_disconnected)
  next
    case ExitCommandsClosed
    with l show ?thesis by (simp add: finish_drive_def Let_def ledger_end_task)
  qed
qed

lemma ledger_recv_command:
  assumes "channels_ok t" and "ledger F t" and "recv_command t = Some (c, t1)"
  shows "ledger F t1"
    and "Option.bind c command_channel = Some k \<Longrightarrow>
      requests_to k (tr_written t1) = [] \<and> k < tr_next_channel t1 \<and> k \<notin> set (waiting_channels t1) \<and>
      k \<notin> set (pending_channels (pending_of (tr_task t1))) \<and> k \<notin> fst ` set (tr_resolved t1)"
proof -
  have w: "set (waiting_channels t1) \<subseteq> set (waiting_channels t)"
    and same: "tr_next_channel t1 = tr_next_channel t" "tr_resolved t1 = tr_resolved t" "tr_written t1 = tr_written t"
      "tr_task t1 = tr_task t"
    and sub: "Option.bind c command_channel = Some k \<Longrightarrow> k \<in> set (waiting_channels t)"
    using assms(3) by (auto simp: recv_command_def List.map_filter_simps split: list.splits if_splits option.splits)
  show "ledger F t1" using assms(2) w unfolding ledger_def same by (rule ledger_ok_mono) simp
  assume k: "Option.bind c command_channel = Some k"
  have "add_mset k (held t1) = mset [0..<tr_next_channel t1]"
    using recv_command_held(1) [OF assms(3)] assms(1) k same by (simp add: channels_ok_def option_channels_def)
  then have eq: "add_mset k (held t1) = mset_set {0..<tr_next_channel t1}" by simp
  from arg_cong [OF eq, of set_mset] have kn: "k < tr_next_channel t1" by auto
  from arg_cong [OF eq, of "\<lambda>M. count M k"] kn have cnt: "k \<notin># held t1" by (simp add: not_in_iff)
  have "k \<notin> set (waiting_channels t1) \<and> k \<notin> set (pending_channels (pending_of (tr_task t1))) \<and> k \<notin> fst ` set (tr_resolved t1)"
    using cnt by (auto simp: held_def)
  with kn ledger_waiting [OF assms(2) sub [OF k]] same show
    "requests_to k (tr_written t1) = [] \<and> k < tr_next_channel t1 \<and> k \<notin> set (waiting_channels t1) \<and>
      k \<notin> set (pending_channels (pending_of (tr_task t1))) \<and> k \<notin> fst ` set (tr_resolved t1)" by simp
qed

text \<open>The frame a received message carries, if it carries one, and those of a run.\<close>

definition frame_in :: "transport_env \<Rightarrow> ws_message \<Rightarrow> incoming_frame list" where
  "frame_in env m =
     (case message_json env m of
        Inr (Some v) \<Rightarrow> (case parse_frame v of Inl _ \<Rightarrow> [] | Inr frame \<Rightarrow> [frame])
      | _ \<Rightarrow> [])"

fun received_frames :: "transport_env \<Rightarrow> received \<Rightarrow> incoming_frame list" where
  "received_frames env (RxMessage m) = frame_in env m"
| "received_frames env _ = []"

fun input_frames :: "transport_env \<Rightarrow> transport_input \<Rightarrow> incoming_frame list" where
  "input_frames env (Task (HandshakeRead _ rx _)) = received_frames env rx"
| "input_frames env (Task (DriveRead _ rx _)) = received_frames env rx"
| "input_frames env _ = []"

definition frames_of :: "transport_env \<Rightarrow> transport_input list \<Rightarrow> incoming_frame list" where
  "frames_of env xs = concat (map (input_frames env) xs)"

lemma frames_of_snoc: "frames_of env (xs @ [x]) = frames_of env xs @ input_frames env x"
  by (simp add: frames_of_def)

lemma ledger_drive_command:
  assumes "channels_ok t" and "ledger F t" and "recv_command t = Some (c, t1)"
    and "drive_command w c t1 = (exit, t2)"
  shows "ledger F t2" and "exit = Some (ExitShutdown k) \<Longrightarrow> requests_to k (tr_written t2) = []"
proof -
  note l1 = ledger_recv_command(1) [OF assms(1-3)] and fresh = ledger_recv_command(2) [OF assms(1-3)]
  have "ledger F t2 \<and> (\<forall>k. exit = Some (ExitShutdown k) \<longrightarrow> requests_to k (tr_written t2) = [])"
  proof (cases c)
    case None
    with assms(4) l1 show ?thesis by (auto simp: drive_command_def)
  next
    case (Some cmd)
    show ?thesis
    proof (cases cmd)
      case (CmdRequest i m p k)
      let ?out = "tr_written t1 @ [(RequestFrame k i m p, w = None)]"
      let ?u = "t1\<lparr>tr_written := ?out\<rparr>"
      from fresh [of k] Some CmdRequest have k: "requests_to k (tr_written t1) = []" "k < tr_next_channel t1"
          "k \<notin> set (waiting_channels t1)" "k \<notin> set (pending_channels (pending_of (tr_task t1)))"
          "k \<notin> fst ` set (tr_resolved t1)" by simp_all
      note r = ledger_ok_request [OF l1 [unfolded ledger_def] k, of i m p "w = None"]
      have u: "ledger F ?u" using r(1) by (simp add: ledger_def)
      show ?thesis
      proof (cases w)
        case None
        have rq: "requests_to (pd_response \<lparr>pd_method = m, pd_response = k\<rparr>) (tr_written ?u) =
            [(RequestFrame (pd_response \<lparr>pd_method = m, pd_response = k\<rparr>) i (pd_method \<lparr>pd_method = m, pd_response = k\<rparr>) p, True)]"
          using r(2) None by simp
        show ?thesis using ledger_insert_pending [OF u rq] assms(4) Some CmdRequest None
          by (simp add: drive_command_def Let_def)
      next
        case (Some err)
        have "\<forall>(j, res) \<in> set [(k, Resolved (Inl (NotWritten err)))]. settled F (tr_written ?u) j res"
          using r(2) Some by simp
        from ledger_resolve [OF u refl this] show ?thesis using assms(4) \<open>c = Some cmd\<close> CmdRequest Some
          by (auto simp: drive_command_def Let_def)
      qed
    next
      case (CmdNotify m p)
      with assms(4) Some l1 show ?thesis by (cases w) (auto simp: drive_command_def)
    next
      case (CmdReconciled k)
      from fresh [of k] Some CmdReconciled have "requests_to k (tr_written t1) = []" by simp
      then have "ledger F (resolve k Done (set_health Connected None (t1\<lparr>tr_ready := True\<rparr>)))"
        using l1 by (auto intro!: ledger_resolve)
      with assms(4) Some CmdReconciled show ?thesis by (auto simp: drive_command_def)
    next
      case (CmdShutdown k)
      with assms(4) Some l1 fresh [of k] show ?thesis by (auto simp: drive_command_def)
    qed
  qed
  then show "ledger F t2" and "exit = Some (ExitShutdown k) \<Longrightarrow> requests_to k (tr_written t2) = []" by blast+
qed

lemma ledger_drive_frame:
  assumes "ledger F t" and "frame \<in> F" and "drive_frame clock frame t = (exit, t1)"
  shows "ledger F t1"
  using assms ledger_answer_pending [of F "t\<lparr>tr_sequence := tr_sequence t + 1\<rparr>" frame]
  by (auto simp: drive_frame_def next_event_def send_ingress_def Let_def split: if_splits option.splits)

lemma drive_read_cases:
  assumes "drive_read env clock (RxMessage m) w t = (exit, t2)"
  shows "(frame_in env m = [] \<and> (t2 = t\<lparr>tr_task := AtDrive (pending_of (tr_task t)) (ck_read clock)\<rparr> \<or>
      (\<exists>payload. t2 = socket_send (PongFrame payload) w (t\<lparr>tr_task := AtDrive (pending_of (tr_task t)) (ck_read clock)\<rparr>)))) \<or>
    (\<exists>frame. frame_in env m = [frame] \<and>
       drive_frame clock frame (t\<lparr>tr_task := AtDrive (pending_of (tr_task t)) (ck_read clock)\<rparr>) = (exit, t2))"
proof (cases "\<exists>payload. m = MsgPing payload")
  case True
  with assms show ?thesis by (auto simp: drive_read_def frame_in_def message_json_def Let_def)
next
  case False
  let ?t = "t\<lparr>tr_task := AtDrive (pending_of (tr_task t)) (ck_read clock)\<rparr>"
  from False have "drive_read env clock (RxMessage m) w t =
      (case message_json env m of
         Inl e \<Rightarrow> (Some (ExitDisconnected e), ?t)
       | Inr None \<Rightarrow> (None, ?t)
       | Inr (Some v) \<Rightarrow> (case parse_frame v of Inl _ \<Rightarrow> (None, ?t) | Inr frame \<Rightarrow> drive_frame clock frame ?t))"
    by (cases m) (simp_all add: drive_read_def Let_def)
  note d = this [unfolded assms]
  show ?thesis
  proof (cases "message_json env m")
    case (Inl e)
    with d show ?thesis by (simp add: frame_in_def)
  next
    case (Inr v)
    show ?thesis
    proof (cases v)
      case None
      with d Inr show ?thesis by (simp add: frame_in_def)
    next
      case (Some u)
      with d Inr show ?thesis by (cases "parse_frame u") (simp_all add: frame_in_def)
    qed
  qed
qed

lemma ledger_drive_read:
  assumes "ledger F t" and "set (received_frames env rx) \<subseteq> F" and "drive_read env clock rx w t = (exit, t2)"
  shows "ledger F t2"
proof (cases rx)
  case (RxMessage m)
  let ?t = "t\<lparr>tr_task := AtDrive (pending_of (tr_task t)) (ck_read clock)\<rparr>"
  have l: "ledger F ?t" using ledger_retask [OF assms(1)] by simp
  from drive_read_cases [OF assms(3) [unfolded RxMessage]] show ?thesis
    using l assms(2) RxMessage ledger_drive_frame [OF l] by auto
qed (use assms in \<open>auto simp: drive_read_def\<close>)

lemma drive_read_exit: "drive_read env clock rx w t = (Some exit, t2) \<Longrightarrow> exit \<noteq> ExitShutdown k"
  by (auto simp: drive_read_def drive_frame_def Let_def split: received.splits ws_message.splits sum.splits
      option.splits prod.splits)

lemma drive_tick_exit: "drive_tick env now w t = (Some exit, t2) \<Longrightarrow> exit \<noteq> ExitShutdown k"
  by (cases w) (auto simp: drive_tick_def Let_def split: if_splits)

lemma ledger_drive_tick:
  "ledger F t \<Longrightarrow> drive_tick env now w t = (exit, t2) \<Longrightarrow> ledger F t2"
  by (auto simp: drive_tick_def Let_def split: if_splits)

lemma ledger_drive_next:
  assumes "drains_all env" and "ledger F t"
    and "\<And>k. exit = Some (ExitShutdown k) \<Longrightarrow> requests_to k (tr_written t) = []"
  shows "ledger F (drive_next env w (exit, t))"
  using assms by (cases exit) (simp_all add: drive_next_def ledger_finish_drive)

lemma ledger_handshake_read:
  assumes "ledger F t"
  shows "ledger F (handshake_read env clock rx w t)"
proof -
  obtain h t1 where r: "initialize_read env clock rx w t = (h, t1)" by fastforce
  have "ledger F t1"
    using r assms by (auto simp: initialize_read_def next_event_def send_ingress_def Let_def
        split: received.splits sum.splits option.splits if_splits)
  with r show ?thesis by (cases h) (simp_all add: handshake_read_def ledger_disconnected)
qed

lemma ledger_backoff_command:
  assumes "channels_ok t" and "ledger F t" and "backoff_command detail t = Some t'"
  shows "ledger F t'"
proof -
  from assms(3) obtain c t1 stop t2 where r: "recv_command t = Some (c, t1)"
      and rj: "reject_while_disconnected c detail t1 = (stop, t2)" and t': "t' = (if stop then end_task t2 else back_off t2)"
    by (rule backoff_command_cases)
  have "ledger F t2"
    using rj ledger_recv_command [OF assms(1,2) r]
    by (auto simp: reject_while_disconnected_def split: option.splits command.splits intro!: ledger_resolve)
  with t' show ?thesis by (simp add: ledger_end_task ledger_disconnected)
qed

lemma ledger_task_step:
  assumes "drains_all env" and "channels_ok t" and "ledger F t" and "task_step env x t = Some t'"
    and "set (input_frames env (Task x)) \<subseteq> F"
  shows "ledger F t'"
  using assms(4)
proof (cases rule: task_step_cases)
  case (Connect result w)
  with assms(3) show ?thesis
    by (auto simp: connect_returned_def Let_def ledger_disconnected split: sum.splits option.splits
        intro!: ledger_disconnected ledger_retask)
next
  case (Handshake clock rx w)
  with assms(3) show ?thesis by (simp add: ledger_handshake_read)
next
  case (Reject detail)
  with assms show ?thesis by (blast intro: ledger_backoff_command)
next
  case (Elapsed detail)
  with assms(3) show ?thesis by (simp add: ledger_disconnected)
next
  case (Command w ps r c t1 exit t2)
  note d = ledger_drive_command [OF assms(2,3) Command(3,4)]
  from ledger_drive_next [OF assms(1) d(1)] d(2) Command(5) show ?thesis by simp
next
  case (Read clock rx w ps r exit t2)
  have "ledger F t2" using ledger_drive_read [OF assms(3) _ Read(4)] assms(5) Read(1) by simp
  moreover have "exit \<noteq> Some (ExitShutdown k)" for k using drive_read_exit Read(4) by blast
  ultimately show ?thesis using ledger_drive_next [OF assms(1)] Read(5) by blast
next
  case (Tick now w ps r exit t2)
  have "ledger F t2" using ledger_drive_tick [OF assms(3) Tick(3)] .
  moreover have "exit \<noteq> Some (ExitShutdown k)" for k using drive_tick_exit Tick(3) by blast
  ultimately show ?thesis using ledger_drive_next [OF assms(1)] Tick(4) by blast
qed

lemma ledger_new_channel:
  assumes "ledger F t" and "tr_sending u = tr_sending t @ [c]" and "command_channel c = Some (tr_next_channel t)"
    and "tr_next_channel u = Suc (tr_next_channel t)" and "tr_commands u = tr_commands t" and "tr_task u = tr_task t"
    and "tr_resolved u = tr_resolved t" and "tr_written u = tr_written t"
  shows "ledger F u"
  using assms(1) unfolding ledger_def assms(2,4-8)
  by (rule ledger_ok_fresh) (auto simp: cmd_channels_snoc assms(3))

lemma ledger_handle_step:
  assumes "ledger F t" and "handle_step x t = Some t'"
  shows "ledger F t'"
proof (cases x)
  case (SendCommand i)
  with assms(2) have s: "send_command i t = Some t'" by (simp add: handle_step_def)
  note f = send_command_frames [OF s]
  have l: "ledger_ok F (tr_next_channel t') (waiting_channels t') (pending_of (tr_task t')) (tr_resolved t) (tr_written t')"
    using assms(1) f(5) unfolding ledger_def f(2-4) by (elim ledger_ok_mono) auto
  from f(6) show ?thesis
  proof
    assume "tr_resolved t' = tr_resolved t"
    with l show ?thesis by (simp add: ledger_def)
  next
    assume "\<exists>k \<in> set (cmd_channels (tr_sending t)). tr_resolved t' = tr_resolved t @ [(k, Dropped)]"
    then obtain k where k: "k \<in> set (cmd_channels (tr_sending t))" "tr_resolved t' = tr_resolved t @ [(k, Dropped)]"
      by blast
    have "requests_to k (tr_written t') = []" using ledger_waiting [OF assms(1), of k] k(1) f(4) by simp
    then have "\<forall>(k, r) \<in> set [(k, Dropped)]. settled F (tr_written t') k r" by simp
    from ledger_ok_settle [OF l this] k(2) show ?thesis by (simp add: ledger_def)
  qed
next
  case (RequestBegin m p action)
  with assms(2) have "t' = t \<or> t' = t\<lparr>tr_next_id := tr_next_id t + 1, tr_next_channel := Suc (tr_next_channel t),
      tr_sending := tr_sending t @ [CmdRequest (RpcNumber (tr_next_id t)) m p (tr_next_channel t)]\<rparr>"
    by (auto simp: handle_step_def request_begin_def Let_def split: if_splits)
  with assms(1) show ?thesis by (auto intro: ledger_new_channel)
next
  case (NotifyBegin m p)
  with assms have "t' = t\<lparr>tr_sending := tr_sending t @ [CmdNotify m p]\<rparr>"
    by (auto simp: handle_step_def notify_begin_def split: if_splits)
  with assms(1) show ?thesis by (simp add: ledger_def cmd_channels_snoc)
next
  case MarkReconciled
  with assms(2) have "t' = mark_reconciled t" by (auto simp: handle_step_def split: if_splits)
  with assms(1) show ?thesis by (auto simp: mark_reconciled_def intro: ledger_new_channel)
next
  case ShutdownBegin
  with assms(2) have "t' = shutdown_begin t" by (auto simp: handle_step_def split: if_splits)
  with assms(1) show ?thesis by (auto simp: shutdown_begin_def intro: ledger_new_channel)
qed (use assms in \<open>auto simp: handle_step_def take_ingress_def split: if_splits\<close>)

lemma ledger_step:
  assumes "drains_all env" and "channels_ok t" and "ledger F t" and "transport_step env x t = Some t'"
  shows "ledger (F \<union> set (input_frames env x)) t'"
proof -
  have l: "ledger (F \<union> set (input_frames env x)) t" using assms(3) by (rule ledger_more) simp
  show ?thesis
  proof (cases x)
    case (Task y)
    with ledger_task_step [OF assms(1,2) l] assms(4) show ?thesis by simp
  next
    case (Handle y)
    with ledger_handle_step [OF l] assms(4) show ?thesis by simp
  qed
qed

interpretation trun: stepwise_run "transport_step env" "transport_run env" for env
  by unfold_locales simp_all

lemma ledger_spawn: "ledger {} (transport_spawn config)"
  by (simp add: ledger_def ledger_ok_def transport_spawn_def List.map_filter_simps)

lemma run_channels:
  assumes "drains_all env" and "transport_run env xs (transport_spawn config) = Some t"
  shows "channels_ok t"
  using trun.run_invariant [where I = channels_ok, OF channels_ok_spawn _ assms(2)] transport_step_channels [OF assms(1)]
  by blast

lemma run_ledger:
  assumes "drains_all env" and "transport_run env xs (transport_spawn config) = Some t"
  shows "ledger (set (frames_of env xs)) t"
proof (rule trun.run_history [where I = "\<lambda>xs. ledger (set (frames_of env xs))", OF _ _ assms(2)])
  show "ledger (set (frames_of env [])) (transport_spawn config)" using ledger_spawn by (simp add: frames_of_def)
next
  fix xs x t u
  assume "transport_run env xs (transport_spawn config) = Some t" "ledger (set (frames_of env xs)) t"
    "transport_step env x t = Some u"
  with ledger_step [OF assms(1) run_channels [OF assms(1)]]
  show "ledger (set (frames_of env (xs @ [x]))) u" by (simp add: frames_of_snoc)
qed

lemma channel_places:
  assumes "channels_ok t" and "k < tr_next_channel t"
  shows "k \<in> set (waiting_channels t) \<or> k \<in> set (pending_channels (pending_of (tr_task t))) \<or> k \<in> fst ` set (tr_resolved t)"
proof -
  have "k \<in># held t" using assms by (simp add: channels_ok_def)
  then show ?thesis by (auto simp: held_def)
qed

lemma written_at_most_once:
  assumes "channels_ok t" and "ledger F t"
  shows "length (requests_to k (tr_written t)) \<le> 1"
proof (cases "k < tr_next_channel t")
  case True
  from channel_places [OF assms(1) True] show ?thesis
  proof (elim disjE)
    assume "k \<in> set (waiting_channels t)"
    with ledger_waiting [OF assms(2)] show ?thesis by fastforce
  next
    assume "k \<in> set (pending_channels (pending_of (tr_task t)))"
    then obtain i p where p: "(i, p) \<in> set (pending_of (tr_task t))" "k = pd_response p"
      by (auto simp: pending_channels_def)
    then show ?thesis using ledger_pending [OF assms(2) p(1)] by (metis One_nat_def length_Cons list.size(3) order_refl)
  next
    assume "k \<in> fst ` set (tr_resolved t)"
    then obtain r where "settled F (tr_written t) k r" using assms(2) by (auto simp: ledger_def ledger_ok_def)
    then show ?thesis by (cases "(F, tr_written t, k, r)" rule: settled.cases) auto
  qed
next
  case False
  with assms(2) show ?thesis by (simp add: ledger_def ledger_ok_def)
qed

end
