(* ===== verification/Connection.thy ===== *)
theory Connection
  imports Channels
begin

text \<open>
  The transport as its users see it: the events it delivers, the health it publishes, the
  reconciliation gate, the delay between attempts and the watch on idle connections.
\<close>

section \<open>From frames to events\<close>

definition event_view :: "transport \<Rightarrow> bool \<times> sequence \<times> sequenced_event list \<times> sequenced_event list" where
  "event_view t = (tr_ingress_open t, tr_sequence t, tr_ingress t, tr_inbound t)"

lemma event_view_simps [simp]:
  "event_view (begin_attempt t) = event_view t" "event_view (connection_failed d t) = event_view t"
  "event_view (back_off t) = event_view t" "event_view (begin_drive now t) = event_view t"
  "event_view (end_task t) = event_view t" "event_view (connect_returned res w t) = event_view t"
  "event_view (insert_pending i p t) = event_view t"
  by (simp_all add: event_view_def begin_attempt_def connection_failed_def back_off_def begin_drive_def end_task_eq
      connect_returned_def insert_pending_def Let_def split: sum.splits option.splits)

lemma event_view_fields [simp]:
  "event_view (t\<lparr>tr_task := a\<rparr>) = event_view t" "event_view (t\<lparr>tr_written := out\<rparr>) = event_view t"
  "event_view (t\<lparr>tr_resolved := rs\<rparr>) = event_view t" "event_view (t\<lparr>tr_health := h\<rparr>) = event_view t"
  "event_view (t\<lparr>tr_ready := b\<rparr>) = event_view t" "event_view (t\<lparr>tr_attempts := n\<rparr>) = event_view t"
  by (simp_all add: event_view_def)

lemma event_view_answer [simp]: "event_view (answer_pending frame t) = event_view t"
  by (cases frame) (auto simp: event_view_def Let_def split: option.splits)

lemma event_view_drive_next [simp]: "event_view (drive_next env w (exit, t)) = event_view t"
  by (auto simp: drive_next_def finish_drive_def fold_fail_pending Let_def split: option.splits drive_exit.splits)

lemma event_view_others:
  "recv_command t = Some (c, t1) \<Longrightarrow> event_view t1 = event_view t"
  "drive_command w c t = (exit, t1) \<Longrightarrow> event_view t1 = event_view t"
  "drive_tick env now w t = (exit, t1) \<Longrightarrow> event_view t1 = event_view t"
  "reject_while_disconnected c d t = (stop, t1) \<Longrightarrow> event_view t1 = event_view t"
  by (auto simp: event_view_def recv_command_def)
    (auto simp: event_view_def recv_command_def drive_command_def drive_tick_def reject_while_disconnected_def
      insert_pending_def Let_def split: option.splits command.splits if_splits list.splits)

text \<open>
  What the events delivered say about the frames received: as long as the receiver is there,
  each frame is one event, in order, numbered from 1.
\<close>

definition numbered :: "sequenced_event list \<Rightarrow> bool" where
  "numbered es \<longleftrightarrow> map ev_sequence es = map (\<lambda>k. of_nat (Suc k)) [0..<length es]"

text \<open>An event that was made from its frame, at some time.\<close>

definition from_wire :: "sequenced_event \<Rightarrow> bool" where
  "from_wire e \<longleftrightarrow> (\<exists>now m. e = from_frame now (ev_sequence e) m (ev_frame e))"

fun events_ok :: "incoming_frame list \<Rightarrow> bool \<times> sequence \<times> sequenced_event list \<times> sequenced_event list \<Rightarrow> bool" where
  "events_ok F (live, seq, delivered, published) \<longleftrightarrow>
     numbered delivered \<and> list_all from_wire delivered \<and> published = delivered \<and> prefix (map ev_frame delivered) F \<and>
     (live \<longrightarrow> map ev_frame delivered = F \<and> seq = of_nat (length F))"

lemma events_ok_more: "events_ok F (False, s, es, ps) \<Longrightarrow> events_ok (F @ G) (False, s', es, ps)"
  by auto

lemma numbered_snoc:
  "numbered es \<Longrightarrow> ev_sequence e = of_nat (length es) + 1 \<Longrightarrow> numbered (es @ [e])"
  by (simp add: numbered_def add.commute)

lemma events_ok_deliver:
  assumes "events_ok F (event_view t)" and "next_event clock frame t = (e, t1)" and "send_ingress e t1 = Some t2"
  shows "events_ok (F @ [frame]) (event_view (send_inbound e t2))"
proof -
  have open': "tr_ingress_open t" and t2: "t2 = t1\<lparr>tr_ingress := tr_ingress t1 @ [e]\<rparr>"
    using assms(3) by (auto simp: send_ingress_def next_event_frames(1) [OF assms(2)] split: if_splits)
  with assms(1) have F: "map ev_frame (tr_ingress t) = F" "tr_sequence t = of_nat (length F)"
    and n: "numbered (tr_ingress t)" "tr_inbound t = tr_ingress t" "list_all from_wire (tr_ingress t)"
    by (simp_all add: event_view_def)
  have len: "length F = length (tr_ingress t)" using F(1) by auto
  note e = next_event_frames [OF assms(2)]
  have "numbered (tr_ingress t @ [e])" by (rule numbered_snoc [OF n(1)]) (simp add: e(2) F(2) len)
  moreover have "from_wire e" using e(2) by (auto simp: from_wire_def)
  ultimately show ?thesis using F n e open' by (simp add: event_view_def t2)
qed

lemma events_ok_closed:
  assumes "events_ok F (event_view t)" and "next_event clock frame t = (e, t1)" and "send_ingress e u = None"
    and "event_view u = event_view t1"
  shows "events_ok (F @ [frame]) (event_view t1)"
proof -
  have "\<not> tr_ingress_open t" using assms(3,4) by (auto simp: send_ingress_def event_view_def next_event_frames(1) [OF assms(2)] split: if_splits)
  with assms(1) show ?thesis by (auto simp: event_view_def next_event_frames(1) [OF assms(2)])
qed

lemma events_ok_drive_frame:
  assumes "events_ok F (event_view t)" and "drive_frame clock frame t = (exit, t')"
  shows "events_ok (F @ [frame]) (event_view t')"
proof -
  obtain e t1 where n: "next_event clock frame t = (e, t1)" by fastforce
  show ?thesis
  proof (cases "send_ingress e (answer_pending frame t1)")
    case None
    from events_ok_closed [OF assms(1) n None] assms(2) n None show ?thesis by (auto simp: drive_frame_def)
  next
    case (Some t2)
    let ?u = "answer_pending frame t1"
    have "tr_ingress_open t1" "t2 = ?u\<lparr>tr_ingress := tr_ingress ?u @ [e]\<rparr>"
      using Some event_view_answer [of frame t1] by (auto simp: send_ingress_def event_view_def split: if_splits)
    then have v: "event_view (send_inbound e t2) = event_view (send_inbound e (t1\<lparr>tr_ingress := tr_ingress t1 @ [e]\<rparr>))"
      and s: "send_ingress e t1 = Some (t1\<lparr>tr_ingress := tr_ingress t1 @ [e]\<rparr>)"
      using event_view_answer [of frame t1] by (simp_all add: send_ingress_def event_view_def)
    from events_ok_deliver [OF assms(1) n s] v assms(2) n Some show ?thesis by (auto simp: drive_frame_def)
  qed
qed

lemma events_ok_drive_read:
  assumes "events_ok F (event_view t)" and "drive_read env clock rx w t = (exit, t')"
  shows "events_ok (F @ received_frames env rx) (event_view t')"
proof (cases rx)
  case (RxMessage m)
  let ?t = "t\<lparr>tr_task := AtDrive (pending_of (tr_task t)) (ck_read clock)\<rparr>"
  have "events_ok F (event_view ?t)" using assms(1) by simp
  note d = events_ok_drive_frame [OF this]
  from drive_read_cases [OF assms(2) [unfolded RxMessage]] show ?thesis
  proof (elim disjE conjE exE)
    fix frame
    assume "frame_in env m = [frame]" "drive_frame clock frame ?t = (exit, t')"
    with d RxMessage show ?thesis by simp
  qed (use assms(1) RxMessage in simp_all)
qed (use assms in \<open>auto simp: drive_read_def\<close>)

lemma events_ok_initialize:
  assumes "events_ok F (event_view t)" and "initialize_read env clock rx w t = (h, t')"
  shows "events_ok (F @ received_frames env rx) (event_view t')"
proof (cases "\<exists>m frame. rx = RxMessage m \<and> frame_in env m = [frame]")
  case True
  then obtain m frame where rx: "rx = RxMessage m" and fr: "frame_in env m = [frame]" by blast
  then obtain v where v: "message_json env m = Inr (Some v)" "parse_frame v = Inr frame"
    by (auto simp: frame_in_def split: sum.splits option.splits)
  obtain e t1 where n: "next_event clock frame t = (e, t1)" by fastforce
  show ?thesis
  proof (cases "send_ingress e t1")
    case None
    with assms(2) rx v n have "t' = t1" by (simp add: initialize_read_def)
    with events_ok_closed [OF assms(1) n None refl] rx fr show ?thesis by simp
  next
    case (Some t2)
    with assms(2) rx v n have "event_view t' = event_view (send_inbound e t2)"
      by (auto simp: initialize_read_def Let_def split: if_splits)
    with events_ok_deliver [OF assms(1) n Some] rx fr show ?thesis by simp
  qed
next
  case False
  have "t' = t \<and> received_frames env rx = []"
  proof (cases rx)
    case (RxMessage m)
    with False have "frame_in env m = []"
      by (auto simp: frame_in_def split: sum.splits option.splits)
    moreover from this assms(2) RxMessage have "t' = t"
      by (auto simp: initialize_read_def frame_in_def split: sum.splits option.splits)
    ultimately show ?thesis using RxMessage by simp
  qed (use assms(2) in \<open>auto simp: initialize_read_def\<close>)
  with assms(1) show ?thesis by simp
qed

lemma events_ok_task_step:
  assumes "events_ok F (event_view t)" and "task_step env x t = Some t'"
  shows "events_ok (F @ input_frames env (Task x)) (event_view t')"
  using assms(2)
proof (cases rule: task_step_cases)
  case (Handshake clock rx w)
  obtain h t1 where r: "initialize_read env clock rx w t = (h, t1)" by fastforce
  with Handshake have "event_view t' = event_view t1" by (cases h) (simp_all add: handshake_read_def)
  with events_ok_initialize [OF assms(1) r] Handshake show ?thesis by simp
next
  case (Reject detail)
  from Reject(3) have "event_view t' = event_view t"
    by (rule backoff_command_cases) (simp add: event_view_others)
  with assms(1) Reject show ?thesis by simp
next
  case (Command w ps r c t1 exit t2)
  with assms(1) event_view_others(1,2) show ?thesis by simp
next
  case (Read clock rx w ps r exit t2)
  with events_ok_drive_read [OF assms(1) Read(4)] show ?thesis by simp
next
  case (Tick now w ps r exit t2)
  with assms(1) event_view_others(3) show ?thesis by simp
qed (use assms(1) in simp_all)

lemma events_ok_handle_step:
  assumes "events_ok F (event_view t)" and "handle_step x t = Some t'"
  shows "events_ok F (event_view t')"
proof (cases "x = DropIngress")
  case True
  with assms show ?thesis by (auto simp: handle_step_def event_view_def)
next
  case False
  have "event_view t' = event_view t"
    using assms(2) False
    by (auto simp: handle_step_def event_view_def send_command_def drop_command_def request_begin_def notify_begin_def
        mark_reconciled_def shutdown_begin_def take_ingress_def Let_def
        split: handle_op.splits if_splits option.splits)
  with assms(1) show ?thesis by simp
qed

lemma run_events:
  assumes "transport_run env xs (transport_spawn config) = Some t"
  shows "events_ok (frames_of env xs) (event_view t)"
proof (rule trun.run_history [where I = "\<lambda>xs t. events_ok (frames_of env xs) (event_view t)", OF _ _ assms])
  show "events_ok (frames_of env []) (event_view (transport_spawn config))"
    by (simp add: event_view_def transport_spawn_def frames_of_def numbered_def)
next
  fix xs x t u
  assume "events_ok (frames_of env xs) (event_view t)" "transport_step env x t = Some u"
  then show "events_ok (frames_of env (xs @ [x])) (event_view u)"
    using events_ok_task_step events_ok_handle_step by (cases x) (auto simp: frames_of_snoc simp del: events_ok.simps)
qed

section \<open>Health, gate and backoff\<close>

text \<open>The phase and detail that a watcher of the health sees while the task is at an await.\<close>

fun task_phase :: "task \<Rightarrow> connection_phase \<Rightarrow> string option \<Rightarrow> bool" where
  "task_phase AtConnect ph d \<longleftrightarrow> ph = Connecting \<and> d = None"
| "task_phase AtInitialize ph d \<longleftrightarrow> ph = Handshaking \<and> d = None"
| "task_phase (AtBackoff reason) ph d \<longleftrightarrow> ph = Degraded \<and> d = Some reason"
| "task_phase (AtDrive _ _) ph d \<longleftrightarrow> (ph = Reconciling \<or> ph = Connected) \<and> d = None"
| "task_phase AtEnd ph d \<longleftrightarrow> True"

definition backoff_view :: "transport \<Rightarrow> duration \<times> transport_config" where
  "backoff_view t = (tr_backoff t, tr_config t)"

definition backoff_ok :: "transport_config \<Rightarrow> duration \<times> transport_config \<Rightarrow> bool" where
  "backoff_ok config v \<longleftrightarrow> (case v of (d, c) \<Rightarrow>
     c = config \<and> min (tc_retry_initial c) (tc_retry_max c) \<le> d \<and> d \<le> max (tc_retry_initial c) (tc_retry_max c))"

definition report_ok :: "transport \<Rightarrow> bool" where
  "report_ok t \<longleftrightarrow>
     (if tr_task t = AtEnd then tr_commands t = []
      else task_phase (tr_task t) (hl_phase (tr_health t)) (hl_detail (tr_health t)) \<and>
        hl_reconnect_attempts (tr_health t) = tr_attempts t \<and>
        hl_last_frame_sequence (tr_health t) = tr_sequence t)"

lemma report_ok_disconnected [simp]:
  "report_ok (begin_attempt t)" "report_ok (connection_failed d t)" "report_ok (back_off t)"
  "report_ok (begin_drive now t)" "report_ok (end_task t)"
  by (simp_all add: report_ok_def begin_attempt_def connection_failed_def back_off_def begin_drive_def end_task_eq)

lemma report_ok_finish_drive [simp]: "report_ok (finish_drive env w exit t)"
  by (cases exit) (simp_all add: finish_drive_def Let_def)

lemma report_ok_handshake_read:
  assumes "report_ok t" and "tr_task t = AtInitialize"
  shows "report_ok (handshake_read env clock rx w t)"
proof -
  obtain h t1 where r: "initialize_read env clock rx w t = (h, t1)" by fastforce
  have "h = HandshakeContinues \<Longrightarrow> report_ok t1"
    using r assms by (auto simp: initialize_read_def next_event_def send_ingress_def report_ok_def Let_def
        split: received.splits sum.splits option.splits if_splits)
  with r show ?thesis by (cases h) (simp_all add: handshake_read_def)
qed

lemma report_ok_drive_frame:
  assumes "report_ok t" and "tr_task t = AtDrive ps r" and "drive_frame clock frame t = (None, t')"
  shows "report_ok t'"
proof -
  let ?u = "answer_pending frame (t\<lparr>tr_sequence := tr_sequence t + 1\<rparr>)"
  have u: "tr_health ?u = tr_health t" "tr_attempts ?u = tr_attempts t" "tr_sequence ?u = tr_sequence t + 1"
      "\<exists>ps' r'. tr_task ?u = AtDrive ps' r'"
    using assms(2) by (cases frame; auto simp: Let_def split: option.splits)+
  with assms show ?thesis
    by (auto simp: drive_frame_def next_event_def send_ingress_def report_ok_def Let_def split: option.splits if_splits)
qed

lemma report_ok_drive_read:
  assumes "report_ok t" and "tr_task t = AtDrive ps r" and "rx \<noteq> RxTimedOut" and "drive_read env clock rx w t = (None, t')"
  shows "report_ok t'"
proof (cases rx)
  case (RxMessage m)
  let ?t = "t\<lparr>tr_task := AtDrive (pending_of (tr_task t)) (ck_read clock)\<rparr>"
  have "report_ok ?t" using assms(1,2) by (simp add: report_ok_def)
  note d = report_ok_drive_frame [OF this]
  from drive_read_cases [OF assms(4) [unfolded RxMessage]] show ?thesis
    using assms(1,2) d by (auto simp: report_ok_def)
qed (use assms in \<open>auto simp: drive_read_def\<close>)

lemma report_ok_drive_command:
  assumes "report_ok t" and "tr_task t = AtDrive ps r" and "drive_command w c t = (None, t')"
  shows "report_ok t'"
  using assms by (auto simp: drive_command_def report_ok_def insert_pending_def Let_def
      split: option.splits command.splits)

lemma report_ok_drive_next:
  assumes "exit = None \<Longrightarrow> report_ok t"
  shows "report_ok (drive_next env w (exit, t))"
  using assms by (cases exit) (simp_all add: drive_next_def)

lemma report_ok_task_step:
  assumes "report_ok t" and "task_step env x t = Some t'"
  shows "report_ok t'"
  using assms(2)
proof (cases rule: task_step_cases)
  case (Connect result w)
  with assms(1) show ?thesis
    by (auto simp: connect_returned_def report_ok_def Let_def connection_failed_def split: sum.splits option.splits)
next
  case (Handshake clock rx w)
  with assms(1) show ?thesis by (simp add: report_ok_handshake_read)
next
  case (Reject detail)
  from Reject(3) show ?thesis by (rule backoff_command_cases) simp
next
  case (Command w ps r c t1 exit t2)
  have "report_ok t1" using Command(2,3) assms(1)
    by (auto simp: recv_command_def report_ok_def split: list.splits if_splits)
  with Command report_ok_drive_command show ?thesis by (auto simp: recv_command_held intro!: report_ok_drive_next)
next
  case (Read clock rx w ps r exit t2)
  with assms(1) report_ok_drive_read show ?thesis by (auto intro!: report_ok_drive_next)
next
  case (Tick now w ps r exit t2)
  have "exit = None \<Longrightarrow> report_ok t2" using Tick(2,3) assms(1)
    by (cases w) (auto simp: drive_tick_def report_ok_def Let_def split: if_splits)
  with Tick(4) show ?thesis by (auto intro!: report_ok_drive_next)
qed simp

lemma report_ok_handle_step:
  assumes "report_ok t" and "handle_step x t = Some t'"
  shows "report_ok t'"
  using assms by (auto simp: handle_step_def report_ok_def send_command_def drop_command_def request_begin_def
      notify_begin_def mark_reconciled_def shutdown_begin_def take_ingress_def Let_def
      split: handle_op.splits if_splits option.splits)

lemma backoff_view_simps [simp]:
  "backoff_view (begin_attempt t) = backoff_view t" "backoff_view (connection_failed d t) = backoff_view t"
  "backoff_view (end_task t) = backoff_view t" "backoff_view (connect_returned res w t) = backoff_view t"
  "backoff_view (finish_drive env w exit t) = backoff_view t"
  by (auto simp: backoff_view_def begin_attempt_def connection_failed_def end_task_eq connect_returned_def finish_drive_def
      fold_fail_pending Let_def split: sum.splits option.splits drive_exit.splits)

lemma backoff_ok_moves:
  assumes "backoff_ok config (backoff_view t)"
  shows "backoff_ok config (backoff_view (back_off t))" and "backoff_ok config (backoff_view (begin_drive now t))"
  using assms by (auto simp: backoff_view_def backoff_ok_def back_off_def begin_attempt_def begin_drive_def)

lemma backoff_view_others:
  "recv_command t = Some (c, t1) \<Longrightarrow> backoff_view t1 = backoff_view t"
  "drive_command w c t = (exit, t1) \<Longrightarrow> backoff_view t1 = backoff_view t"
  "drive_tick env now w t = (exit, t1) \<Longrightarrow> backoff_view t1 = backoff_view t"
  "reject_while_disconnected c d t = (stop, t1) \<Longrightarrow> backoff_view t1 = backoff_view t"
  by (auto simp: backoff_view_def recv_command_def drive_command_def drive_tick_def reject_while_disconnected_def
      insert_pending_def Let_def split: option.splits command.splits if_splits list.splits)

lemma backoff_view_answer [simp]: "backoff_view (answer_pending frame t) = backoff_view t"
  by (cases frame) (auto simp: backoff_view_def Let_def split: option.splits)

lemma backoff_view_read:
  assumes "drive_read env clock rx w t = (exit, t1)"
  shows "backoff_view t1 = backoff_view t"
proof (cases rx)
  case (RxMessage m)
  have "backoff_view t1 = backoff_view t" if "drive_frame clock frame t = (exit, t1)" for frame t
    using that backoff_view_answer [of frame "t\<lparr>tr_sequence := tr_sequence t + 1\<rparr>"]
    by (auto simp: backoff_view_def drive_frame_def next_event_def send_ingress_def Let_def split: option.splits if_splits)
  with drive_read_cases [OF assms [unfolded RxMessage]] show ?thesis by (auto simp: backoff_view_def)
qed (use assms in \<open>auto simp: drive_read_def\<close>)

lemma backoff_view_initialize:
  "initialize_read env clock rx w t = (h, t1) \<Longrightarrow> backoff_view t1 = backoff_view t"
  by (auto simp: backoff_view_def initialize_read_def next_event_def send_ingress_def Let_def
      split: received.splits sum.splits option.splits if_splits)

lemma backoff_view_drive_next [simp]: "backoff_view (drive_next env w (exit, t)) = backoff_view t"
  by (cases exit) (simp_all add: drive_next_def)

lemma backoff_ok_task_step:
  assumes "backoff_ok config (backoff_view t)" and "task_step env x t = Some t'"
  shows "backoff_ok config (backoff_view t')"
  using assms(2)
proof (cases rule: task_step_cases)
  case (Handshake clock rx w)
  obtain h t1 where r: "initialize_read env clock rx w t = (h, t1)" by fastforce
  have "backoff_ok config (backoff_view t1)" using backoff_view_initialize [OF r] assms(1) by (simp)
  with Handshake(3) r backoff_ok_moves(2) show ?thesis by (cases h) (simp_all add: handshake_read_def)
next
  case (Reject detail)
  from Reject(3) show ?thesis
  proof (rule backoff_command_cases)
    fix c t1 stop t2
    assume a: "recv_command t = Some (c, t1)" "reject_while_disconnected c detail t1 = (stop, t2)"
      "t' = (if stop then end_task t2 else back_off t2)"
    then have "backoff_ok config (backoff_view t2)"
      using assms(1) backoff_view_others(1) [OF a(1)] backoff_view_others(4) [OF a(2)] by (simp)
    with a(3) backoff_ok_moves(1) show ?thesis by (simp)
  qed
next
  case (Command w ps r c t1 exit t2)
  with assms(1) backoff_view_others(1) [OF Command(3)] backoff_view_others(2) [OF Command(4)] show ?thesis
    by (simp)
next
  case (Read clock rx w ps r exit t2)
  with assms(1) backoff_view_read [OF Read(4)] show ?thesis by (simp)
next
  case (Tick now w ps r exit t2)
  with assms(1) backoff_view_others(3) [OF Tick(3)] show ?thesis by (simp)
qed (use assms(1) backoff_ok_moves in \<open>simp_all\<close>)

lemma backoff_ok_handle_step:
  assumes "backoff_ok config (backoff_view t)" and "handle_step x t = Some t'"
  shows "backoff_ok config (backoff_view t')"
proof -
  have "backoff_view t' = backoff_view t"
    using assms(2) by (auto simp: backoff_view_def handle_step_def send_command_def drop_command_def request_begin_def
      notify_begin_def mark_reconciled_def shutdown_begin_def take_ingress_def Let_def
      split: handle_op.splits if_splits option.splits)
  with assms(1) show ?thesis by (simp)
qed

lemma run_status:
  assumes "transport_run env xs (transport_spawn config) = Some t"
  shows "report_ok t" and "backoff_ok config (backoff_view t)" 
proof -
  have start: "report_ok (transport_spawn config) \<and> backoff_ok config (backoff_view (transport_spawn config))"
    by (simp add: transport_spawn_def report_ok_def health_default_def backoff_ok_def backoff_view_def)
  have step: "report_ok v \<and> backoff_ok config (backoff_view v)"
    if "report_ok u \<and> backoff_ok config (backoff_view u)" "transport_step env x u = Some v" for x u v
  proof (cases x)
    case (Task y)
    with that report_ok_task_step [of u env y v] backoff_ok_task_step [of config u env y v] show ?thesis by simp
  next
    case (Handle y)
    with that report_ok_handle_step [of u y v] backoff_ok_handle_step [of config u y v] show ?thesis by simp
  qed
  show "report_ok t" "backoff_ok config (backoff_view t)"
    using trun.run_invariant [where I = "\<lambda>t. report_ok t \<and> backoff_ok config (backoff_view t)", OF start _ assms] step by blast+
qed

section \<open>The reconciliation gate\<close>

text \<open>The gate is closed and nothing that would open it is on its way.\<close>

definition gate_closed :: "transport \<Rightarrow> bool" where
  "gate_closed t \<longleftrightarrow> \<not> tr_ready t \<and> filter is_mark (tr_sending t @ tr_commands t) = []"

lemma gate_closed_simps [simp]:
  "gate_closed t \<Longrightarrow> gate_closed (begin_attempt t)" "gate_closed t \<Longrightarrow> gate_closed (connection_failed d t)"
  "gate_closed t \<Longrightarrow> gate_closed (back_off t)" "gate_closed t \<Longrightarrow> gate_closed (begin_drive now t)"
  "gate_closed t \<Longrightarrow> gate_closed (end_task t)" "gate_closed t \<Longrightarrow> gate_closed (finish_drive env w exit t)"
  "gate_closed t \<Longrightarrow> gate_closed (drive_next env w (e, t))" "gate_closed t \<Longrightarrow> gate_closed (connect_returned res w t)"
  by (auto simp: gate_closed_def begin_attempt_def connection_failed_def back_off_def begin_drive_def end_task_eq
      finish_drive_def fold_fail_pending drive_next_def connect_returned_def Let_def
      split: drive_exit.splits option.splits sum.splits)

lemma gate_closed_recv:
  assumes "gate_closed t" and "recv_command t = Some (c, t1)"
  shows "gate_closed t1" and "c \<noteq> Some (CmdReconciled k)"
  using assms by (auto simp: recv_command_def gate_closed_def split: list.splits if_splits)

definition gate_view :: "transport \<Rightarrow> bool \<times> command list \<times> command list" where
  "gate_view t = (tr_ready t, tr_sending t, tr_commands t)"

lemma gate_closed_cong: "gate_view t' = gate_view t \<Longrightarrow> gate_closed t' = gate_closed t"
  by (simp add: gate_view_def gate_closed_def)

lemma gate_view_answer: "gate_view (answer_pending frame t) = gate_view t"
  by (cases frame) (auto simp: gate_view_def Let_def split: option.splits)

lemma gate_view_frame: "drive_frame clock frame t = (exit, t1) \<Longrightarrow> gate_view t1 = gate_view t"
  using gate_view_answer [of frame "t\<lparr>tr_sequence := tr_sequence t + 1\<rparr>"]
  by (auto simp: gate_view_def drive_frame_def next_event_def send_ingress_def Let_def split: option.splits if_splits)

lemma gate_view_read:
  assumes "drive_read env clock rx w t = (exit, t1)"
  shows "gate_view t1 = gate_view t"
proof (cases rx)
  case (RxMessage m)
  from drive_read_cases [OF assms [unfolded RxMessage]] show ?thesis
    by (auto simp: gate_view_def dest!: gate_view_frame)
qed (use assms in \<open>auto simp: drive_read_def\<close>)

lemma gate_view_others:
  "drive_tick env now w t = (exit, t1) \<Longrightarrow> gate_view t1 = gate_view t"
  "reject_while_disconnected c d t = (stop, t1) \<Longrightarrow> gate_view t1 = gate_view t"
  "initialize_read env clock rx w t = (h, t1) \<Longrightarrow> gate_view t1 = gate_view t"
  "drive_command w c t = (exit, t1) \<Longrightarrow> (\<And>k. c \<noteq> Some (CmdReconciled k)) \<Longrightarrow> gate_view t1 = gate_view t"
  by (auto simp: gate_view_def drive_command_def drive_tick_def reject_while_disconnected_def initialize_read_def
      next_event_def send_ingress_def insert_pending_def Let_def
      split: option.splits command.splits if_splits received.splits sum.splits)

lemma gate_closed_task_step:
  assumes "gate_closed t" and "task_step env x t = Some t'"
  shows "gate_closed t'"
  using assms(2)
proof (cases rule: task_step_cases)
  case (Handshake clock rx w)
  obtain h t1 where r: "initialize_read env clock rx w t = (h, t1)" by fastforce
  have "gate_closed t1" using gate_view_others(3) [OF r] assms(1) gate_closed_cong by blast
  with Handshake(3) r show ?thesis by (cases h) (simp_all add: handshake_read_def)
next
  case (Reject detail)
  from Reject(3) show ?thesis
  proof (rule backoff_command_cases)
    fix c t1 stop t2
    assume a: "recv_command t = Some (c, t1)" "reject_while_disconnected c detail t1 = (stop, t2)"
      "t' = (if stop then end_task t2 else back_off t2)"
    have "gate_closed t2"
      using gate_closed_cong [OF gate_view_others(2) [OF a(2)]] gate_closed_recv(1) [OF assms(1) a(1)] by simp
    with a(3) show ?thesis by simp
  qed
next
  case (Command w ps r c t1 exit t2)
  have "gate_closed t2"
    using gate_closed_cong [OF gate_view_others(4) [OF Command(4) gate_closed_recv(2) [OF assms(1) Command(3)]]]
      gate_closed_recv(1) [OF assms(1) Command(3)] by simp
  with Command(5) show ?thesis by simp
next
  case (Read clock rx w ps r exit t2)
  with assms(1) gate_closed_cong [OF gate_view_read [OF Read(4)]] show ?thesis by simp
next
  case (Tick now w ps r exit t2)
  with assms(1) gate_closed_cong [OF gate_view_others(1) [OF Tick(3)]] show ?thesis by simp
qed (use assms(1) in simp_all)

lemma filter_remove_index: "filter P xs = [] \<Longrightarrow> filter P (remove_index i xs) = []"
  by (auto simp: filter_empty_conv remove_index_def dest: in_set_takeD in_set_dropD)

lemma gate_closed_handle_step:
  assumes "gate_closed t" and "handle_step x t = Some t'" and "x \<noteq> MarkReconciled"
  shows "gate_closed t'"
proof (cases x)
  case (SendCommand i)
  with assms(2) have s: "send_command i t = Some t'" by (simp add: handle_step_def)
  have f: "filter is_mark (remove_index i (tr_sending t)) = []" "filter is_mark (tr_sending t) = []"
    using assms(1) by (auto simp: gate_closed_def intro: filter_remove_index)
  from s show ?thesis
  proof (cases rule: send_command_cases)
    case Ended
    with f assms(1) show ?thesis
      by (cases "command_channel (tr_sending t ! i)") (auto simp: gate_closed_def drop_command_def Let_def)
  next
    case Open
    then have "\<not> is_mark (tr_sending t ! i)" using f(2) by (metis filter_empty_conv nth_mem)
    with Open f assms(1) show ?thesis by (simp add: gate_closed_def)
  qed
qed (use assms in \<open>auto simp: handle_step_def gate_closed_def request_begin_def notify_begin_def
      shutdown_begin_def take_ingress_def Let_def split: if_splits\<close>)

lemma gate_closed_run:
  assumes "gate_closed t" and "transport_run env xs t = Some u" and "Handle MarkReconciled \<notin> set xs"
  shows "gate_closed u"
  using assms
proof (induction xs arbitrary: t)
  case (Cons x xs)
  from Cons.prems(2) obtain v where v: "transport_step env x t = Some v" "transport_run env xs v = Some u"
    by (auto simp: bind_eq_Some_conv)
  have "gate_closed v"
  proof (cases x)
    case (Task y)
    with v(1) gate_closed_task_step [OF Cons.prems(1)] show ?thesis by simp
  next
    case (Handle y)
    with v(1) Cons.prems(3) gate_closed_handle_step [OF Cons.prems(1), of y v] show ?thesis by auto
  qed
  with Cons.IH v(2) Cons.prems(3) show ?case by simp
qed simp

section \<open>Samples\<close>

definition response_text :: "rpc_id \<Rightarrow> json" where
  "response_text i = JObject [(''id'', rpc_id_value i), (''result'', JNull)]"

definition sample_transport_env :: transport_env where
  "sample_transport_env =
     \<lparr> te_from_str = (\<lambda>s. if s = ''hello'' then Inr (response_text (RpcNumber 0))
         else if s = ''one'' then Inr (response_text (RpcNumber 1)) else Inl ''expected value''),
       te_from_slice = (\<lambda>_. Inl ''expected value''),
       te_show_duration = (\<lambda>_. ''30s''),
       te_drain = drain_by_id \<rparr>"

definition sample_clock :: clock where
  "sample_clock = \<lparr> ck_unix = Some 0, ck_read = 0, ck_elapsed = 0 \<rparr>"

definition sample_transport :: transport where
  "sample_transport = transport_spawn (transport_config_default None ''1'')"

text \<open>A connection is made and the handshake accepted.\<close>

definition connects :: "transport_input list" where
  "connects = [Task (ConnectReturned (Upgraded 101 ''101'') None),
     Task (HandshakeRead sample_clock (RxMessage (MsgText ''hello'')) None)]"

text \<open>The state after the first of the two inputs and after both.\<close>

definition hello_event :: sequenced_event where
  "hello_event = from_frame (Some 0) 1 0 (Response (RpcNumber 0) (Some JNull) None (response_text (RpcNumber 0)))"

definition handshaking :: transport where
  "handshaking = sample_transport\<lparr>tr_task := AtInitialize,
     tr_health := \<lparr> hl_phase = Handshaking, hl_reconnect_attempts = 0, hl_last_frame_sequence = 0, hl_detail = None \<rparr>,
     tr_written := [(InitializeFrame (initialize_request (transport_config_default None ''1'')), True)]\<rparr>"

definition driving :: transport where
  "driving = handshaking\<lparr>tr_task := AtDrive [] 0, tr_sequence := 1,
     tr_health := \<lparr> hl_phase = Reconciling, hl_reconnect_attempts = 0, hl_last_frame_sequence = 1, hl_detail = None \<rparr>,
     tr_ingress := [hello_event], tr_inbound := [hello_event],
     tr_written := tr_written handshaking @ [(NotificationFrame (notification_envelope ''initialized'' (JObject [])), True)]\<rparr>"

text \<open>A request is answered, the next is written and the connection breaks, a third is refused.\<close>

definition sample_session :: "transport_input list" where
  "sample_session = connects @
     [Handle (RequestBegin ''thread/list'' JNull False), Handle (SendCommand 0), Task (DriveCommand None),
      Task (DriveRead sample_clock (RxMessage (MsgText ''one'')) None),
      Handle (RequestBegin ''thread/read'' JNull False), Handle (SendCommand 0), Task (DriveCommand None),
      Task (DriveRead sample_clock RxEnded None),
      Task (ConnectReturned (ConnectError ''refused'') None),
      Handle (RequestBegin ''thread/list'' JNull False), Handle (SendCommand 0), Task BackoffCommand]"

lemma parse_response_text [simp]:
  "parse_frame (response_text i) = Inr (Response i (Some JNull) None (response_text i))"
  by (simp add: parse_frame_def response_text_def get_str_def Let_def)

lemma sample_env_drains [simp]: "drains_all sample_transport_env"
  by (simp add: drain_by_id_all sample_transport_env_def)

lemmas transport_eval = task_step_def connect_returned_def handshake_read_def initialize_read_def message_json_def
  next_event_def send_ingress_def begin_drive_def begin_attempt_def connection_failed_def handle_step_def
  request_begin_def send_command_def recv_command_def drive_command_def drive_read_def drive_frame_def
  drive_next_def finish_drive_def insert_pending_def backoff_command_def reject_while_disconnected_def
  back_off_def end_task_def drop_command_def fail_pending_def remove_index_def is_reconciled_def
  mark_reconciled_def shutdown_begin_def Let_def

lemmas sample_eval = sample_transport_def transport_spawn_def connects_def sample_session_def transport_eval
  sample_transport_env_def sample_clock_def

lemma sample_handshaking: "transport_run sample_transport_env (take 1 connects) sample_transport = Some handshaking"
  by (simp add: sample_eval handshaking_def)

lemma sample_driving: "handshake_read sample_transport_env sample_clock (RxMessage (MsgText ''hello'')) None handshaking = driving"
  by (simp add: sample_eval handshaking_def driving_def hello_event_def)

lemma sample_driving_simps [simp]:
  "tr_task handshaking = AtInitialize" "tr_task driving = AtDrive [] 0" "tr_sending driving = []"
  "tr_commands driving = []"
  by (simp_all add: sample_transport_def transport_spawn_def handshaking_def driving_def)

section \<open>Properties\<close>

text \<open>C10. No frame is lost, duplicated or reordered between the socket and the authoritative
  ingress. While the ingress has its receiver, over any number of connections, the events
  delivered are exactly the well-formed frames received, in order, numbered 1, 2, 3 and on
  without a break at a reconnect, and the broadcast channel got the same events.\<close>

theorem ingress_delivers_every_frame:
  assumes "transport_run env xs (transport_spawn config) = Some t" and "tr_ingress_open t"
  shows "map ev_frame (tr_ingress t) = frames_of env xs \<and> tr_inbound t = tr_ingress t \<and>
    map ev_sequence (tr_ingress t) = map (\<lambda>k. of_nat (Suc k)) [0..<length (tr_ingress t)]"
  using run_events [OF assms(1)] assms(2) by (simp add: event_view_def numbered_def)

theorem ingress_delivers_every_frame_witness:
  "\<exists>t. transport_run sample_transport_env (sample_session @ connects) sample_transport = Some t \<and>
     map ev_sequence (tr_ingress t) = [1, 2, 3] \<and>
     map ev_frame (tr_ingress t) = frames_of sample_transport_env (sample_session @ connects)"
proof -
  obtain t where run: "transport_run sample_transport_env (sample_session @ connects) sample_transport = Some t"
      and live: "tr_ingress_open t" and len: "length (tr_ingress t) = 3"
    by (simp add: sample_eval)
  from ingress_delivers_every_frame [OF run [unfolded sample_transport_def] live] run len show ?thesis
    by (simp add: upt_rec)
qed

text \<open>C14. The gate of a new connection opens only through \<open>mark_reconciled\<close>. When a handshake
  brings a connection up and no \<open>Reconciled\<close> command is on its way, then whatever happens
  next, reconnects included, every action is refused as not written until
  \<open>mark_reconciled\<close> is called.\<close>

theorem gate_closed_until_marked:
  assumes "tr_task t = AtInitialize" and "handshake_read env clock rx w t = u" and "tr_task u = AtDrive ps r"
    and "filter is_mark (tr_sending u @ tr_commands u) = []"
    and "transport_run env xs u = Some v" and "Handle MarkReconciled \<notin> set xs"
  shows "request_begin meth params True v = (Inl (NotWritten ''reconciliation gate is closed''), v)"
proof -
  obtain h t1 where r: "initialize_read env clock rx w t = (h, t1)" by fastforce
  have "\<not> tr_ready u"
    using assms(1-3) r initialize_read_frames(2) [OF r]
    by (cases h) (auto simp: handshake_read_def begin_drive_def connection_failed_def)
  with assms(4) have "gate_closed u" by (simp add: gate_closed_def)
  from gate_closed_run [OF this assms(5,6)] show ?thesis
    by (simp add: gate_closed_def request_begin_def is_reconciled_def)
qed

theorem gate_closed_until_marked_witness:
  "\<exists>t u v. transport_run sample_transport_env (take 1 connects) sample_transport = Some t \<and>
     handshake_read sample_transport_env sample_clock (RxMessage (MsgText ''hello'')) None t = u \<and>
     transport_run sample_transport_env (drop 2 sample_session @ connects) u = Some v \<and>
     fst (request_begin ''turn/start'' JNull True v) = Inl (NotWritten ''reconciliation gate is closed'')"
proof -
  obtain v where v: "transport_run sample_transport_env (drop 2 sample_session @ connects) driving = Some v"
    by (simp add: sample_eval handshaking_def driving_def)
  have "Handle MarkReconciled \<notin> set (drop 2 sample_session @ connects)" by (simp add: sample_session_def connects_def)
  from gate_closed_until_marked [OF _ sample_driving _ _ v this] sample_handshaking sample_driving v show ?thesis by auto
qed

text \<open>The health tells where the connection is. While the task runs, the published phase and
  detail are those of the await it is at (connecting, handshaking, degraded with the reason of
  the failure, reconciling or connected), with the attempts counted and the last sequence
  given.\<close>

theorem health_reports_connection:
  assumes "transport_run env xs (transport_spawn config) = Some t" and "tr_task t \<noteq> AtEnd"
  shows "task_phase (tr_task t) (hl_phase (tr_health t)) (hl_detail (tr_health t)) \<and>
    hl_reconnect_attempts (tr_health t) = tr_attempts t \<and>
    hl_last_frame_sequence (tr_health t) = tr_sequence t"
  using run_status(1) [OF assms(1)] assms(2) by (simp add: report_ok_def)

theorem health_reports_connection_witness:
  "\<exists>t. transport_run sample_transport_env (sample_session @ connects) sample_transport = Some t \<and>
     tr_health t = \<lparr> hl_phase = Reconciling, hl_reconnect_attempts = 2, hl_last_frame_sequence = 3, hl_detail = None \<rparr> \<and>
     task_phase (tr_task t) (hl_phase (tr_health t)) (hl_detail (tr_health t))"
proof -
  obtain t where run: "transport_run sample_transport_env (sample_session @ connects) sample_transport = Some t"
      and task: "tr_task t \<noteq> AtEnd"
      and h: "tr_health t = \<lparr> hl_phase = Reconciling, hl_reconnect_attempts = 2, hl_last_frame_sequence = 3, hl_detail = None \<rparr>"
    by (simp add: sample_eval)
  from health_reports_connection [OF run [unfolded sample_transport_def] task] run h show ?thesis by blast
qed

text \<open>The delay between attempts stays within its configured bounds. In every reachable state
  the current delay lies between the smaller and the larger of the initial and the maximal
  delay, so with an initial delay below the maximum it never exceeds the maximum; and a failed
  attempt doubles it up to the maximum.\<close>

theorem retry_delay_bounded:
  assumes "transport_run env xs (transport_spawn config) = Some t"
  shows "min (tc_retry_initial config) (tc_retry_max config) \<le> tr_backoff t \<and>
    tr_backoff t \<le> max (tc_retry_initial config) (tc_retry_max config) \<and>
    tr_backoff (back_off t) = min (tr_backoff t * 2) (tc_retry_max config)"
  using run_status(2) [OF assms]
  by (auto simp: backoff_ok_def backoff_view_def back_off_def begin_attempt_def)

theorem retry_delay_bounded_witness:
  "\<exists>t. transport_run sample_transport_env
       [Task (ConnectReturned ConnectTimedOut None), Task BackoffElapsed,
        Task (ConnectReturned (ConnectError ''refused'') None), Task BackoffElapsed] sample_transport = Some t \<and>
     tr_backoff t = from_millis 400 \<and>
     tr_backoff t \<le> max (tc_retry_initial (transport_config_default None ''1''))
       (tc_retry_max (transport_config_default None ''1''))"
proof -
  obtain t where run: "transport_run sample_transport_env
       [Task (ConnectReturned ConnectTimedOut None), Task BackoffElapsed,
        Task (ConnectReturned (ConnectError ''refused'') None), Task BackoffElapsed] sample_transport = Some t"
      and b: "tr_backoff t = from_millis 400"
    by (simp add: sample_eval transport_config_default_def)
  from retry_delay_bounded [OF run [unfolded sample_transport_def]] run b show ?thesis by blast
qed

text \<open>C28. A half-open connection is dropped and its requests are told. When nothing was read for
  twice the idle timeout, the next tick ends the connection whatever the socket says, closes
  the gate, counts the attempt and answers every pending request with an unknown outcome that
  names its id and method; then the task connects again.\<close>

theorem half_open_connection_dropped:
  assumes "drains_all env" and "tr_task t = AtDrive ps r" and "r + tc_read_idle_timeout (tr_config t) * 2 \<le> now"
    and "task_step env (DriveTick now w) t = Some u"
  shows "tr_task u = AtConnect \<and> \<not> tr_ready u \<and> tr_attempts u = tr_attempts t + 1 \<and>
    set (tr_resolved u) = set (tr_resolved t) \<union>
      (\<lambda>(i, p). (pd_response p, Resolved (Inl (WrittenOutcomeUnknown i (pd_method p)
         (''read idle for '' @ te_show_duration env (now - r)))))) ` set ps"
proof -
  let ?d = "''read idle for '' @ te_show_duration env (now - r)"
  have "tc_read_idle_timeout (tr_config t) * 2 \<le> now - r" using assms(3) by simp
  then have u: "u = finish_drive env w (ExitDisconnected ?d) t"
    using assms(2,4) by (simp add: task_step_def drive_tick_def drive_next_def Let_def)
  have "set (te_drain env ps) = set ps" using assms(1) by (metis drains_all_def set_mset_mset)
  then show ?thesis
    unfolding u using assms(2) by (simp add: finish_drive_def Let_def begin_attempt_def fold_fail_pending
        unknown_answer_def split_beta)
qed

theorem half_open_connection_dropped_witness:
  "\<exists>t u. transport_run sample_transport_env (take 5 sample_session) sample_transport = Some t \<and>
     task_step sample_transport_env (DriveTick (from_secs 60) None) t = Some u \<and>
     set (tr_resolved u) = {(0, Resolved (Inl (WrittenOutcomeUnknown (RpcNumber 1) ''thread/list'' ''read idle for 30s'')))}"
proof -
  let ?p = "\<lparr> pd_method = ''thread/list'', pd_response = 0 \<rparr>"
  obtain t where run: "transport_run sample_transport_env (take 5 sample_session) sample_transport = Some t"
      and t: "tr_task t = AtDrive [(RpcNumber 1, ?p)] 0" "tr_resolved t = []"
        "tc_read_idle_timeout (tr_config t) = from_secs 30"
    by (simp add: sample_eval transport_config_default_def)
  obtain u where u: "task_step sample_transport_env (DriveTick (from_secs 60) None) t = Some u"
    using t by (simp add: task_step_def)
  from half_open_connection_dropped [OF sample_env_drains t(1) _ u] t run u show ?thesis
    by (auto simp: sample_transport_env_def)
qed

section \<open>Runs worth knowing\<close>

text \<open>
  A \<open>Reconciled\<close> command that is still queued when its connection breaks is handled on the
  next connection and opens its gate, although nothing reconciled that connection.
\<close>

theorem stale_mark_opens_next_gate:
  "\<exists>t u. transport_run sample_transport_env (connects @
       [Handle MarkReconciled, Handle (SendCommand 0), Task (DriveRead sample_clock RxEnded None)]) sample_transport = Some t \<and>
     \<not> tr_ready t \<and> tr_attempts t = 1 \<and>
     transport_run sample_transport_env (connects @ [Task (DriveCommand None)]) t = Some u \<and>
     tr_ready u \<and> hl_phase (tr_health u) = Connected"
  by (simp add: sample_eval)

text \<open>A shutdown taken while disconnected ends the task with the health left at \<open>Degraded\<close>.\<close>

theorem disconnected_shutdown_stays_degraded:
  "\<exists>t. transport_run sample_transport_env
       [Task (ConnectReturned (ConnectError ''refused'') None), Handle ShutdownBegin, Handle (SendCommand 0),
        Task BackoffCommand] sample_transport = Some t \<and>
     tr_task t = AtEnd \<and> tr_resolved t = [(0, Done)] \<and> hl_phase (tr_health t) = Degraded"
  by (simp add: sample_eval)

text \<open>
  A closed ingress ends a driven connection for good, but during a handshake it is a failed
  attempt like any other, so the task keeps connecting.
\<close>

theorem closed_ingress_retries_handshake:
  "\<exists>t. transport_run sample_transport_env (Handle DropIngress # connects) sample_transport = Some t \<and>
     tr_task t = AtBackoff ''authoritative ingress closed'' \<and> tr_ingress t = []"
  by (simp add: sample_eval)

end
