(* ===== verification/Requests.thy ===== *)
theory Requests
  imports Connection
begin

text \<open>
  The life of one request, seen from outside the transport: an abstract machine for the write
  states the errors of \<open>src/transport/src/lib.rs\<close> promise, and the proof that the
  connection task, its handles and every reconnection only move a request along it.
\<close>

section \<open>The abstract machine\<close>

datatype request_phase = Unissued | Queued | InFlight rpc_id string | Settled resolution

text \<open>What ends a request that was never written, and one that was.\<close>

fun unwritten_end :: "resolution \<Rightarrow> bool" where
  "unwritten_end (Resolved (Inl (NotWritten _))) \<longleftrightarrow> True"
| "unwritten_end Done \<longleftrightarrow> True"
| "unwritten_end Dropped \<longleftrightarrow> True"
| "unwritten_end _ \<longleftrightarrow> False"

fun written_end :: "rpc_id \<Rightarrow> string \<Rightarrow> resolution \<Rightarrow> bool" where
  "written_end i m (Resolved (Inr _)) \<longleftrightarrow> True"
| "written_end i m (Resolved (Inl (Rejected m' _))) \<longleftrightarrow> m' = m"
| "written_end i m (Resolved (Inl (WrittenOutcomeUnknown i' m' _))) \<longleftrightarrow> i' = i \<and> m' = m"
| "written_end i m Dropped \<longleftrightarrow> True"
| "written_end i m _ \<longleftrightarrow> False"

inductive phase_step :: "request_phase \<Rightarrow> request_phase \<Rightarrow> bool" where
  issue: "phase_step Unissued Queued"
| send: "phase_step Queued (InFlight i m)"
| unwritten: "unwritten_end r \<Longrightarrow> phase_step Queued (Settled r)"
| written: "written_end i m r \<Longrightarrow> phase_step (InFlight i m) (Settled r)"

inductive_cases phase_step_SettledE: "phase_step (Settled r) q"

text \<open>Where the transport has the request that is answered on a channel.\<close>

definition request_phase :: "channel \<Rightarrow> transport \<Rightarrow> request_phase" where
  "request_phase k t =
     (case map_of (tr_resolved t) k of
        Some r \<Rightarrow> Settled r
      | None \<Rightarrow>
          (case find (\<lambda>q. pd_response (snd q) = k) (pending_of (tr_task t)) of
             Some q \<Rightarrow> InFlight (fst q) (pd_method (snd q))
           | None \<Rightarrow> if k < tr_next_channel t then Queued else Unissued))"

section \<open>Progress\<close>

definition progresses :: "transport \<Rightarrow> transport \<Rightarrow> bool" where
  "progresses t u \<longleftrightarrow>
     tr_next_channel t \<le> tr_next_channel u \<and> prefix (tr_resolved t) (tr_resolved u) \<and>
     prefix (tr_written t) (tr_written u) \<and>
     (\<forall>(i, p) \<in> set (pending_of (tr_task t)).
        (i, p) \<in> set (pending_of (tr_task u)) \<or> pd_response p \<in> fst ` set (tr_resolved u))"

lemma progresses_trans:
  assumes "progresses t u" and "progresses u v"
  shows "progresses t v"
proof -
  have "set (tr_resolved u) \<subseteq> set (tr_resolved v)" using assms(2) by (simp add: progresses_def set_mono_prefix)
  then have "(i, p) \<in> set (pending_of (tr_task v)) \<or> pd_response p \<in> fst ` set (tr_resolved v)"
    if "(i, p) \<in> set (pending_of (tr_task t))" for i p
    using that assms unfolding progresses_def by blast
  with assms show ?thesis
    unfolding progresses_def by (auto intro: prefix_order.trans)
qed

lemma progresses_fields:
  "tr_next_channel u = tr_next_channel t \<Longrightarrow> prefix (tr_resolved t) (tr_resolved u) \<Longrightarrow>
   prefix (tr_written t) (tr_written u) \<Longrightarrow> set (pending_of (tr_task t)) \<subseteq> set (pending_of (tr_task u)) \<Longrightarrow>
   progresses t u"
  unfolding progresses_def by auto

lemma progresses_disconnected:
  assumes "pending_of (tr_task t) = []"
  shows "progresses t (begin_attempt t)" and "progresses t (connection_failed d t)" and "progresses t (back_off t)"
    and "progresses t (begin_drive now t)" and "progresses t (end_task t)" and "progresses t (connect_returned res w t)"
  using assms by (auto simp: begin_attempt_def connection_failed_def back_off_def begin_drive_def end_task_eq
      connect_returned_def Let_def intro!: progresses_fields split: sum.splits option.splits)

lemma pending_key: "keys_ok t \<Longrightarrow> (i, p) \<in> set (pending_of (tr_task t)) \<Longrightarrow> map_of (pending_of (tr_task t)) i = Some p"
  by (simp add: keys_ok_def)

lemma progresses_insert_pending: "keys_ok t \<Longrightarrow> progresses t (insert_pending i p t)"
  by (auto simp: progresses_def insert_pending_def Let_def dest: pending_key split: option.splits)

lemma progresses_answer_pending: "keys_ok t \<Longrightarrow> progresses t (answer_pending frame t)"
  by (cases frame) (auto simp: progresses_def Let_def dest: pending_key split: option.splits)

lemma progresses_recv: "recv_command t = Some (c, t1) \<Longrightarrow> progresses t t1"
  by (auto simp: progresses_def recv_command_def split: list.splits if_splits)

lemma progresses_drive_command:
  assumes "keys_ok t" and "drive_command w c t = (exit, t1)"
  shows "progresses t t1"
proof -
  have insert: "progresses t (insert_pending i p (t\<lparr>tr_written := tr_written t @ out\<rparr>))" for i p out
    by (rule progresses_trans [OF _ progresses_insert_pending])
      (use assms(1) in \<open>auto intro: progresses_fields\<close>)
  from assms(2) insert show ?thesis
    by (auto simp: drive_command_def Let_def intro: progresses_fields split: option.splits command.splits)
qed

lemma progresses_drive_frame:
  assumes "keys_ok t" and "drive_frame clock frame t = (exit, t1)"
  shows "progresses t t1"
proof -
  let ?u = "answer_pending frame (t\<lparr>tr_sequence := tr_sequence t + 1\<rparr>)"
  have u: "progresses t ?u"
    by (rule progresses_trans [OF _ progresses_answer_pending]) (use assms(1) in \<open>auto intro: progresses_fields\<close>)
  have "progresses ?u t1"
    using assms(2) by (auto simp: drive_frame_def next_event_def send_ingress_def Let_def
        intro: progresses_fields split: option.splits if_splits)
  with u show ?thesis by (rule progresses_trans)
qed

lemma progresses_drive_read:
  assumes "keys_ok t" and "drive_read env clock rx w t = (exit, t1)"
  shows "progresses t t1"
proof (cases rx)
  case (RxMessage m)
  let ?t = "t\<lparr>tr_task := AtDrive (pending_of (tr_task t)) (ck_read clock)\<rparr>"
  have t: "progresses t ?t" "keys_ok ?t" using assms(1) by (auto simp: keys_ok_def intro: progresses_fields)
  from drive_read_cases [OF assms(2) [unfolded RxMessage]] show ?thesis
  proof (elim disjE conjE exE)
    fix frame
    assume "drive_frame clock frame ?t = (exit, t1)"
    from progresses_trans [OF t(1) progresses_drive_frame [OF t(2) this]] show ?thesis .
  qed (use t(1) in \<open>auto intro: progresses_fields\<close>)
qed (use assms in \<open>auto simp: drive_read_def intro: progresses_fields\<close>)

lemma progresses_drive_tick: "drive_tick env now w t = (exit, t1) \<Longrightarrow> progresses t t1"
  by (auto simp: drive_tick_def Let_def intro: progresses_fields split: if_splits)

lemma progresses_finish_drive:
  assumes "drains_all env"
  shows "progresses t (finish_drive env w exit t)"
proof -
  have "set (te_drain env ps) = set ps" for ps using assms by (metis drains_all_def set_mset_mset)
  then show ?thesis
    by (cases exit) (force simp: progresses_def finish_drive_def fold_fail_pending end_task_eq begin_attempt_def
        unknown_answer_def Let_def)+
qed

lemma progresses_drive_next:
  assumes "drains_all env" and "progresses t u"
  shows "progresses t (drive_next env w (exit, u))"
  using assms(2) progresses_trans [OF assms(2) progresses_finish_drive [OF assms(1)]]
  by (cases exit) (simp_all add: drive_next_def)

lemma progresses_task_step:
  assumes "drains_all env" and "keys_ok t" and "task_step env x t = Some t'"
  shows "progresses t t'"
  using assms(3)
proof (cases rule: task_step_cases)
  case (Handshake clock rx w)
  obtain h t1 where r: "initialize_read env clock rx w t = (h, t1)" by fastforce
  have p: "progresses t t1" "pending_of (tr_task t1) = []"
    using r Handshake(2) by (auto simp: initialize_read_def next_event_def send_ingress_def Let_def
        intro!: progresses_fields split: received.splits sum.splits option.splits if_splits)
  from Handshake(3) r p progresses_disconnected(2,4) [OF p(2)] show ?thesis
    by (cases h) (auto simp: handshake_read_def intro: progresses_trans)
next
  case (Reject detail)
  from Reject(3) show ?thesis
  proof (rule backoff_command_cases)
    fix c t1 stop t2
    assume a: "recv_command t = Some (c, t1)" "reject_while_disconnected c detail t1 = (stop, t2)"
      "t' = (if stop then end_task t2 else back_off t2)"
    have "progresses t1 t2" and t: "tr_task t2 = tr_task t1"
      using a(2) by (auto simp: reject_while_disconnected_def intro!: progresses_fields split: option.splits command.splits)
    with progresses_recv [OF a(1)] have "progresses t t2" by (rule_tac progresses_trans)
    moreover have "pending_of (tr_task t2) = []" using t recv_command_held(2) [OF a(1)] Reject(2) by simp
    ultimately show ?thesis using a(3) progresses_disconnected [of t2] by (auto intro: progresses_trans)
  qed
next
  case (Command w ps r c t1 exit t2)
  have "progresses t t2"
    using progresses_trans [OF progresses_recv [OF Command(3)] progresses_drive_command [OF _ Command(4)]]
      recv_command_keys [OF Command(3)] assms(2) by simp
  with progresses_drive_next [OF assms(1)] Command(5) show ?thesis by simp
next
  case (Read clock rx w ps r exit t2)
  with progresses_drive_next [OF assms(1) progresses_drive_read [OF assms(2) Read(4)]] show ?thesis by simp
next
  case (Tick now w ps r exit t2)
  with progresses_drive_next [OF assms(1) progresses_drive_tick [OF Tick(3)]] show ?thesis by simp
qed (use progresses_disconnected in \<open>simp_all\<close>)

lemma progresses_handle_step:
  assumes "handle_step x t = Some t'"
  shows "progresses t t'"
proof (cases x)
  case (SendCommand i)
  with assms have s: "send_command i t = Some t'" by (simp add: handle_step_def)
  from send_command_frames(2-4) [OF s] send_command_frames(6) [OF s] show ?thesis
    by (auto intro!: progresses_fields)
qed (use assms in \<open>auto simp: handle_step_def request_begin_def notify_begin_def mark_reconciled_def
    shutdown_begin_def take_ingress_def progresses_def Let_def split: if_splits\<close>)

section \<open>Simulation\<close>

lemma from_unissued:
  assumes "ledger F t"
  shows "phase_step\<^sup>*\<^sup>* Unissued (request_phase k t)"
    and "request_phase k t \<noteq> Unissued \<Longrightarrow> phase_step\<^sup>*\<^sup>* Queued (request_phase k t)"
proof -
  have q: "phase_step\<^sup>*\<^sup>* Queued (request_phase k t)" if "request_phase k t \<noteq> Unissued"
  proof (cases "request_phase k t")
    case (InFlight i m)
    then show ?thesis using phase_step.send by auto
  next
    case (Settled r)
    then have "map_of (tr_resolved t) k = Some r" by (auto simp: request_phase_def split: option.splits if_splits)
    then have "settled F (tr_written t) k r"
      using assms unfolding ledger_def ledger_ok_def by (blast dest: map_of_SomeD)
    then have "unwritten_end r \<or> (\<exists>i m. written_end i m r)"
      by (cases "(F, tr_written t, k, r)" rule: settled.cases) auto
    then show ?thesis using Settled phase_step.send phase_step.unwritten phase_step.written
      by (metis converse_rtranclp_into_rtranclp rtranclp.rtrancl_refl)
  qed (use that in simp_all)
  then show "request_phase k t \<noteq> Unissued \<Longrightarrow> phase_step\<^sup>*\<^sup>* Queued (request_phase k t)" .
  show "phase_step\<^sup>*\<^sup>* Unissued (request_phase k t)"
    using q phase_step.issue by (cases "request_phase k t = Unissued") (auto intro: converse_rtranclp_into_rtranclp)
qed

lemma requests_to_prefix:
  assumes "prefix out out'" and "length (requests_to k out') \<le> 1" and "requests_to k out = [w]"
  shows "requests_to k out' = [w]"
proof -
  obtain more where "out' = out @ more" using assms(1) by (auto simp: prefix_def)
  then have "requests_to k out' = [w] @ requests_to k more" using assms(3) by (simp add: requests_to_def)
  with assms(2) show ?thesis by (cases "requests_to k more") simp_all
qed

lemma find_inj: "inj_on f (set xs) \<Longrightarrow> q \<in> set xs \<Longrightarrow> find (\<lambda>x. f x = f q) xs = Some q"
  by (induction xs) (auto simp: inj_on_def)

lemma pending_unresolved:
  assumes "channels_ok t" and "q \<in> set (pending_of (tr_task t))"
  shows "pd_response (snd q) \<notin> fst ` set (tr_resolved t)"
    and "find (\<lambda>q'. pd_response (snd q') = pd_response (snd q)) (pending_of (tr_task t)) = Some q"
proof -
  note d = channels_ok_distinct [OF assms(1)]
  from d assms(2) show "pd_response (snd q) \<notin> fst ` set (tr_resolved t)" by (auto simp: pending_channels_def)
  from d have "inj_on (\<lambda>q. pd_response (snd q)) (set (pending_of (tr_task t)))"
    by (simp add: pending_channels_def distinct_map)
  from find_inj [OF this assms(2)]
  show "find (\<lambda>q'. pd_response (snd q') = pd_response (snd q)) (pending_of (tr_task t)) = Some q" .
qed

lemma request_phase_pending:
  assumes "channels_ok t" and "(i, p) \<in> set (pending_of (tr_task t))"
  shows "request_phase (pd_response p) t = InFlight i (pd_method p)"
  using pending_unresolved [OF assms] by (simp add: request_phase_def map_of_eq_None_iff [THEN iffD2])

lemma request_phase_InFlight:
  assumes "request_phase k t = InFlight i m"
  obtains p where "(i, p) \<in> set (pending_of (tr_task t))" "pd_response p = k" "pd_method p = m"
proof -
  from assms obtain q where "find (\<lambda>q. pd_response (snd q) = k) (pending_of (tr_task t)) = Some q"
      "i = fst q" "m = pd_method (snd q)"
    by (auto simp: request_phase_def split: option.splits if_splits)
  with that [of "snd q"] show ?thesis by (auto simp: find_Some_iff)
qed

lemma settled_written:
  assumes "settled F out k r" and "requests_to k out = [(RequestFrame k i m x, True)]"
  shows "written_end i m r"
  using assms by (cases "(F, out, k, r)" rule: settled.cases) auto

lemma resolved_unique:
  "channels_ok t \<Longrightarrow> (k, r) \<in> set (tr_resolved t) \<Longrightarrow> map_of (tr_resolved t) k = Some r"
  using channels_ok_distinct [of t] by simp

lemma phases_simulate:
  assumes "channels_ok t" and "ledger F t" and "channels_ok u" and "ledger G u" and "progresses t u"
  shows "phase_step\<^sup>*\<^sup>* (request_phase k t) (request_phase k u)"
proof (cases "request_phase k t")
  case Unissued
  with from_unissued(1) [OF assms(4)] show ?thesis by simp
next
  case Queued
  then have "k < tr_next_channel t" by (auto simp: request_phase_def split: option.splits if_splits)
  then have "k < tr_next_channel u" using assms(5) by (simp add: progresses_def)
  then have "request_phase k u \<noteq> Unissued" by (auto simp: request_phase_def split: option.splits)
  with from_unissued(2) [OF assms(4)] Queued show ?thesis by simp
next
  case (InFlight i m)
  then obtain p where p: "(i, p) \<in> set (pending_of (tr_task t))" "pd_response p = k" "pd_method p = m"
    by (rule request_phase_InFlight)
  from p(1) assms(5) have "(i, p) \<in> set (pending_of (tr_task u)) \<or> k \<in> fst ` set (tr_resolved u)"
    unfolding progresses_def p(2) [symmetric] by blast
  then show ?thesis
  proof
    assume "(i, p) \<in> set (pending_of (tr_task u))"
    with request_phase_pending [OF assms(3) this] p InFlight show ?thesis by simp
  next
    assume "k \<in> fst ` set (tr_resolved u)"
    then obtain r where r: "(k, r) \<in> set (tr_resolved u)" by auto
    then have s: "settled G (tr_written u) k r" using assms(4) unfolding ledger_def ledger_ok_def by blast
    obtain x where "requests_to k (tr_written t) = [(RequestFrame k i m x, True)]"
      using ledger_pending [OF assms(2) p(1)] p(2,3) by blast
    then have "requests_to k (tr_written u) = [(RequestFrame k i m x, True)]"
      using requests_to_prefix written_at_most_once [OF assms(3,4)] assms(5) unfolding progresses_def by blast
    from phase_step.written [OF settled_written [OF s this]] InFlight resolved_unique [OF assms(3) r]
    show ?thesis by (auto simp: request_phase_def)
  qed
next
  case (Settled r)
  then have "map_of (tr_resolved t) k = Some r" by (auto simp: request_phase_def split: option.splits if_splits)
  moreover obtain more where "tr_resolved u = tr_resolved t @ more"
    using assms(5) by (auto simp: progresses_def prefix_def)
  ultimately have "request_phase k u = Settled r" by (simp add: request_phase_def map_add_Some_iff)
  with Settled show ?thesis by simp
qed

lemma progresses_step:
  assumes "drains_all env" and "channels_ok t" and "transport_step env x t = Some u"
  shows "progresses t u"
proof (cases x)
  case (Task y)
  with progresses_task_step assms show ?thesis by (auto simp: channels_ok_def)
next
  case (Handle y)
  with progresses_handle_step assms(3) show ?thesis by simp
qed

lemma run_progresses:
  assumes "drains_all env" and "channels_ok t" and "transport_run env xs t = Some u"
  shows "progresses t u"
proof -
  have "channels_ok u \<and> progresses t u"
  proof (rule trun.run_history [where I = "\<lambda>_ v. channels_ok v \<and> progresses t v", OF _ _ assms(3)])
    show "channels_ok t \<and> progresses t t" using assms(2) by (auto simp: progresses_def)
  next
    fix ys x v w
    assume "channels_ok v \<and> progresses t v" "transport_step env x v = Some w"
    with transport_step_channels [OF assms(1)] progresses_step [OF assms(1)]
    show "channels_ok w \<and> progresses t w" by (blast intro: progresses_trans)
  qed
  then show ?thesis ..
qed

section \<open>Properties\<close>

text \<open>C4. What an error says about the wire is true. Over any run of the transport, reconnects
  included, a request is written at most once; its channel is answered at most once; an answer
  with a result or a rejection comes from a response frame with the request's id that was
  received, after the request was written; an unknown outcome means that it was written; and
  not written means that no write of it succeeded.\<close>

theorem request_answers_match_writes:
  assumes "drains_all env" and "transport_run env xs (transport_spawn config) = Some t"
  shows "length (requests_to k (tr_written t)) \<le> 1 \<and> distinct (map fst (tr_resolved t)) \<and>
    ((k, r) \<in> set (tr_resolved t) \<longrightarrow> settled (set (frames_of env xs)) (tr_written t) k r)"
proof -
  note c = run_channels [OF assms] and l = run_ledger [OF assms]
  have "distinct (map fst (tr_resolved t))" using channels_ok_distinct [OF c] by simp
  with written_at_most_once [OF c l] l show ?thesis unfolding ledger_def ledger_ok_def by blast
qed

theorem request_answers_match_writes_witness:
  "\<exists>t. transport_run sample_transport_env sample_session sample_transport = Some t \<and>
     tr_resolved t =
       [(0, Resolved (Inr JNull)),
        (1, Resolved (Inl (WrittenOutcomeUnknown (RpcNumber 2) ''thread/read'' ''websocket stream ended''))),
        (2, Resolved (Inl (NotWritten ''unix socket connect: refused'')))] \<and>
     settled (set (frames_of sample_transport_env sample_session)) (tr_written t) 0 (Resolved (Inr JNull))"
proof -
  obtain t where run: "transport_run sample_transport_env sample_session sample_transport = Some t"
      and rs: "tr_resolved t =
       [(0, Resolved (Inr JNull)),
        (1, Resolved (Inl (WrittenOutcomeUnknown (RpcNumber 2) ''thread/read'' ''websocket stream ended''))),
        (2, Resolved (Inl (NotWritten ''unix socket connect: refused'')))]"
    by (simp add: sample_eval)
  from request_answers_match_writes [OF sample_env_drains run [unfolded sample_transport_def], of 0 "Resolved (Inr JNull)"]
  have "settled (set (frames_of sample_transport_env sample_session)) (tr_written t) 0 (Resolved (Inr JNull))"
    by (simp add: rs del: settled.simps)
  with run rs show ?thesis by blast
qed

text \<open>C9. The transport implements the request machine. Whatever the task or a handle does in a
  reachable state, a request moves only forward: issued, queued, in flight under its id, then
  settled once and for all, as a request that was never written or as one that was.\<close>

theorem transport_refines_request_machine:
  assumes "drains_all env" and "transport_run env xs (transport_spawn config) = Some t"
    and "transport_step env x t = Some u"
  shows "phase_step\<^sup>*\<^sup>* (request_phase k t) (request_phase k u)"
proof -
  have run: "transport_run env (xs @ [x]) (transport_spawn config) = Some u"
    using assms(2,3) by (simp add: trun.run_snoc)
  show ?thesis
    by (rule phases_simulate [OF run_channels [OF assms(1,2)] run_ledger [OF assms(1,2)]
        run_channels [OF assms(1) run] run_ledger [OF assms(1) run]
        progresses_step [OF assms(1) run_channels [OF assms(1,2)] assms(3)]])
qed

theorem transport_refines_request_machine_witness:
  "\<exists>t u. transport_run sample_transport_env (take 4 sample_session) sample_transport = Some t \<and>
     transport_step sample_transport_env (Task (DriveCommand None)) t = Some u \<and>
     request_phase 0 t = Queued \<and> request_phase 0 u = InFlight (RpcNumber 1) ''thread/list'' \<and>
     phase_step\<^sup>*\<^sup>* (request_phase 0 t) (request_phase 0 u)"
proof -
  obtain t u where run: "transport_run sample_transport_env (take 4 sample_session) sample_transport = Some t"
      and step: "transport_step sample_transport_env (Task (DriveCommand None)) t = Some u"
      and ph: "request_phase 0 t = Queued" "request_phase 0 u = InFlight (RpcNumber 1) ''thread/list''"
    by (simp add: sample_eval request_phase_def)
  from transport_refines_request_machine [OF sample_env_drains run [unfolded sample_transport_def] step, of 0] run step ph
  show ?thesis by blast
qed

text \<open>C15. No request waits for ever on a transport that has stopped. Once the task has ended and
  the sends under way have failed, every channel ever given out is resolved exactly once, so
  every request that waits returns, with its answer or an error.\<close>

theorem ended_task_resolves_everything:
  assumes "drains_all env" and "transport_run env xs (transport_spawn config) = Some t"
    and "tr_task t = AtEnd" and "tr_sending t = []"
  shows "mset (map fst (tr_resolved t)) = mset [0..<tr_next_channel t] \<and>
    (k < tr_next_channel t \<longrightarrow> request_await elapsed meth k t \<noteq> None)"
proof -
  have "tr_commands t = []" using run_status(1) [OF assms(2)] assms(3) by (simp add: report_ok_def)
  with run_channels [OF assms(1,2)] assms(3,4)
  have m: "mset (map fst (tr_resolved t)) = mset [0..<tr_next_channel t]"
    by (simp add: channels_ok_def held_def List.map_filter_simps pending_channels_def)
  have "request_await elapsed meth k t \<noteq> None" if "k < tr_next_channel t"
  proof -
    have "k \<in> set (map fst (tr_resolved t))" using that mset_eq_setD [OF m] by simp
    then obtain r where "map_of (tr_resolved t) k = Some r" by (cases "map_of (tr_resolved t) k") (auto simp: map_of_eq_None_iff)
    then show ?thesis by (cases r) (simp_all add: request_await_def)
  qed
  with m show ?thesis by blast
qed

theorem ended_task_resolves_everything_witness:
  "\<exists>t. transport_run sample_transport_env (take 5 sample_session @
       [Handle (RequestBegin ''thread/list'' JNull False), Handle ShutdownBegin, Handle (SendCommand 1),
        Task (DriveCommand None), Handle (SendCommand 0)]) sample_transport = Some t \<and>
     tr_task t = AtEnd \<and> hl_phase (tr_health t) = Stopped \<and>
     request_await False ''thread/list'' 0 t =
       Some (Inl (WrittenOutcomeUnknown (RpcNumber 1) ''thread/list'' ''connection closed'')) \<and>
     request_await False ''thread/list'' 1 t \<noteq> None"
proof -
  obtain t where run: "transport_run sample_transport_env (take 5 sample_session @
       [Handle (RequestBegin ''thread/list'' JNull False), Handle ShutdownBegin, Handle (SendCommand 1),
        Task (DriveCommand None), Handle (SendCommand 0)]) sample_transport = Some t"
      and t: "tr_task t = AtEnd" "hl_phase (tr_health t) = Stopped" "tr_sending t = []" "tr_next_channel t = 3"
      "request_await False ''thread/list'' 0 t =
       Some (Inl (WrittenOutcomeUnknown (RpcNumber 1) ''thread/list'' ''connection closed''))"
    by (simp add: sample_eval request_await_def)
  from ended_task_resolves_everything [OF sample_env_drains run [unfolded sample_transport_def] t(1,3),
      of 1 False "''thread/list''"] run t show ?thesis by simp
qed

end
