(* ===== verification/Supervisor.thy ===== *)
theory Supervisor
  imports Interfaces "HOL-Library.Char_ord"
begin

text \<open>
  The supervisor of \<open>src/supervisor/src/lib.rs\<close>: it attaches to or starts the shared daemon,
  restarts the GUI so that it uses it, and watches both. The operations on processes
  (\<open>ProcessOps\<close>) and the time they take are an argument; the supervisor's own state is the
  log of the operations it made and the clock.
\<close>

section \<open>Text\<close>

text \<open>\<open>str::lines\<close>: split at line feeds, a carriage return before one goes, no empty last line.\<close>

fun split_on :: "char \<Rightarrow> string \<Rightarrow> string list" where
  "split_on c [] = [[]]"
| "split_on c (x # xs) =
     (if x = c then [] # split_on c xs
      else (case split_on c xs of l # ls \<Rightarrow> (x # l) # ls | [] \<Rightarrow> [[x]]))"

definition strip_cr :: "string \<Rightarrow> string" where
  "strip_cr l = (if l \<noteq> [] \<and> last l = CHR 0x0D then butlast l else l)"

definition lines :: "string \<Rightarrow> string list" where
  "lines s =
     (let ls = split_on CHR 0x0A s
      in map strip_cr (butlast ls) @ (if last ls = [] then [] else [last ls]))"

text \<open>The UTF-8 encodings of the characters with the Unicode property White\_Space.\<close>

definition white_space :: "string list" where
  "white_space =
     [[CHR 0x09], [CHR 0x0A], [CHR 0x0B], [CHR 0x0C], [CHR 0x0D], [CHR 0x20],
      [CHR 0xC2, CHR 0x85], [CHR 0xC2, CHR 0xA0], [CHR 0xE1, CHR 0x9A, CHR 0x80]] @
     map (\<lambda>c. [CHR 0xE2, CHR 0x80, c])
       [CHR 0x80, CHR 0x81, CHR 0x82, CHR 0x83, CHR 0x84, CHR 0x85, CHR 0x86, CHR 0x87, CHR 0x88, CHR 0x89,
        CHR 0x8A, CHR 0xA8, CHR 0xA9, CHR 0xAF] @
     [[CHR 0xE2, CHR 0x81, CHR 0x9F], [CHR 0xE3, CHR 0x80, CHR 0x80]]"

lemma white_space_nonempty: "w \<in> set white_space \<Longrightarrow> w \<noteq> []"
  by (auto simp: white_space_def)

text \<open>\<open>str::trim\<close>, from the left and from the right.\<close>

function strip_all :: "string list \<Rightarrow> string \<Rightarrow> string" where
  "strip_all ws s =
     (case find (\<lambda>w. w \<noteq> [] \<and> prefix w s) ws of
        None \<Rightarrow> s
      | Some w \<Rightarrow> strip_all ws (drop (length w) s))"
  by pat_completeness auto
termination
  by (relation "measure (\<lambda>(ws, s). length s)") (auto simp: find_Some_iff prefix_def)

declare strip_all.simps [simp del]

definition trim :: "string \<Rightarrow> string" where
  "trim s = rev (strip_all (map rev white_space) (rev (strip_all white_space s)))"

section \<open>Paths\<close>

text \<open>
  Paths are strings. \<open>Path\<close> sees a root or a leading \<open>.\<close>, then components between
  separators, of which the empty ones and further \<open>.\<close> do not count.
\<close>

definition path_prefix :: "string \<Rightarrow> string" where
  "path_prefix p =
     (if starts_with p ''/'' then ''/''
      else if p = ''.'' \<or> starts_with p ''./'' then ''.''
      else [])"

definition path_trim :: "string list \<Rightarrow> string list" where
  "path_trim segs = rev (dropWhile (\<lambda>s. s = [] \<or> s = ''.'') (rev segs))"

definition path_segments :: "string \<Rightarrow> string list" where
  "path_segments p = path_trim (split_on CHR ''/'' (drop (length (path_prefix p)) p))"

fun path_join_segments :: "string list \<Rightarrow> string" where
  "path_join_segments [] = []"
| "path_join_segments [s] = s"
| "path_join_segments (s # ss) = s @ ''/'' @ path_join_segments ss"

text \<open>\<open>Path::parent\<close>, \<open>Path::extension\<close> and the first of \<open>Path::ancestors\<close> that ends in .app.\<close>

definition path_parent :: "string \<Rightarrow> string option" where
  "path_parent p =
     (let segs = path_segments p
      in if segs = [] then (if path_prefix p = ''.'' then Some [] else None)
         else Some (path_prefix p @ path_join_segments (path_trim (butlast segs))))"

definition path_extension :: "string \<Rightarrow> string option" where
  "path_extension p =
     (let segs = path_segments p
      in if segs = [] \<or> last segs = ''..'' then None
         else (let name = last segs; parts = split_on CHR ''.'' name
               in if length parts \<le> 1 \<or> path_join_segments (butlast parts) = [] then None else Some (last parts)))"

fun path_ancestor_count :: "nat \<Rightarrow> string \<Rightarrow> string list" where
  "path_ancestor_count 0 p = [p]"
| "path_ancestor_count (Suc n) p =
     p # (case path_parent p of None \<Rightarrow> [] | Some q \<Rightarrow> path_ancestor_count n q)"

text \<open>
  Each parent has a component less, so as many steps as the path has components and one for the
  root reach the end.
\<close>

definition path_ancestors :: "string \<Rightarrow> string list" where
  "path_ancestors p = path_ancestor_count (Suc (length (path_segments p))) p"

definition application_bundle :: "string \<Rightarrow> string" where
  "application_bundle executable =
     unwrap_or (find (\<lambda>p. is_some_and (path_extension p) (\<lambda>e. e = ''app'')) (path_ancestors executable)) executable"

section \<open>Process listings\<close>

definition has_managed_daemon :: "string \<Rightarrow> string \<Rightarrow> bool" where
  "has_managed_daemon processes codex =
     list_ex (\<lambda>line. str_contains line codex \<and> str_contains line ''app-server'' \<and>
       (str_contains line ''daemon'' \<or> str_contains line ''--listen unix://'')) (lines processes)"

definition gui_running :: "string \<Rightarrow> string \<Rightarrow> bool" where
  "gui_running processes gui = list_ex (\<lambda>line. str_contains line gui) (lines processes)"

definition gui_mode_enabled :: "string \<Rightarrow> string \<Rightarrow> bool" where
  "gui_mode_enabled processes gui =
     list_ex (\<lambda>line. str_contains line gui \<and> str_contains line ''CODEX_APP_SERVER_USE_LOCAL_DAEMON=1'' \<and>
       \<not> str_contains line ''CODEX_APP_SERVER_FORCE_CLI=1'' \<and> \<not> str_contains line ''CODEX_CLI_PATH='') (lines processes)"

definition has_accepted_socket_connection :: "string \<Rightarrow> bool" where
  "has_accepted_socket_connection users \<longleftrightarrow>
     1 < length (filter (\<lambda>line. trim line \<noteq> [] \<and> \<not> starts_with (trim line) ''COMMAND'') (lines users))"

section \<open>Configuration and results\<close>

record supervisor_config =
  sc_standalone_codex :: string
  sc_socket_path :: string
  sc_gui_executable :: string
  sc_restart_gui_on_initialize :: bool
  sc_startup_timeout :: duration
  sc_graceful_quit_timeout :: duration
  sc_monitor_interval :: duration

definition supervisor_config_default :: "string option \<Rightarrow> supervisor_config" where
  "supervisor_config_default home_var =
     (let home = unwrap_or home_var ''/var/empty''
      in \<lparr> sc_standalone_codex = path_join home ''.codex/packages/standalone/current/codex'',
           sc_socket_path = path_join home ''.codex/app-server-control/app-server-control.sock'',
           sc_gui_executable = ''/Applications/ChatGPT.app/Contents/MacOS/ChatGPT'',
           sc_restart_gui_on_initialize = True,
           sc_startup_timeout = from_secs 10,
           sc_graceful_quit_timeout = from_secs 8,
           sc_monitor_interval = from_secs 5 \<rparr>)"

datatype daemon_ownership = OwnAttached | OwnStarted

record supervision_state =
  ss_daemon_ownership :: daemon_ownership
  ss_daemon_version :: string
  ss_gui_attached :: bool
  ss_daemon_left_running :: bool

datatype monitor_event =
    Healthy
  | DaemonRestarted
  | GuiRestarted
  | Incompatible string
  | EvUserActionRequired string

datatype supervisor_error =
    MissingStandalone string
  | MissingGui string
  | DaemonCommand string
  | IncompatibleVersion string
  | AttachmentUnverified string
  | UserActionRequired string
  | Inspection string

record command_output =
  co_success :: bool
  co_stdout :: string
  co_stderr :: string

section \<open>Operations on processes\<close>

datatype proc_call =
    CallExists string
  | CallPs
  | CallSocketUsers string
  | CallOutput string "string list"
  | CallSpawn string "string list" "(string \<times> string) list"
  | CallQuit
  | CallSleep duration

text \<open>
  \<open>ProcessOps\<close> and the clock: each operation is answered as a function of all calls made so
  far, its own included, and takes some time; a sleep lasts at least as long as asked.
\<close>

record process_ops =
  po_exists :: "proc_call list \<Rightarrow> bool"
  po_ps :: "proc_call list \<Rightarrow> string + string"
  po_socket_users :: "proc_call list \<Rightarrow> string + string"
  po_output :: "proc_call list \<Rightarrow> string + command_output"
  po_spawn :: "proc_call list \<Rightarrow> string + unit"
  po_quit :: "proc_call list \<Rightarrow> string + unit"
  po_elapsed :: "proc_call list \<Rightarrow> duration"

record supervisor =
  sv_config :: supervisor_config
  sv_calls :: "proc_call list"
  sv_now :: duration

definition supervisor_new :: "supervisor_config \<Rightarrow> duration \<Rightarrow> supervisor" where
  "supervisor_new config now = \<lparr> sv_config = config, sv_calls = [], sv_now = now \<rparr>"

fun slept :: "proc_call \<Rightarrow> duration" where
  "slept (CallSleep d) = d"
| "slept _ = 0"

definition call :: "process_ops \<Rightarrow> proc_call \<Rightarrow> supervisor \<Rightarrow> supervisor" where
  "call ops c s =
     (let calls = sv_calls s @ [c]
      in s\<lparr>sv_calls := calls, sv_now := sv_now s + slept c + po_elapsed ops calls\<rparr>)"

definition path_exists :: "process_ops \<Rightarrow> string \<Rightarrow> supervisor \<Rightarrow> bool \<times> supervisor" where
  "path_exists ops p s = (let s1 = call ops (CallExists p) s in (po_exists ops (sv_calls s1), s1))"

definition ps_environment :: "process_ops \<Rightarrow> supervisor \<Rightarrow> (string + string) \<times> supervisor" where
  "ps_environment ops s = (let s1 = call ops CallPs s in (po_ps ops (sv_calls s1), s1))"

definition socket_users :: "process_ops \<Rightarrow> string \<Rightarrow> supervisor \<Rightarrow> (string + string) \<times> supervisor" where
  "socket_users ops p s = (let s1 = call ops (CallSocketUsers p) s in (po_socket_users ops (sv_calls s1), s1))"

definition run_output :: "process_ops \<Rightarrow> string \<Rightarrow> string list \<Rightarrow> supervisor \<Rightarrow> (string + command_output) \<times> supervisor" where
  "run_output ops program args s = (let s1 = call ops (CallOutput program args) s in (po_output ops (sv_calls s1), s1))"

definition spawn :: "process_ops \<Rightarrow> string \<Rightarrow> string list \<Rightarrow> (string \<times> string) list \<Rightarrow> supervisor \<Rightarrow>
    (string + unit) \<times> supervisor" where
  "spawn ops program args env s =
     (let s1 = call ops (CallSpawn program args env) s in (po_spawn ops (sv_calls s1), s1))"

definition graceful_quit_chatgpt :: "process_ops \<Rightarrow> supervisor \<Rightarrow> (string + unit) \<times> supervisor" where
  "graceful_quit_chatgpt ops s = (let s1 = call ops CallQuit s in (po_quit ops (sv_calls s1), s1))"

definition sleep_100ms :: "process_ops \<Rightarrow> supervisor \<Rightarrow> supervisor" where
  "sleep_100ms ops s = call ops (CallSleep (from_millis 100)) s"

section \<open>Supervision\<close>

definition launch_gui :: "process_ops \<Rightarrow> supervisor \<Rightarrow> (string + unit) \<times> supervisor" where
  "launch_gui ops s =
     spawn ops ''/usr/bin/open''
       [''--env'', ''CODEX_APP_SERVER_USE_LOCAL_DAEMON=1'', ''--env'', ''CODEX_APP_SERVER_FORCE_CLI=0'',
        ''-a'', application_bundle (sc_gui_executable (sv_config s))] [] s"

definition start_daemon :: "process_ops \<Rightarrow> supervisor \<Rightarrow> (string + unit) \<times> supervisor" where
  "start_daemon ops s = spawn ops (sc_standalone_codex (sv_config s)) [''app-server'', ''daemon'', ''start''] [] s"

definition gui_attached :: "process_ops \<Rightarrow> string \<Rightarrow> supervisor \<Rightarrow> bool \<times> supervisor" where
  "gui_attached ops processes s =
     (if \<not> gui_mode_enabled processes (sc_gui_executable (sv_config s)) then (False, s)
      else (let (users, s1) = socket_users ops (sc_socket_path (sv_config s)) s
            in (case users of Inl _ \<Rightarrow> False | Inr u \<Rightarrow> has_accepted_socket_connection u, s1)))"

text \<open>
  The three waits. A loop turn ends in a sleep of 100 ms, so the clock reaches the deadline: the
  time left is the measure.
\<close>

lemma sv_now_call [simp]: "sv_now (call ops c s) = sv_now s + slept c + po_elapsed ops (sv_calls s @ [c])"
  by (simp add: call_def Let_def)

lemma sv_calls_call [simp]: "sv_calls (call ops c s) = sv_calls s @ [c]"
  by (simp add: call_def Let_def)

lemma sv_config_call [simp]: "sv_config (call ops c s) = sv_config s"
  by (simp add: call_def Let_def)

function version_loop :: "process_ops \<Rightarrow> duration \<Rightarrow> string \<Rightarrow> supervisor \<Rightarrow> (supervisor_error + string) \<times> supervisor" where
  "version_loop ops deadline detail s =
     (if sv_now s < deadline then
        (let (r, s1) = run_output ops (sc_standalone_codex (sv_config s)) [''app-server'', ''daemon'', ''version''] s
         in case r of
              Inr out \<Rightarrow>
                if co_success out \<and> co_stdout out \<noteq> [] then (Inr (co_stdout out), s1)
                else version_loop ops deadline (if co_stderr out = [] then co_stdout out else co_stderr out)
                  (sleep_100ms ops s1)
            | Inl err \<Rightarrow> version_loop ops deadline err (sleep_100ms ops s1))
      else (Inl (IncompatibleVersion detail), s))"
  by pat_completeness auto
termination
  by (relation "measure (\<lambda>(ops, deadline, detail, s). deadline - sv_now s)")
    (auto simp: run_output_def sleep_100ms_def Let_def)

definition wait_for_daemon_version :: "process_ops \<Rightarrow> supervisor \<Rightarrow> (supervisor_error + string) \<times> supervisor" where
  "wait_for_daemon_version ops s = version_loop ops (sv_now s + sc_startup_timeout (sv_config s)) [] s"

text \<open>The sleeping comes first here; the last listing seen decides.\<close>

function quit_loop :: "process_ops \<Rightarrow> duration \<Rightarrow> string \<Rightarrow> supervisor \<Rightarrow> (supervisor_error + string) \<times> supervisor" where
  "quit_loop ops deadline processes s =
     (if sv_now s < deadline then
        (let (r, s1) = ps_environment ops (sleep_100ms ops s)
         in case r of
              Inl err \<Rightarrow> (Inl (Inspection err), s1)
            | Inr ps \<Rightarrow>
                if \<not> gui_running ps (sc_gui_executable (sv_config s)) then (Inr ps, s1)
                else quit_loop ops deadline ps s1)
      else (Inr processes, s))"
  by pat_completeness auto
termination
  by (relation "measure (\<lambda>(ops, deadline, processes, s). deadline - sv_now s)")
    (auto simp: ps_environment_def sleep_100ms_def Let_def)

lemma gui_attached_frames:
  assumes "gui_attached ops ps s = (a, s')"
  shows "sv_config s' = sv_config s" and "sv_now s \<le> sv_now s'"
  using assms by (auto simp: gui_attached_def socket_users_def Let_def split: if_splits)

function attachment_loop :: "process_ops \<Rightarrow> duration \<Rightarrow> supervisor \<Rightarrow> (supervisor_error + unit) \<times> supervisor" where
  "attachment_loop ops deadline s =
     (if sv_now s < deadline then
        (let (r, s1) = ps_environment ops s
         in case r of
              Inl err \<Rightarrow> (Inl (Inspection err), s1)
            | Inr ps \<Rightarrow>
                (let (attached, s2) = gui_attached ops ps s1
                 in if attached then (Inr (), s2) else attachment_loop ops deadline (sleep_100ms ops s2)))
      else (Inl (AttachmentUnverified ''ChatGPT did not establish an accepted connection to the managed daemon within the startup timeout''), s))"
  by pat_completeness auto
termination
  by (relation "measure (\<lambda>(ops, deadline, s). deadline - sv_now s)")
    (auto simp: ps_environment_def sleep_100ms_def Let_def dest!: gui_attached_frames(2) [OF sym])

declare version_loop.simps [simp del] quit_loop.simps [simp del] attachment_loop.simps [simp del]

definition wait_for_gui_attachment :: "process_ops \<Rightarrow> supervisor \<Rightarrow> (supervisor_error + unit) \<times> supervisor" where
  "wait_for_gui_attachment ops s = attachment_loop ops (sv_now s + sc_startup_timeout (sv_config s)) s"

text \<open>The graceful quit, when a GUI is listed; it is never killed.\<close>

definition quit_gui :: "process_ops \<Rightarrow> string \<Rightarrow> supervisor \<Rightarrow> (supervisor_error + unit) \<times> supervisor" where
  "quit_gui ops processes s =
     (let gui = sc_gui_executable (sv_config s)
      in if \<not> gui_running processes gui then (Inr (), s)
         else (let (q, s1) = graceful_quit_chatgpt ops s
               in case q of
                    Inl err \<Rightarrow> (Inl (UserActionRequired err), s1)
                  | Inr _ \<Rightarrow>
                      (let (r, s2) = quit_loop ops (sv_now s1 + sc_graceful_quit_timeout (sv_config s1)) processes s1
                       in case r of
                            Inl err \<Rightarrow> (Inl err, s2)
                          | Inr ps \<Rightarrow>
                              if gui_running ps gui
                              then (Inl (UserActionRequired ''ChatGPT ignored graceful quit; quit it manually. It was not force-killed.''), s2)
                              else (Inr (), s2))))"

definition restart_gui :: "process_ops \<Rightarrow> string \<Rightarrow> supervisor \<Rightarrow> (supervisor_error + unit) \<times> supervisor" where
  "restart_gui ops processes s =
     (let (q, s1) = quit_gui ops processes s
      in case q of
           Inl err \<Rightarrow> (Inl err, s1)
         | Inr _ \<Rightarrow>
             (let (l, s2) = launch_gui ops s1
              in case l of
                   Inl err \<Rightarrow> (Inl (UserActionRequired err), s2)
                 | Inr _ \<Rightarrow> wait_for_gui_attachment ops s2))"

definition needs_restart :: "process_ops \<Rightarrow> string \<Rightarrow> supervisor \<Rightarrow> bool \<times> supervisor" where
  "needs_restart ops processes s =
     (if sc_restart_gui_on_initialize (sv_config s) then (True, s)
      else (let (attached, s1) = gui_attached ops processes s in (\<not> attached, s1)))"

definition ensure_daemon :: "process_ops \<Rightarrow> supervisor \<Rightarrow> (supervisor_error + daemon_ownership) \<times> supervisor" where
  "ensure_daemon ops s =
     (let (p, s1) = ps_environment ops s
      in case p of
           Inl err \<Rightarrow> (Inl (Inspection err), s1)
         | Inr processes \<Rightarrow>
             if has_managed_daemon processes (sc_standalone_codex (sv_config s)) then (Inr OwnAttached, s1)
             else (let (d, s2) = start_daemon ops s1
                   in case d of Inl err \<Rightarrow> (Inl (DaemonCommand err), s2) | Inr _ \<Rightarrow> (Inr OwnStarted, s2)))"

definition initialize_with :: "process_ops \<Rightarrow> daemon_ownership \<Rightarrow> string \<Rightarrow> supervisor \<Rightarrow>
    (supervisor_error + supervision_state) \<times> supervisor" where
  "initialize_with ops ownership version s =
     (let done = Inr \<lparr> ss_daemon_ownership = ownership, ss_daemon_version = version, ss_gui_attached = True,
            ss_daemon_left_running = True \<rparr>;
          (p, s1) = ps_environment ops s
      in case p of
           Inl err \<Rightarrow> (Inl (Inspection err), s1)
         | Inr processes \<Rightarrow>
             (let (restart, s2) = needs_restart ops processes s1
              in if \<not> restart then (done, s2)
                 else (let (r, s3) = restart_gui ops processes s2
                       in case r of Inl err \<Rightarrow> (Inl err, s3) | Inr _ \<Rightarrow> (done, s3))))"

definition supervisor_initialize :: "process_ops \<Rightarrow> supervisor \<Rightarrow> (supervisor_error + supervision_state) \<times> supervisor" where
  "supervisor_initialize ops s =
     (let (codex, s1) = path_exists ops (sc_standalone_codex (sv_config s)) s
      in if \<not> codex then (Inl (MissingStandalone (sc_standalone_codex (sv_config s))), s1)
         else (let (gui, s2) = path_exists ops (sc_gui_executable (sv_config s)) s1
               in if \<not> gui then (Inl (MissingGui (sc_gui_executable (sv_config s))), s2)
                  else (let (d, s3) = ensure_daemon ops s2
                        in case d of
                             Inl err \<Rightarrow> (Inl err, s3)
                           | Inr ownership \<Rightarrow>
                               (let (v, s4) = wait_for_daemon_version ops s3
                                in case v of
                                     Inl err \<Rightarrow> (Inl err, s4)
                                   | Inr version \<Rightarrow> initialize_with ops ownership version s4))))"

section \<open>Monitoring\<close>

definition check_gui :: "process_ops \<Rightarrow> string \<Rightarrow> supervisor \<Rightarrow> monitor_event \<times> supervisor" where
  "check_gui ops processes s =
     (let (attached, s1) = gui_attached ops processes s
      in if attached then (Healthy, s1)
         else if \<not> gui_running processes (sc_gui_executable (sv_config s)) then
           (let (l, s2) = launch_gui ops s1
            in (case l of Inr _ \<Rightarrow> GuiRestarted | Inl err \<Rightarrow> EvUserActionRequired err, s2))
         else (EvUserActionRequired ''ChatGPT is not attached to the shared daemon'', s1))"

definition check :: "process_ops \<Rightarrow> supervisor \<Rightarrow> monitor_event \<times> supervisor" where
  "check ops s =
     (let (p, s1) = ps_environment ops s
      in case p of
           Inl _ \<Rightarrow> (EvUserActionRequired ''cannot inspect processes'', s1)
         | Inr processes \<Rightarrow>
             if \<not> has_managed_daemon processes (sc_standalone_codex (sv_config s)) then
               (let (d, s2) = start_daemon ops s1
                in (case d of Inr _ \<Rightarrow> DaemonRestarted | Inl err \<Rightarrow> EvUserActionRequired err, s2))
             else
               (let (v, s2) = run_output ops (sc_standalone_codex (sv_config s)) [''app-server'', ''daemon'', ''version''] s1
                in case v of
                     Inl err \<Rightarrow> (Incompatible err, s2)
                   | Inr out \<Rightarrow>
                       if \<not> co_success out then (Incompatible (co_stderr out), s2)
                       else check_gui ops processes s2))"

text \<open>
  The monitor task. The shutdown signal is looked at first; a change that does not stop the task
  drops the sleep or the check under way, after some of its operations, and starts over.
\<close>

datatype monitor_input = MonitorShutdown "bool option" nat | MonitorChecked

record monitor =
  mo_supervisor :: supervisor
  mo_events :: "monitor_event list"
  mo_running :: bool

definition monitor_start :: "supervisor \<Rightarrow> monitor" where
  "monitor_start s = \<lparr> mo_supervisor = s, mo_events = [], mo_running = True \<rparr>"

definition interrupted_check :: "process_ops \<Rightarrow> nat \<Rightarrow> supervisor \<Rightarrow> supervisor" where
  "interrupted_check ops n s =
     (let slept = call ops (CallSleep (sc_monitor_interval (sv_config s))) s;
          made = drop (length (sv_calls s)) (sv_calls (snd (check ops slept)))
      in fold (call ops) (take n made) s)"

definition monitor_step :: "process_ops \<Rightarrow> monitor_input \<Rightarrow> monitor \<Rightarrow> monitor option" where
  "monitor_step ops x m =
     (if \<not> mo_running m then None
      else case x of
        MonitorShutdown value n \<Rightarrow>
          (let m1 = m\<lparr>mo_supervisor := interrupted_check ops n (mo_supervisor m)\<rparr>
           in Some (if value = None \<or> value = Some True then m1\<lparr>mo_running := False\<rparr> else m1))
      | MonitorChecked \<Rightarrow>
          (let (e, s) = check ops (call ops (CallSleep (sc_monitor_interval (sv_config (mo_supervisor m)))) (mo_supervisor m))
           in Some (m\<lparr>mo_supervisor := s, mo_events := mo_events m @ [e]\<rparr>)))"

fun monitor_run :: "process_ops \<Rightarrow> monitor_input list \<Rightarrow> monitor \<Rightarrow> monitor option" where
  "monitor_run ops [] m = Some m"
| "monitor_run ops (x # xs) m = Option.bind (monitor_step ops x m) (monitor_run ops xs)"

definition shutdown_state :: "supervision_state \<Rightarrow> supervision_state" where
  "shutdown_state st = st\<lparr>ss_daemon_left_running := True\<rparr>"

fun supervisor_error_text :: "supervisor_error \<Rightarrow> string" where
  "supervisor_error_text (MissingStandalone p) =
     ''standalone Codex is missing at '' @ p @ ''; install it with the official standalone installer''"
| "supervisor_error_text (MissingGui p) = ''ChatGPT executable is missing at '' @ p"
| "supervisor_error_text (DaemonCommand e) = ''daemon command failed: '' @ e"
| "supervisor_error_text (IncompatibleVersion e) = ''daemon version is incompatible or unavailable: '' @ e"
| "supervisor_error_text (AttachmentUnverified e) =
     ''ChatGPT did not attach to the shared daemon; check the installed GUI/Codex compatibility: '' @ e"
| "supervisor_error_text (UserActionRequired e) = ''user action required: '' @ e"
| "supervisor_error_text (Inspection e) = ''process inspection failed: '' @ e"

end
