(* ===== verification/Supervision.thy ===== *)
theory Supervision
  imports Supervisor
begin

text \<open>
  What the supervisor does to the machine: the calls of an initialization and of a check, the
  evidence each result rests on, and what the monitor may have done after any number of checks.
\<close>

section \<open>What a run does\<close>

fun is_effect :: "proc_call \<Rightarrow> bool" where
  "is_effect (CallSpawn _ _ _) = True"
| "is_effect CallQuit = True"
| "is_effect _ = False"

abbreviation effects :: "proc_call list \<Rightarrow> proc_call list" where
  "effects \<equiv> filter is_effect"

text \<open>From one state to another by making these calls.\<close>

definition ran :: "supervisor \<Rightarrow> proc_call list \<Rightarrow> supervisor \<Rightarrow> bool" where
  "ran s cs s' \<longleftrightarrow> sv_calls s' = sv_calls s @ cs \<and> sv_config s' = sv_config s \<and> sv_now s \<le> sv_now s'"

lemma ran_refl [simp]: "ran s [] s"
  by (simp add: ran_def)

lemma ran_trans: "ran s cs t \<Longrightarrow> ran t ds u \<Longrightarrow> ran s (cs @ ds) u"
  by (simp add: ran_def)

lemma ran_call: "ran s [c] (call ops c s)"
  by (simp add: ran_def)

lemmas proc_op_defs = path_exists_def ps_environment_def socket_users_def run_output_def spawn_def
  graceful_quit_chatgpt_def sleep_100ms_def Let_def

lemma ran_ops:
  "path_exists ops p s = (b, t) \<Longrightarrow> ran s [CallExists p] t \<and> b = po_exists ops (sv_calls t)"
  "ps_environment ops s = (r, t) \<Longrightarrow> ran s [CallPs] t \<and> r = po_ps ops (sv_calls t)"
  "socket_users ops p s = (r, t) \<Longrightarrow> ran s [CallSocketUsers p] t \<and> r = po_socket_users ops (sv_calls t)"
  "run_output ops p a s = (v, t) \<Longrightarrow> ran s [CallOutput p a] t \<and> v = po_output ops (sv_calls t)"
  "spawn ops p a e s = (w, t) \<Longrightarrow> ran s [CallSpawn p a e] t \<and> w = po_spawn ops (sv_calls t)"
  "graceful_quit_chatgpt ops s = (w, t) \<Longrightarrow> ran s [CallQuit] t \<and> w = po_quit ops (sv_calls t)"
  "ran s [CallSleep (from_millis 100)] (sleep_100ms ops s)"
  by (auto simp: proc_op_defs intro: ran_call)

lemma sleep_later: "sv_now (sleep_100ms ops s) \<ge> sv_now s + from_millis 100"
  by (simp add: sleep_100ms_def)

text \<open>The turns a loop can take in the time that is left.\<close>

definition turns :: "duration \<Rightarrow> nat" where
  "turns left = (left + (from_millis 100 - 1)) div from_millis 100"

lemma turns_less:
  assumes "now < deadline" and "now + from_millis 100 \<le> later"
  shows "Suc (turns (deadline - later)) \<le> turns (deadline - now)"
proof -
  let ?T = "from_millis 100 :: nat"
  have "turns (deadline - later) = (deadline - later + (?T - 1)) div ?T" by (simp add: turns_def)
  also have "Suc \<dots> = (deadline - later + (?T - 1) + ?T) div ?T" by simp
  also have "\<dots> \<le> (deadline - now + (?T - 1)) div ?T \<or> deadline - later = 0"
    using assms by (cases "later \<le> deadline") (auto intro: div_le_mono)
  finally show ?thesis
  proof
    assume z: "deadline - later = 0"
    have "?T \<le> deadline - now + (?T - 1)" using assms(1) by simp
    then have "1 \<le> turns (deadline - now)" unfolding turns_def using div_le_mono [of ?T _ ?T] by simp
    moreover have "turns 0 = 0" by (simp add: turns_def)
    ultimately show ?thesis using z by simp
  qed (simp add: turns_def)
qed

text \<open>The evidence of an attached GUI among the calls from a point on.\<close>

definition saw_attached :: "process_ops \<Rightarrow> supervisor_config \<Rightarrow> nat \<Rightarrow> proc_call list \<Rightarrow> bool" where
  "saw_attached ops cfg from calls \<longleftrightarrow>
     (\<exists>pre1 ps pre2 users. from \<le> length pre1 \<and> prefix (pre1 @ [CallPs]) pre2 \<and>
        po_ps ops (pre1 @ [CallPs]) = Inr ps \<and> gui_mode_enabled ps (sc_gui_executable cfg) \<and>
        prefix (pre2 @ [CallSocketUsers (sc_socket_path cfg)]) calls \<and>
        po_socket_users ops (pre2 @ [CallSocketUsers (sc_socket_path cfg)]) = Inr users \<and>
        has_accepted_socket_connection users)"

lemma saw_attached_more: "saw_attached ops cfg n calls \<Longrightarrow> prefix calls calls' \<Longrightarrow> m \<le> n \<Longrightarrow> saw_attached ops cfg m calls'"
  unfolding saw_attached_def by (meson order_trans prefix_order.trans)

lemma gui_attached_spec:
  assumes "gui_attached ops ps s = (a, s')"
  shows "\<exists>cs. ran s cs s' \<and> effects cs = [] \<and> length cs \<le> 1"
    and "a \<Longrightarrow> prefix (pre @ [CallPs]) (sv_calls s) \<Longrightarrow> po_ps ops (pre @ [CallPs]) = Inr ps \<Longrightarrow>
      saw_attached ops (sv_config s) (length pre) (sv_calls s')"
proof -
  let ?sock = "sc_socket_path (sv_config s)"
  have "(\<not> a \<and> s' = s) \<or> (gui_mode_enabled ps (sc_gui_executable (sv_config s)) \<and> ran s [CallSocketUsers ?sock] s' \<and>
      (a \<longrightarrow> (\<exists>u. po_socket_users ops (sv_calls s @ [CallSocketUsers ?sock]) = Inr u \<and> has_accepted_socket_connection u)))"
    using assms ran_call [of s "CallSocketUsers ?sock" ops]
    by (auto simp: gui_attached_def socket_users_def Let_def split: if_splits sum.splits)
  then show "\<exists>cs. ran s cs s' \<and> effects cs = [] \<and> length cs \<le> 1"
    and "a \<Longrightarrow> prefix (pre @ [CallPs]) (sv_calls s) \<Longrightarrow> po_ps ops (pre @ [CallPs]) = Inr ps \<Longrightarrow>
      saw_attached ops (sv_config s) (length pre) (sv_calls s')"
    unfolding saw_attached_def by (force simp: ran_def)+
qed

lemma version_loop_spec:
  "version_loop ops deadline detail s = (r, s') \<Longrightarrow>
     \<exists>cs. ran s cs s' \<and> effects cs = [] \<and> length cs \<le> 2 * turns (deadline - sv_now s) \<and>
       (\<forall>v. r = Inr v \<longrightarrow> v \<noteq> [] \<and> (\<exists>out. po_output ops (sv_calls s') = Inr out \<and> co_success out \<and> co_stdout out = v))"
proof (induction ops deadline detail s arbitrary: r s' rule: version_loop.induct)
  case (1 ops deadline detail s)
  show ?case
  proof (cases "sv_now s < deadline")
    case False
    with "1.prems" show ?thesis by (auto simp: version_loop.simps [of ops deadline detail s] intro!: exI [of _ "[]"])
  next
    case True
    let ?codex = "sc_standalone_codex (sv_config s)" and ?args = "[''app-server'', ''daemon'', ''version'']"
    obtain v s1 where o: "run_output ops ?codex ?args s = (v, s1)" by fastforce
    note r1 = ran_ops(4) [OF o]
    let ?s2 = "sleep_100ms ops s1"
    have r2: "ran s [CallOutput ?codex ?args, CallSleep (from_millis 100)] ?s2"
      using ran_trans [OF conjunct1 [OF r1] ran_ops(7) [of s1 ops]] by simp
    have less: "Suc (turns (deadline - sv_now ?s2)) \<le> turns (deadline - sv_now s)"
      using r1 sleep_later [of s1 ops] by (intro turns_less [OF True]) (simp add: ran_def)
    have more: ?thesis if a: "version_loop ops deadline d ?s2 = (r, s')" and
      ih: "\<And>r s'. version_loop ops deadline d ?s2 = (r, s') \<Longrightarrow>
        \<exists>cs. ran ?s2 cs s' \<and> effects cs = [] \<and> length cs \<le> 2 * turns (deadline - sv_now ?s2) \<and>
          (\<forall>v. r = Inr v \<longrightarrow> v \<noteq> [] \<and> (\<exists>out. po_output ops (sv_calls s') = Inr out \<and> co_success out \<and> co_stdout out = v))" for d
    proof -
      obtain cs where "ran ?s2 cs s'" "effects cs = []" "length cs \<le> 2 * turns (deadline - sv_now ?s2)"
        "\<forall>v. r = Inr v \<longrightarrow> v \<noteq> [] \<and> (\<exists>out. po_output ops (sv_calls s') = Inr out \<and> co_success out \<and> co_stdout out = v)"
        using ih [OF a] by blast
      with ran_trans [OF r2] less show ?thesis
        by (intro exI [of _ "[CallOutput ?codex ?args, CallSleep (from_millis 100)] @ cs"]) auto
    qed
    show ?thesis
    proof (cases v)
      case (Inl e)
      with "1.prems" True o have "version_loop ops deadline e ?s2 = (r, s')"
        by (simp add: version_loop.simps [of ops deadline detail s])
      from more [OF this "1.IH"(1) [OF True refl o [symmetric] Inl]] show ?thesis .
    next
      case (Inr out)
      show ?thesis
      proof (cases "co_success out \<and> co_stdout out \<noteq> []")
        case ok: True
        with "1.prems" True o Inr have "r = Inr (co_stdout out)" "s' = s1"
          by (simp_all add: version_loop.simps [of ops deadline detail s])
        moreover have "1 \<le> turns (deadline - sv_now s)" using less by simp
        moreover have "po_output ops (sv_calls s1) = Inr out" using r1 Inr by simp
        ultimately show ?thesis using r1 ok
          by (intro exI [of _ "[CallOutput ?codex ?args]"]) auto
      next
        case no: False
        with "1.prems" True o Inr
        have "version_loop ops deadline (if co_stderr out = [] then co_stdout out else co_stderr out) ?s2 = (r, s')"
          by (simp add: version_loop.simps [of ops deadline detail s])
        from more [OF this "1.IH"(2) [OF True refl o [symmetric] Inr no]] show ?thesis .
      qed
    qed
  qed
qed

lemma quit_loop_spec:
  "quit_loop ops deadline processes s = (r, s') \<Longrightarrow>
     \<exists>cs. ran s cs s' \<and> effects cs = [] \<and> length cs \<le> 2 * turns (deadline - sv_now s)"
proof (induction ops deadline processes s arbitrary: r s' rule: quit_loop.induct)
  case (1 ops deadline processes s)
  show ?case
  proof (cases "sv_now s < deadline")
    case False
    with "1.prems" show ?thesis by (auto simp: quit_loop.simps [of ops deadline processes s] intro!: exI [of _ "[]"])
  next
    case True
    obtain p s1 where o: "ps_environment ops (sleep_100ms ops s) = (p, s1)" by fastforce
    have r1: "ran s [CallSleep (from_millis 100), CallPs] s1"
      using ran_trans [OF ran_ops(7) [of s ops] conjunct1 [OF ran_ops(2) [OF o]]] by simp
    have "sv_now s + from_millis 100 \<le> sv_now s1"
      using sleep_later [of s ops] ran_ops(2) [OF o] by (simp add: ran_def)
    from turns_less [OF True this] have less: "Suc (turns (deadline - sv_now s1)) \<le> turns (deadline - sv_now s)" .
    have stop: ?thesis if "s' = s1"
      using r1 less that by (intro exI [of _ "[CallSleep (from_millis 100), CallPs]"]) simp
    show ?thesis
    proof (cases p)
      case (Inl e)
      with "1.prems" True o stop show ?thesis by (simp add: quit_loop.simps [of ops deadline processes s])
    next
      case (Inr ps)
      show ?thesis
      proof (cases "gui_running ps (sc_gui_executable (sv_config s))")
        case False
        with "1.prems" True o Inr stop show ?thesis by (simp add: quit_loop.simps [of ops deadline processes s])
      next
        case run: True
        with "1.prems" True o Inr have "quit_loop ops deadline ps s1 = (r, s')"
          by (simp add: quit_loop.simps [of ops deadline processes s])
        from "1.IH" [OF True refl o [symmetric] Inr _ this] run obtain cs where
          "ran s1 cs s'" "effects cs = []" "length cs \<le> 2 * turns (deadline - sv_now s1)" by auto
        with ran_trans [OF r1] less show ?thesis
          by (intro exI [of _ "[CallSleep (from_millis 100), CallPs] @ cs"]) auto
      qed
    qed
  qed
qed

lemma attachment_loop_spec:
  "attachment_loop ops deadline s = (r, s') \<Longrightarrow>
     \<exists>cs. ran s cs s' \<and> effects cs = [] \<and> length cs \<le> 3 * turns (deadline - sv_now s) \<and>
       (r = Inr () \<longrightarrow> saw_attached ops (sv_config s) (length (sv_calls s)) (sv_calls s'))"
proof (induction ops deadline s arbitrary: r s' rule: attachment_loop.induct)
  case (1 ops deadline s)
  show ?case
  proof (cases "sv_now s < deadline")
    case False
    with "1.prems" show ?thesis by (auto simp: attachment_loop.simps [of ops deadline s] intro!: exI [of _ "[]"])
  next
    case True
    obtain p s1 where o: "ps_environment ops s = (p, s1)" by fastforce
    note r1 = ran_ops(2) [OF o]
    obtain a s2 where g: "gui_attached ops ps s1 = (a, s2)" if "p = Inr ps" for ps by (cases p) fastforce+
    show ?thesis
    proof (cases p)
      case (Inl e)
      have "1 \<le> turns (deadline - sv_now s)"
        using turns_less [OF True, of "sv_now s + from_millis 100"] by simp
      with "1.prems" True o Inl r1 show ?thesis
        by (intro exI [of _ "[CallPs]"]) (auto simp: attachment_loop.simps [of ops deadline s])
    next
      case (Inr ps)
      note g = g [OF Inr]
      obtain ds where ds: "ran s1 ds s2" "effects ds = []" "length ds \<le> 1" using gui_attached_spec(1) [OF g] by blast
      have r2: "ran s (CallPs # ds) s2" using ran_trans [OF conjunct1 [OF r1] ds(1)] by simp
      show ?thesis
      proof (cases a)
        case a: True
        have "saw_attached ops (sv_config s1) (length (sv_calls s)) (sv_calls s2)"
          using gui_attached_spec(2) [OF g a, of "sv_calls s"] r1 Inr by (simp add: ran_def)
        moreover have "1 \<le> turns (deadline - sv_now s)"
          using turns_less [OF True, of "sv_now s + from_millis 100"] by simp
        moreover have "r = Inr ()" "s' = s2" using "1.prems" True o Inr g a
          by (simp_all add: attachment_loop.simps [of ops deadline s])
        ultimately show ?thesis using r2 ds r1 by (intro exI [of _ "CallPs # ds"]) (auto simp: ran_def)
      next
        case no: False
        let ?s3 = "sleep_100ms ops s2"
        have r3: "ran s (CallPs # ds @ [CallSleep (from_millis 100)]) ?s3" using ran_trans [OF r2 ran_ops(7)] by simp
        have "sv_now s + from_millis 100 \<le> sv_now ?s3" using sleep_later [of s2 ops] r2 by (simp add: ran_def)
        from turns_less [OF True this] have less: "Suc (turns (deadline - sv_now ?s3)) \<le> turns (deadline - sv_now s)" .
        from "1.prems" True o Inr g no have "attachment_loop ops deadline ?s3 = (r, s')"
          by (simp add: attachment_loop.simps [of ops deadline s])
        from "1.IH" [OF True refl o [symmetric] Inr refl g [symmetric] no this] obtain cs where cs:
          "ran ?s3 cs s'" "effects cs = []" "length cs \<le> 3 * turns (deadline - sv_now ?s3)"
          "r = Inr () \<longrightarrow> saw_attached ops (sv_config ?s3) (length (sv_calls ?s3)) (sv_calls s')" by blast
        have "r = Inr () \<longrightarrow> saw_attached ops (sv_config s) (length (sv_calls s)) (sv_calls s')"
          using cs(4) r3 saw_attached_more [OF _ prefix_order.refl, of ops "sv_config s" "length (sv_calls ?s3)" "sv_calls s'"]
          by (simp add: ran_def)
        with cs ran_trans [OF r3 cs(1)] less ds show ?thesis
          by (intro exI [of _ "(CallPs # ds @ [CallSleep (from_millis 100)]) @ cs"]) auto
      qed
    qed
  qed
qed

section \<open>The effects of an initialization\<close>

abbreviation daemon_start_call :: "supervisor_config \<Rightarrow> proc_call" where
  "daemon_start_call cfg \<equiv> CallSpawn (sc_standalone_codex cfg) [''app-server'', ''daemon'', ''start''] []"

abbreviation gui_open_call :: "supervisor_config \<Rightarrow> proc_call" where
  "gui_open_call cfg \<equiv> CallSpawn ''/usr/bin/open''
     [''--env'', ''CODEX_APP_SERVER_USE_LOCAL_DAEMON=1'', ''--env'', ''CODEX_APP_SERVER_FORCE_CLI=0'',
      ''-a'', application_bundle (sc_gui_executable cfg)] []"

lemma ran_launch:
  "launch_gui ops s = (w, t) \<Longrightarrow> ran s [gui_open_call (sv_config s)] t"
  "start_daemon ops s = (w, t) \<Longrightarrow> ran s [daemon_start_call (sv_config s)] t"
  using ran_ops(5) by (auto simp: launch_gui_def start_daemon_def)

lemma ensure_daemon_spec:
  assumes "ensure_daemon ops s = (r, s')"
  shows "\<exists>cs. ran s cs s' \<and> length cs \<le> 2 \<and>
    effects cs = (case po_ps ops (sv_calls s @ [CallPs]) of
        Inl _ \<Rightarrow> []
      | Inr ps \<Rightarrow> if has_managed_daemon ps (sc_standalone_codex (sv_config s)) then []
          else [daemon_start_call (sv_config s)]) \<and>
    (\<forall>own. r = Inr own \<longrightarrow> (own = OwnStarted \<longleftrightarrow> effects cs \<noteq> []))"
proof -
  obtain p s1 where o: "ps_environment ops s = (p, s1)" by fastforce
  have r1: "ran s [CallPs] s1" and p: "po_ps ops (sv_calls s @ [CallPs]) = p"
    using ran_ops(2) [OF o] by (simp_all add: ran_def)
  show ?thesis
  proof (cases "\<exists>ps. p = Inr ps \<and> \<not> has_managed_daemon ps (sc_standalone_codex (sv_config s))")
    case True
    obtain w s2 where d: "start_daemon ops s1 = (w, s2)" by fastforce
    have r2: "ran s [CallPs, daemon_start_call (sv_config s)] s2"
      using ran_trans [OF r1 ran_launch(2) [OF d]] r1 by (simp add: ran_def)
    with True assms o d p show ?thesis
      by (intro exI [of _ "[CallPs, daemon_start_call (sv_config s)]"])
        (auto simp: ensure_daemon_def split: sum.splits)
  next
    case False
    with assms o p r1 show ?thesis
      by (intro exI [of _ "[CallPs]"]) (auto simp: ensure_daemon_def split: sum.splits if_splits)
  qed
qed

lemma quit_gui_spec:
  assumes "quit_gui ops processes s = (r, s')"
  shows "\<exists>cs. ran s cs s' \<and> length cs \<le> 1 + 2 * turns (sc_graceful_quit_timeout (sv_config s)) \<and>
    effects cs = (if gui_running processes (sc_gui_executable (sv_config s)) then [CallQuit] else [])"
proof (cases "gui_running processes (sc_gui_executable (sv_config s))")
  case False
  with assms show ?thesis by (intro exI [of _ "[]"]) (simp add: quit_gui_def)
next
  case True
  obtain q s1 where q: "graceful_quit_chatgpt ops s = (q, s1)" by fastforce
  have r1: "ran s [CallQuit] s1" and c: "sv_config s1 = sv_config s" using ran_ops(6) [OF q] by (simp_all add: ran_def)
  show ?thesis
  proof (cases q)
    case (Inl e)
    with assms True q r1 show ?thesis by (intro exI [of _ "[CallQuit]"]) (simp add: quit_gui_def)
  next
    case (Inr u)
    let ?deadline = "sv_now s1 + sc_graceful_quit_timeout (sv_config s1)"
    obtain l s2 where l: "quit_loop ops ?deadline processes s1 = (l, s2)" by fastforce
    from quit_loop_spec [OF l] obtain cs where cs: "ran s1 cs s2" "effects cs = []"
      "length cs \<le> 2 * turns (sc_graceful_quit_timeout (sv_config s))" by (auto simp: c)
    have "s' = s2" using assms True q Inr l by (auto simp: quit_gui_def Let_def split: sum.splits if_splits)
    with ran_trans [OF r1 cs(1)] cs True show ?thesis by (intro exI [of _ "CallQuit # cs"]) simp
  qed
qed

lemma restart_gui_spec:
  assumes "restart_gui ops processes s = (r, s')"
  shows "\<exists>cs q l. ran s cs s' \<and> effects cs = q @ l \<and>
    q \<in> {[], [CallQuit]} \<and> (q \<noteq> [] \<longrightarrow> gui_running processes (sc_gui_executable (sv_config s))) \<and>
    l \<in> {[], [gui_open_call (sv_config s)]} \<and>
    length cs \<le> 2 + 2 * turns (sc_graceful_quit_timeout (sv_config s)) + 3 * turns (sc_startup_timeout (sv_config s)) \<and>
    (r = Inr () \<longrightarrow> l \<noteq> [] \<and> saw_attached ops (sv_config s) (length (sv_calls s)) (sv_calls s'))"
proof -
  obtain q s1 where q: "quit_gui ops processes s = (q, s1)" by fastforce
  from quit_gui_spec [OF this] obtain cs where cs: "ran s cs s1"
    "length cs \<le> 1 + 2 * turns (sc_graceful_quit_timeout (sv_config s))"
    "effects cs = (if gui_running processes (sc_gui_executable (sv_config s)) then [CallQuit] else [])" by blast
  have c1: "sv_config s1 = sv_config s" "length (sv_calls s) \<le> length (sv_calls s1)" using cs(1) by (simp_all add: ran_def)
  show ?thesis
  proof (cases q)
    case (Inl e)
    with assms q cs show ?thesis
      by (intro exI [of _ cs] exI [of _ "effects cs"] exI [of _ "[]"]) (auto simp: restart_gui_def)
  next
    case (Inr u)
    obtain w s2 where w: "launch_gui ops s1 = (w, s2)" by fastforce
    have r2: "ran s (cs @ [gui_open_call (sv_config s)]) s2"
      using ran_trans [OF cs(1) ran_launch(1) [OF w]] c1 by simp
    then have c2: "sv_config s2 = sv_config s" "length (sv_calls s) \<le> length (sv_calls s2)" by (simp_all add: ran_def)
    show ?thesis
    proof (cases w)
      case (Inl e)
      with assms q Inr w r2 cs(2,3) show ?thesis
        by (intro exI [of _ "cs @ [gui_open_call (sv_config s)]"] exI [of _ "effects cs"] exI [of _ "[gui_open_call (sv_config s)]"])
          (auto simp: restart_gui_def)
    next
      case w': (Inr v)
      let ?deadline = "sv_now s2 + sc_startup_timeout (sv_config s2)"
      have "attachment_loop ops ?deadline s2 = (r, s')"
        using assms q Inr w w' by (simp add: restart_gui_def wait_for_gui_attachment_def)
      from attachment_loop_spec [OF this] obtain ds where ds: "ran s2 ds s'" "effects ds = []"
        "length ds \<le> 3 * turns (sc_startup_timeout (sv_config s))"
        "r = Inr () \<longrightarrow> saw_attached ops (sv_config s) (length (sv_calls s2)) (sv_calls s')" by (auto simp: c2)
      have "r = Inr () \<longrightarrow> saw_attached ops (sv_config s) (length (sv_calls s)) (sv_calls s')"
        using ds(4) saw_attached_more [OF _ prefix_order.refl c2(2)] by blast
      with ran_trans [OF r2 ds(1)] cs(2,3) ds(2,3) show ?thesis
        by (intro exI [of _ "(cs @ [gui_open_call (sv_config s)]) @ ds"] exI [of _ "effects cs"] exI [of _ "[gui_open_call (sv_config s)]"])
          auto
    qed
  qed
qed

text \<open>A listing that showed the GUI running.\<close>

definition saw_gui :: "process_ops \<Rightarrow> supervisor_config \<Rightarrow> proc_call list \<Rightarrow> bool" where
  "saw_gui ops cfg calls \<longleftrightarrow>
     (\<exists>pre ps. prefix (pre @ [CallPs]) calls \<and> po_ps ops (pre @ [CallPs]) = Inr ps \<and> gui_running ps (sc_gui_executable cfg))"

lemma needs_restart_spec:
  assumes "needs_restart ops processes s = (b, s')" and "prefix (pre @ [CallPs]) (sv_calls s)"
    and "po_ps ops (pre @ [CallPs]) = Inr processes"
  shows "\<exists>cs. ran s cs s' \<and> effects cs = [] \<and> length cs \<le> 1 \<and>
    (sc_restart_gui_on_initialize (sv_config s) \<longrightarrow> b) \<and>
    (\<not> b \<longrightarrow> saw_attached ops (sv_config s) (length pre) (sv_calls s'))"
proof (cases "sc_restart_gui_on_initialize (sv_config s)")
  case True
  with assms(1) show ?thesis by (intro exI [of _ "[]"]) (simp add: needs_restart_def)
next
  case False
  obtain a s1 where g: "gui_attached ops processes s = (a, s1)" by fastforce
  with assms(1) False have "b = (\<not> a)" "s' = s1" by (simp_all add: needs_restart_def)
  with gui_attached_spec(1) [OF g] gui_attached_spec(2) [OF g _ assms(2,3)] False show ?thesis by auto
qed

lemma initialize_with_spec:
  assumes "initialize_with ops own version s = (r, s')"
  shows "\<exists>cs q l. ran s cs s' \<and> effects cs = q @ l \<and> q \<in> {[], [CallQuit]} \<and> l \<in> {[], [gui_open_call (sv_config s)]} \<and>
    (q \<noteq> [] \<longrightarrow> saw_gui ops (sv_config s) (sv_calls s')) \<and>
    length cs \<le> 4 + 2 * turns (sc_graceful_quit_timeout (sv_config s)) + 3 * turns (sc_startup_timeout (sv_config s)) \<and>
    (\<forall>st. r = Inr st \<longrightarrow> st = \<lparr> ss_daemon_ownership = own, ss_daemon_version = version, ss_gui_attached = True,
        ss_daemon_left_running = True \<rparr> \<and>
      (sc_restart_gui_on_initialize (sv_config s) \<longrightarrow> l \<noteq> []) \<and>
      saw_attached ops (sv_config s) (length (sv_calls s)) (sv_calls s'))"
proof -
  obtain p s1 where o: "ps_environment ops s = (p, s1)" by fastforce
  have r1: "ran s [CallPs] s1" and p: "po_ps ops (sv_calls s @ [CallPs]) = p" and c1: "sv_config s1 = sv_config s"
    "sv_calls s1 = sv_calls s @ [CallPs]" using ran_ops(2) [OF o] by (simp_all add: ran_def)
  show ?thesis
  proof (cases p)
    case (Inl e)
    with assms o r1 show ?thesis
      by (intro exI [of _ "[CallPs]"] exI [of _ "[]"]) (auto simp: initialize_with_def Let_def)
  next
    case (Inr ps)
    obtain b s2 where n: "needs_restart ops ps s1 = (b, s2)" by fastforce
    from needs_restart_spec [OF n, of "sv_calls s"] c1 p Inr obtain ds where ds: "ran s1 ds s2" "effects ds = []"
      "length ds \<le> 1" "sc_restart_gui_on_initialize (sv_config s) \<longrightarrow> b"
      "\<not> b \<longrightarrow> saw_attached ops (sv_config s) (length (sv_calls s)) (sv_calls s2)" by auto
    have r2: "ran s (CallPs # ds) s2" using ran_trans [OF r1 ds(1)] by simp
    then have c2: "sv_config s2 = sv_config s" "length (sv_calls s) \<le> length (sv_calls s2)" by (simp_all add: ran_def)
    show ?thesis
    proof (cases b)
      case False
      with assms o Inr n have "r = Inr \<lparr> ss_daemon_ownership = own, ss_daemon_version = version,
          ss_gui_attached = True, ss_daemon_left_running = True \<rparr>" "s' = s2"
        by (auto simp: initialize_with_def Let_def)
      with r2 ds False show ?thesis by (intro exI [of _ "CallPs # ds"] exI [of _ "[]"]) auto
    next
      case True
      obtain q s3 where g: "restart_gui ops ps s2 = (q, s3)" by fastforce
      have s': "s' = s3" and r: "r = (case q of Inl e \<Rightarrow> Inl e | Inr _ \<Rightarrow> Inr \<lparr> ss_daemon_ownership = own,
          ss_daemon_version = version, ss_gui_attached = True, ss_daemon_left_running = True \<rparr>)"
        using assms o Inr n True g by (auto simp: initialize_with_def Let_def split: sum.splits)
      from restart_gui_spec [OF g] obtain cs qc l where cs: "ran s2 cs s3" "effects cs = qc @ l"
        "qc \<in> {[], [CallQuit]}" "l \<in> {[], [gui_open_call (sv_config s)]}"
        "qc \<noteq> [] \<longrightarrow> gui_running ps (sc_gui_executable (sv_config s))"
        "length cs \<le> 2 + 2 * turns (sc_graceful_quit_timeout (sv_config s)) + 3 * turns (sc_startup_timeout (sv_config s))"
        "q = Inr () \<longrightarrow> l \<noteq> [] \<and> saw_attached ops (sv_config s) (length (sv_calls s2)) (sv_calls s3)"
        unfolding c2 by blast
      have "q = Inr () \<longrightarrow> saw_attached ops (sv_config s) (length (sv_calls s)) (sv_calls s3)"
        using cs(7) saw_attached_more [OF _ prefix_order.refl c2(2)] by blast
      moreover have "qc \<noteq> [] \<longrightarrow> saw_gui ops (sv_config s) (sv_calls s')"
        using cs(5) p Inr ran_trans [OF r2 cs(1)] s' by (auto simp: saw_gui_def ran_def intro!: exI [of _ "sv_calls s"])
      ultimately show ?thesis using ran_trans [OF r2 cs(1)] cs ds(2,3) s' r
        by (intro exI [of _ "(CallPs # ds) @ cs"] exI [of _ qc] exI [of _ l]) (auto split: sum.splits)
    qed
  qed
qed

definition initialize_bound :: "supervisor_config \<Rightarrow> nat" where
  "initialize_bound cfg = 8 + 2 * turns (sc_graceful_quit_timeout cfg) + 5 * turns (sc_startup_timeout cfg)"

definition daemon_version_seen :: "process_ops \<Rightarrow> proc_call list \<Rightarrow> string \<Rightarrow> bool" where
  "daemon_version_seen ops calls v \<longleftrightarrow>
     v \<noteq> [] \<and> (\<exists>pre out. prefix pre calls \<and> po_output ops pre = Inr out \<and> co_success out \<and> co_stdout out = v)"

lemma initialize_spec:
  assumes "supervisor_initialize ops s = (r, s')"
  shows "\<exists>cs d q l. ran s cs s' \<and> effects cs = d @ q @ l \<and>
    d \<in> {[], [daemon_start_call (sv_config s)]} \<and> q \<in> {[], [CallQuit]} \<and> l \<in> {[], [gui_open_call (sv_config s)]} \<and>
    length cs \<le> initialize_bound (sv_config s) \<and> (q \<noteq> [] \<longrightarrow> saw_gui ops (sv_config s) (sv_calls s')) \<and>
    (\<forall>st. r = Inr st \<longrightarrow> (ss_daemon_ownership st = OwnStarted \<longleftrightarrow> d \<noteq> []) \<and>
      daemon_version_seen ops (sv_calls s') (ss_daemon_version st) \<and>
      (sc_restart_gui_on_initialize (sv_config s) \<longrightarrow> l \<noteq> []) \<and>
      saw_attached ops (sv_config s) (length (sv_calls s)) (sv_calls s'))"
proof -
  let ?cfg = "sv_config s"
  obtain b1 s1 where e1: "path_exists ops (sc_standalone_codex ?cfg) s = (b1, s1)" by fastforce
  obtain b2 s2 where e2: "path_exists ops (sc_gui_executable ?cfg) s1 = (b2, s2)" by fastforce
  have r1: "ran s [CallExists (sc_standalone_codex ?cfg)] s1" using ran_ops(1) [OF e1] by simp
  have r2: "ran s [CallExists (sc_standalone_codex ?cfg), CallExists (sc_gui_executable ?cfg)] s2"
    using ran_trans [OF r1 conjunct1 [OF ran_ops(1) [OF e2]]] by simp
  obtain dr s3 where e3: "ensure_daemon ops s2 = (dr, s3)" by fastforce
  have c2: "sv_config s2 = ?cfg" using r2 by (simp add: ran_def)
  from ensure_daemon_spec [OF e3] obtain ds where ds: "ran s2 ds s3" "length ds \<le> 2"
    "effects ds \<in> {[], [daemon_start_call ?cfg]}" "\<forall>own. dr = Inr own \<longrightarrow> (own = OwnStarted \<longleftrightarrow> effects ds \<noteq> [])"
    unfolding c2 by (auto split: sum.splits if_splits)
  let ?ex = "[CallExists (sc_standalone_codex ?cfg), CallExists (sc_gui_executable ?cfg)]"
  have r3: "ran s (?ex @ ds) s3" by (rule ran_trans [OF r2 ds(1)])
  then have c3: "sv_config s3 = ?cfg" by (simp add: ran_def)
  obtain v s4 where e4: "wait_for_daemon_version ops s3 = (v, s4)" by fastforce
  from version_loop_spec [OF e4 [unfolded wait_for_daemon_version_def]] obtain vs where vs: "ran s3 vs s4" "effects vs = []"
    "length vs \<le> 2 * turns (sc_startup_timeout ?cfg)"
    "\<forall>w. v = Inr w \<longrightarrow> w \<noteq> [] \<and> (\<exists>out. po_output ops (sv_calls s4) = Inr out \<and> co_success out \<and> co_stdout out = w)"
    unfolding c3 by auto
  have r4: "ran s ((?ex @ ds) @ vs) s4" by (rule ran_trans [OF r3 vs(1)])
  then have c4: "sv_config s4 = ?cfg" "length (sv_calls s) \<le> length (sv_calls s4)" by (simp_all add: ran_def)
  note start = assms [unfolded supervisor_initialize_def, unfolded e1 e2 Let_def prod.case]
  consider "r = Inl (MissingStandalone (sc_standalone_codex ?cfg))" "s' = s1" | "r = Inl (MissingGui (sc_gui_executable ?cfg))" "s' = s2"
    | e where "r = Inl e" "s' = s3" | e where "r = Inl e" "s' = s4"
    | own version where "dr = Inr own" "v = Inr version" "initialize_with ops own version s4 = (r, s')"
    using start e3 e4 by (auto split: if_splits sum.splits)
  then show ?thesis
  proof cases
    case 1
    with r1 show ?thesis
      by (intro exI [of _ "[CallExists (sc_standalone_codex ?cfg)]"] exI [of _ "[]"]) (simp add: initialize_bound_def)
  next
    case 2
    with r2 show ?thesis by (intro exI [of _ ?ex] exI [of _ "[]"]) (simp add: initialize_bound_def)
  next
    case 3
    show ?thesis
      by (rule exI [of _ "?ex @ ds"], rule exI [of _ "effects ds"], intro exI [of _ "[]"])
        (use 3 r3 ds(2,3) in \<open>auto simp: initialize_bound_def\<close>)
  next
    case 4
    show ?thesis
      by (rule exI [of _ "(?ex @ ds) @ vs"], rule exI [of _ "effects ds"], intro exI [of _ "[]"])
        (use 4 r4 ds(2,3) vs(2,3) in \<open>auto simp: initialize_bound_def\<close>)
  next
    case 5
    from initialize_with_spec [OF 5(3)] obtain cs q l where cs: "ran s4 cs s'" "effects cs = q @ l" "q \<in> {[], [CallQuit]}"
      "l \<in> {[], [gui_open_call ?cfg]}" "q \<noteq> [] \<longrightarrow> saw_gui ops ?cfg (sv_calls s')"
      "length cs \<le> 4 + 2 * turns (sc_graceful_quit_timeout ?cfg) + 3 * turns (sc_startup_timeout ?cfg)"
      "\<forall>st. r = Inr st \<longrightarrow> st = \<lparr> ss_daemon_ownership = own, ss_daemon_version = version, ss_gui_attached = True,
        ss_daemon_left_running = True \<rparr> \<and> (sc_restart_gui_on_initialize ?cfg \<longrightarrow> l \<noteq> []) \<and>
        saw_attached ops ?cfg (length (sv_calls s4)) (sv_calls s')"
      unfolding c4 by blast
    have "prefix (sv_calls s4) (sv_calls s')" using cs(1) by (simp add: ran_def)
    then have seen: "daemon_version_seen ops (sv_calls s') version"
      using vs(4) 5(2) unfolding daemon_version_seen_def by blast
    have att: "saw_attached ops ?cfg (length (sv_calls s)) (sv_calls s')" if "r = Inr st" for st
    proof -
      have "saw_attached ops ?cfg (length (sv_calls s4)) (sv_calls s')" using cs(7) that by blast
      from saw_attached_more [OF this prefix_order.refl c4(2)] show ?thesis .
    qed
    let ?cs = "((?ex @ ds) @ vs) @ cs"
    have eff: "effects ?cs = effects ds @ q @ l" using vs(2) cs(2) by simp
    have len: "length ?cs \<le> initialize_bound ?cfg" using ds(2) vs(3) cs(6) by (simp add: initialize_bound_def)
    have ok: "(ss_daemon_ownership st = OwnStarted \<longleftrightarrow> effects ds \<noteq> []) \<and>
      daemon_version_seen ops (sv_calls s') (ss_daemon_version st) \<and>
      (sc_restart_gui_on_initialize ?cfg \<longrightarrow> l \<noteq> []) \<and>
      saw_attached ops ?cfg (length (sv_calls s)) (sv_calls s')" if st: "r = Inr st" for st
    proof -
      have "st = \<lparr> ss_daemon_ownership = own, ss_daemon_version = version, ss_gui_attached = True,
        ss_daemon_left_running = True \<rparr>" "sc_restart_gui_on_initialize ?cfg \<longrightarrow> l \<noteq> []" using cs(7) st by blast+
      moreover have "own = OwnStarted \<longleftrightarrow> effects ds \<noteq> []" using ds(4) 5(1) by blast
      ultimately show ?thesis using att [OF st] seen by simp
    qed
    show ?thesis
      by (rule exI [of _ ?cs], rule exI [of _ "effects ds"], rule exI [of _ q], rule exI [of _ l], intro conjI allI impI)
        (fact ran_trans [OF r4 cs(1)] eff ds(3) cs(3) cs(4) len cs(5) [rule_format] | use ok in blast)+
  qed
qed

section \<open>Initialization\<close>

text \<open>A machine with a GUI running and no daemon, on which everything goes well.\<close>

definition sample_supervisor_config :: supervisor_config where
  "sample_supervisor_config =
     \<lparr> sc_standalone_codex = ''/c'', sc_socket_path = ''/s'', sc_gui_executable = ''/A.app/G'',
       sc_restart_gui_on_initialize = True, sc_startup_timeout = from_secs 1,
       sc_graceful_quit_timeout = from_secs 1, sc_monitor_interval = from_secs 5 \<rparr>"

abbreviation sample_listing :: "proc_call list \<Rightarrow> string" where
  "sample_listing calls \<equiv>
     (if gui_open_call sample_supervisor_config \<in> set calls then ''/A.app/G CODEX_APP_SERVER_USE_LOCAL_DAEMON=1''
      else if CallQuit \<in> set calls then [] else ''/A.app/G'')"

definition sample_process_ops :: process_ops where
  "sample_process_ops =
     \<lparr> po_exists = \<lambda>_. True, po_ps = \<lambda>calls. Inr (sample_listing calls),
       po_socket_users = \<lambda>_. Inr [CHR ''x'', CHR 0x0A, CHR ''y''],
       po_output = \<lambda>_. Inr \<lparr> co_success = True, co_stdout = ''1'', co_stderr = [] \<rparr>,
       po_spawn = \<lambda>_. Inr (), po_quit = \<lambda>_. Inr (), po_elapsed = \<lambda>_. 1 \<rparr>"

lemma sample_bundle: "application_bundle ''/A.app/G'' = ''/A.app''"
  by code_simp

lemma sample_checks:
  "has_managed_daemon ''/A.app/G'' ''/c'' = False" "gui_running ''/A.app/G'' ''/A.app/G''" "gui_running [] ''/A.app/G'' = False"
  "gui_mode_enabled ''/A.app/G CODEX_APP_SERVER_USE_LOCAL_DAEMON=1'' ''/A.app/G''"
  "has_accepted_socket_connection [CHR ''x'', CHR 0x0A, CHR ''y'']"
  by code_simp+

lemmas supervise_eval = sample_supervisor_config_def sample_process_ops_def sample_bundle sample_checks
  supervisor_new_def proc_op_defs call_def

definition sample_supervision :: "(supervisor_error + supervision_state) \<times> supervisor" where
  "sample_supervision = supervisor_initialize sample_process_ops (supervisor_new sample_supervisor_config 0)"

lemma sample_supervision_eval:
  "fst sample_supervision = Inr \<lparr> ss_daemon_ownership = OwnStarted, ss_daemon_version = ''1'', ss_gui_attached = True,
     ss_daemon_left_running = True \<rparr>"
  "effects (sv_calls (snd sample_supervision)) =
     [daemon_start_call sample_supervisor_config, CallQuit, gui_open_call sample_supervisor_config]"
  by (simp_all add: sample_supervision_def supervise_eval supervisor_initialize_def ensure_daemon_def start_daemon_def
    wait_for_daemon_version_def version_loop.simps initialize_with_def needs_restart_def restart_gui_def quit_gui_def
    quit_loop.simps launch_gui_def wait_for_gui_attachment_def attachment_loop.simps gui_attached_def)

text \<open>C29. However it ends, an initialization starts the daemon at most once, then asks the GUI to
  quit at most once, and only after a process listing that shows it, then opens the GUI at most
  once; it runs nothing else but queries and sleeps, never kills a process, and makes a bounded
  number of calls whatever the processes answer.\<close>

theorem initialize_acts_at_most_once:
  assumes "supervisor_initialize ops (supervisor_new cfg now) = (r, s)"
  shows "\<exists>d q l. effects (sv_calls s) = d @ q @ l \<and> d \<in> {[], [daemon_start_call cfg]} \<and> q \<in> {[], [CallQuit]} \<and>
    l \<in> {[], [gui_open_call cfg]} \<and> (q \<noteq> [] \<longrightarrow> saw_gui ops cfg (sv_calls s)) \<and>
    length (sv_calls s) \<le> initialize_bound cfg"
proof -
  from initialize_spec [OF assms] obtain cs d q l where "ran (supervisor_new cfg now) cs s" "effects cs = d @ q @ l"
    "d \<in> {[], [daemon_start_call cfg]}" "q \<in> {[], [CallQuit]}" "l \<in> {[], [gui_open_call cfg]}"
    "length cs \<le> initialize_bound cfg" "q \<noteq> [] \<longrightarrow> saw_gui ops cfg (sv_calls s)"
    unfolding supervisor_new_def supervisor.simps by blast
  then show ?thesis by (intro exI [of _ d] exI [of _ q] exI [of _ l]) (simp add: ran_def supervisor_new_def)
qed

theorem initialize_acts_at_most_once_witness:
  "\<exists>d q l. [daemon_start_call sample_supervisor_config, CallQuit, gui_open_call sample_supervisor_config] = d @ q @ l \<and>
    d \<in> {[], [daemon_start_call sample_supervisor_config]} \<and> q \<in> {[], [CallQuit]} \<and>
    l \<in> {[], [gui_open_call sample_supervisor_config]} \<and>
    (q \<noteq> [] \<longrightarrow> saw_gui sample_process_ops sample_supervisor_config (sv_calls (snd sample_supervision))) \<and>
    length (sv_calls (snd sample_supervision)) \<le> initialize_bound sample_supervisor_config"
  using initialize_acts_at_most_once [of sample_process_ops sample_supervisor_config 0 "fst sample_supervision"
    "snd sample_supervision"] unfolding sample_supervision_eval(2)
  by (simp add: sample_supervision_def)

text \<open>C30. An initialization that succeeds rests on evidence: the ownership it reports says whether it
  started the daemon, the version is a non-empty answer of a successful version command, the GUI
  was opened anew when the configuration asks for it, and a listing showed the GUI in daemon mode
  followed by a socket listing with an accepted connection.\<close>

theorem initialize_success_has_evidence:
  assumes "supervisor_initialize ops (supervisor_new cfg now) = (Inr st, s)"
  shows "(ss_daemon_ownership st = OwnStarted \<longleftrightarrow> daemon_start_call cfg \<in> set (sv_calls s)) \<and>
    daemon_version_seen ops (sv_calls s) (ss_daemon_version st) \<and>
    (sc_restart_gui_on_initialize cfg \<longrightarrow> gui_open_call cfg \<in> set (sv_calls s)) \<and>
    saw_attached ops cfg 0 (sv_calls s)"
proof -
  from initialize_spec [OF assms] obtain cs d q l where cs: "ran (supervisor_new cfg now) cs s" "effects cs = d @ q @ l"
    "d \<in> {[], [daemon_start_call cfg]}" "q \<in> {[], [CallQuit]}" "l \<in> {[], [gui_open_call cfg]}"
    and ok: "ss_daemon_ownership st = OwnStarted \<longleftrightarrow> d \<noteq> []" "daemon_version_seen ops (sv_calls s) (ss_daemon_version st)"
    "sc_restart_gui_on_initialize cfg \<longrightarrow> l \<noteq> []" "saw_attached ops cfg 0 (sv_calls s)"
    unfolding supervisor_new_def supervisor.simps list.size by blast
  have c: "c \<in> set (sv_calls s) \<longleftrightarrow> c \<in> set (d @ q @ l)" if "is_effect c" for c
    using cs(1) that by (auto simp: ran_def supervisor_new_def cs(2) [symmetric])
  have "[''app-server'', ''daemon'', ''start''] \<noteq> ''--env'' # as" for as :: "string list" by simp
  then have "daemon_start_call cfg \<in> set (sv_calls s) \<longleftrightarrow> d \<noteq> []" using c [of "daemon_start_call cfg"] cs(3-5) by auto
  moreover have "l \<noteq> [] \<longrightarrow> gui_open_call cfg \<in> set (sv_calls s)" using c [of "gui_open_call cfg"] cs(5) by auto
  ultimately show ?thesis using ok by blast
qed

theorem initialize_success_has_evidence_witness:
  "daemon_version_seen sample_process_ops (sv_calls (snd sample_supervision)) ''1'' \<and>
   saw_attached sample_process_ops sample_supervisor_config 0 (sv_calls (snd sample_supervision))"
  using initialize_success_has_evidence [of sample_process_ops sample_supervisor_config 0 _ "snd sample_supervision"]
    sample_supervision_eval(1)
  by (metis (no_types, lifting) prod.collapse sample_supervision_def supervision_state.select_convs(2))

section \<open>Monitoring\<close>

text \<open>What a check saw in the process listing it began with.\<close>

definition listed :: "process_ops \<Rightarrow> proc_call list \<Rightarrow> (string \<Rightarrow> bool) \<Rightarrow> bool" where
  "listed ops calls P \<longleftrightarrow> (case po_ps ops (calls @ [CallPs]) of Inl _ \<Rightarrow> False | Inr ps \<Rightarrow> P ps)"

definition version_answered :: "process_ops \<Rightarrow> supervisor_config \<Rightarrow> proc_call list \<Rightarrow> bool" where
  "version_answered ops cfg calls \<longleftrightarrow>
     (\<exists>out. po_output ops (calls @ [CallPs, CallOutput (sc_standalone_codex cfg) [''app-server'', ''daemon'', ''version'']]) =
        Inr out \<and> co_success out)"

lemma check_gui_spec:
  assumes "check_gui ops ps s = (e, s')" and "prefix (pre @ [CallPs]) (sv_calls s)" and "po_ps ops (pre @ [CallPs]) = Inr ps"
  shows "\<exists>cs. ran s cs s' \<and> length cs \<le> 2 \<and> CallQuit \<notin> set cs \<and>
    (effects cs = [] \<and> e = Healthy \<and> saw_attached ops (sv_config s) (length pre) (sv_calls s') \<or>
     effects cs = [gui_open_call (sv_config s)] \<and> \<not> gui_running ps (sc_gui_executable (sv_config s)) \<and>
       (e = GuiRestarted \<or> (\<exists>t. e = EvUserActionRequired t)) \<or>
     effects cs = [] \<and> (\<exists>t. e = EvUserActionRequired t))"
proof -
  obtain a s1 where g: "gui_attached ops ps s = (a, s1)" by fastforce
  from gui_attached_spec(1) [OF this] obtain ds where ds: "ran s ds s1" "effects ds = []" "length ds \<le> 1" by blast
  then have q: "CallQuit \<notin> set ds" by (metis filter_empty_conv is_effect.simps(2))
  have c1: "sv_config s1 = sv_config s" using ds(1) by (simp add: ran_def)
  show ?thesis
  proof (cases a)
    case True
    with assms(1) g have "e = Healthy" "s' = s1" by (simp_all add: check_gui_def)
    with gui_attached_spec(2) [OF g True assms(2,3)] ds q show ?thesis by auto
  next
    case no: False
    show ?thesis
    proof (cases "gui_running ps (sc_gui_executable (sv_config s))")
      case True
      with assms(1) g no ds q show ?thesis by (auto simp: check_gui_def)
    next
      case False
      obtain l s2 where l: "launch_gui ops s1 = (l, s2)" by fastforce
      have "ran s (ds @ [gui_open_call (sv_config s)]) s2" using ran_trans [OF ds(1) ran_launch(1) [OF l]] by (simp add: c1)
      moreover have "s' = s2" "e = GuiRestarted \<or> (\<exists>t. e = EvUserActionRequired t)"
        using assms(1) g no False l by (auto simp: check_gui_def split: sum.splits)
      ultimately show ?thesis using ds(2,3) q False
        by (intro exI [of _ "ds @ [gui_open_call (sv_config s)]"]) auto
    qed
  qed
qed

text \<open>What each event of a check stands for.\<close>

definition event_ok :: "process_ops \<Rightarrow> supervisor_config \<Rightarrow> proc_call list \<Rightarrow> proc_call list \<Rightarrow> monitor_event \<Rightarrow> bool" where
  "event_ok ops cfg calls cs e =
     (case e of
        Healthy \<Rightarrow> effects cs = [] \<and> listed ops calls (\<lambda>ps. has_managed_daemon ps (sc_standalone_codex cfg)) \<and>
          version_answered ops cfg calls \<and> saw_attached ops cfg (length calls) (calls @ cs)
      | DaemonRestarted \<Rightarrow> effects cs = [daemon_start_call cfg] \<and>
          listed ops calls (\<lambda>ps. \<not> has_managed_daemon ps (sc_standalone_codex cfg))
      | GuiRestarted \<Rightarrow> effects cs = [gui_open_call cfg] \<and>
          listed ops calls (\<lambda>ps. has_managed_daemon ps (sc_standalone_codex cfg) \<and> \<not> gui_running ps (sc_gui_executable cfg)) \<and>
          version_answered ops cfg calls
      | Incompatible _ \<Rightarrow> effects cs = [] \<and> \<not> version_answered ops cfg calls
      | EvUserActionRequired _ \<Rightarrow> effects cs \<in> {[], [daemon_start_call cfg], [gui_open_call cfg]})"

lemma check_spec:
  assumes "check ops s = (e, s')"
  shows "\<exists>cs. ran s cs s' \<and> length cs \<le> 4 \<and> CallQuit \<notin> set cs \<and> length (effects cs) \<le> 1 \<and>
    event_ok ops (sv_config s) (sv_calls s) cs e"
proof -
  let ?cfg = "sv_config s" and ?calls = "sv_calls s"
  obtain p s1 where o: "ps_environment ops s = (p, s1)" by fastforce
  have r1: "ran s [CallPs] s1" and p: "po_ps ops (?calls @ [CallPs]) = p" using ran_ops(2) [OF o] by (simp_all add: ran_def)
  then have c1: "sv_config s1 = ?cfg" "sv_calls s1 = ?calls @ [CallPs]" by (simp_all add: ran_def)
  show ?thesis
  proof (cases p)
    case (Inl err)
    with assms o r1 show ?thesis by (intro exI [of _ "[CallPs]"]) (auto simp: check_def event_ok_def)
  next
    case (Inr ps)
    show ?thesis
    proof (cases "has_managed_daemon ps (sc_standalone_codex ?cfg)")
      case False
      obtain d s2 where d: "start_daemon ops s1 = (d, s2)" by fastforce
      have "ran s [CallPs, daemon_start_call ?cfg] s2" using ran_trans [OF r1 ran_launch(2) [OF d]] by (simp add: c1)
      moreover have "s' = s2" "e = (case d of Inr _ \<Rightarrow> DaemonRestarted | Inl err \<Rightarrow> EvUserActionRequired err)"
        using assms o Inr False d by (simp_all add: check_def)
      ultimately show ?thesis using p Inr False
        by (intro exI [of _ "[CallPs, daemon_start_call ?cfg]"]) (simp add: event_ok_def listed_def split: sum.splits)
    next
      case daemon: True
      let ?args = "[''app-server'', ''daemon'', ''version'']"
      let ?two = "[CallPs, CallOutput (sc_standalone_codex ?cfg) ?args]"
      obtain v s2 where v: "run_output ops (sc_standalone_codex ?cfg) ?args s1 = (v, s2)" by fastforce
      have r2: "ran s ?two s2" using ran_trans [OF r1 conjunct1 [OF ran_ops(4) [OF v]]] by simp
      then have c2: "sv_config s2 = ?cfg" "sv_calls s2 = ?calls @ ?two" by (simp_all add: ran_def)
      have pv: "po_output ops (?calls @ ?two) = v" using ran_ops(4) [OF v] c2 by simp
      show ?thesis
      proof (cases "\<exists>out. v = Inr out \<and> co_success out")
        case False
        then have "s' = s2" "\<exists>t. e = Incompatible t"
          using assms o Inr daemon v by (auto simp: check_def split: sum.splits if_splits)
        with r2 pv False show ?thesis by (intro exI [of _ ?two]) (auto simp: event_ok_def version_answered_def)
      next
        case True
        then have va: "version_answered ops ?cfg ?calls" using pv by (auto simp: version_answered_def)
        have "check_gui ops ps s2 = (e, s')" using assms o Inr daemon v True by (auto simp: check_def)
        from check_gui_spec [OF this, of ?calls] have "\<exists>cs. ran s2 cs s' \<and> length cs \<le> 2 \<and> CallQuit \<notin> set cs \<and>
          (effects cs = [] \<and> e = Healthy \<and> saw_attached ops ?cfg (length ?calls) (sv_calls s') \<or>
            effects cs = [gui_open_call ?cfg] \<and> \<not> gui_running ps (sc_gui_executable ?cfg) \<and>
              (e = GuiRestarted \<or> (\<exists>t. e = EvUserActionRequired t)) \<or>
            effects cs = [] \<and> (\<exists>t. e = EvUserActionRequired t))" using p Inr unfolding c2 by simp
        then obtain cs where cs: "ran s2 cs s'" "length cs \<le> 2" "CallQuit \<notin> set cs"
          and e: "effects cs = [] \<and> e = Healthy \<and> saw_attached ops ?cfg (length ?calls) (sv_calls s') \<or>
            effects cs = [gui_open_call ?cfg] \<and> \<not> gui_running ps (sc_gui_executable ?cfg) \<and>
              (e = GuiRestarted \<or> (\<exists>t. e = EvUserActionRequired t)) \<or>
            effects cs = [] \<and> (\<exists>t. e = EvUserActionRequired t)" by (elim exE conjE) (rule that)
        have r: "ran s (?two @ cs) s'" by (rule ran_trans [OF r2 cs(1)])
        then have "sv_calls s' = ?calls @ ?two @ cs" by (simp add: ran_def)
        moreover have "listed ops ?calls P \<longleftrightarrow> P ps" for P using p Inr by (simp add: listed_def)
        ultimately have "event_ok ops ?cfg ?calls (?two @ cs) e" 
          using e by (elim disjE conjE exE) (simp_all add: event_ok_def daemon va)
        moreover have "length (effects (?two @ cs)) \<le> 1" using e by auto
        ultimately show ?thesis using r cs(2,3) by (intro exI [of _ "?two @ cs"]) simp
      qed
    qed
  qed
qed

lemma check_total: "\<exists>cs. ran s cs (snd (check ops s)) \<and> length cs \<le> 4 \<and> CallQuit \<notin> set cs \<and> length (effects cs) \<le> 1"
  using check_spec [of ops s] by (metis prod.collapse)

text \<open>A check makes at most four calls, repairs at most one thing and never asks the GUI to quit:
  it starts the daemon only when the listing shows none, opens the GUI only when the daemon
  answered and the listing shows no GUI, reports an incompatible daemon only without a successful
  version command and without acting, and reports health only with evidence of all three.\<close>

theorem check_repairs_one_thing:
  "\<exists>cs. sv_calls (snd (check ops s)) = sv_calls s @ cs \<and> length cs \<le> 4 \<and> CallQuit \<notin> set cs \<and>
    length (effects cs) \<le> 1 \<and> event_ok ops (sv_config s) (sv_calls s) cs (fst (check ops s))"
  using check_spec [of ops s "fst (check ops s)" "snd (check ops s)"] by (auto simp: ran_def)

text \<open>The monitor.\<close>

interpretation mrun: stepwise_run "monitor_step ops" "monitor_run ops" for ops
  by unfold_locales simp_all

lemma ran_fold: "ran s cs (fold (call ops) cs s)"
proof (induction cs arbitrary: s)
  case (Cons c cs)
  with ran_trans [OF ran_call] show ?case by force
qed simp

lemma effects_take: "length (effects cs) \<le> 1 \<Longrightarrow> length (effects (take n cs)) \<le> 1"
  by (metis append_take_drop_id filter_append le_trans le_add1 length_append)

lemma interrupted_check_spec:
  "\<exists>cs. ran s cs (interrupted_check ops n s) \<and> CallQuit \<notin> set cs \<and> length (effects cs) \<le> 1"
proof -
  let ?c = "CallSleep (sc_monitor_interval (sv_config s))"
  obtain cs where cs: "ran (call ops ?c s) cs (snd (check ops (call ops ?c s)))" "CallQuit \<notin> set cs" "length (effects cs) \<le> 1"
    using check_total by blast
  have "drop (length (sv_calls s)) (sv_calls (snd (check ops (call ops ?c s)))) = ?c # cs" using cs(1) by (simp add: ran_def)
  then have "interrupted_check ops n s = fold (call ops) (take n (?c # cs)) s" by (simp add: interrupted_check_def)
  moreover have "length (effects (take n (?c # cs))) \<le> 1" using cs(3) by (intro effects_take) simp
  moreover have "CallQuit \<notin> set (take n (?c # cs))" using cs(2) by (auto dest: in_set_takeD)
  ultimately show ?thesis using ran_fold by metis
qed

lemma monitor_step_spec:
  assumes "monitor_step ops x m = Some m'"
  shows "mo_running m \<and> (\<exists>cs. ran (mo_supervisor m) cs (mo_supervisor m') \<and> CallQuit \<notin> set cs \<and> length (effects cs) \<le> 1) \<and>
    (mo_running m' \<longleftrightarrow> (\<forall>n. x \<noteq> MonitorShutdown None n \<and> x \<noteq> MonitorShutdown (Some True) n)) \<and>
    length (mo_events m') = length (mo_events m) + (if x = MonitorChecked then 1 else 0)"
proof (cases x)
  case (MonitorShutdown v n)
  with assms interrupted_check_spec [of "mo_supervisor m" ops n] show ?thesis
    by (cases v) (auto simp: monitor_step_def Let_def split: if_splits)
next
  case MonitorChecked
  let ?s = "mo_supervisor m" and ?c = "CallSleep (sc_monitor_interval (sv_config (mo_supervisor m)))"
  obtain cs where cs: "ran (call ops ?c ?s) cs (snd (check ops (call ops ?c ?s)))" "CallQuit \<notin> set cs" "length (effects cs) \<le> 1"
    using check_total by blast
  have "ran ?s (?c # cs) (snd (check ops (call ops ?c ?s)))" using ran_trans [OF ran_call cs(1)] by simp
  moreover have "mo_supervisor m' = snd (check ops (call ops ?c ?s))" "mo_running m" "mo_running m'"
    "length (mo_events m') = Suc (length (mo_events m))"
    using assms MonitorChecked by (auto simp: monitor_step_def split: if_splits prod.splits)
  ultimately show ?thesis using cs(2,3) MonitorChecked by (auto intro!: exI [of _ "?c # cs"])
qed

text \<open>C31. Whatever the signals and however often a check is cut off, the monitor never asks the GUI to
  quit, performs at most one effect per turn, reports exactly one event per completed check, and
  takes no turn after a shutdown signal: that signal, or the loss of its sender, can only be the
  last input it handles.\<close>

theorem monitor_stays_gentle:
  assumes "monitor_run ops xs (monitor_start s) = Some m"
  shows "(\<exists>cs. sv_calls (mo_supervisor m) = sv_calls s @ cs \<and> CallQuit \<notin> set cs \<and> length (effects cs) \<le> length xs) \<and>
    length (mo_events m) = length (filter (\<lambda>x. x = MonitorChecked) xs) \<and>
    (\<forall>x \<in> set (butlast xs). \<forall>n. x \<noteq> MonitorShutdown None n \<and> x \<noteq> MonitorShutdown (Some True) n)"
proof -
  let ?go = "\<lambda>x. \<forall>n. x \<noteq> MonitorShutdown None n \<and> x \<noteq> MonitorShutdown (Some True) n"
  let ?I = "\<lambda>xs m. (\<exists>cs. ran s cs (mo_supervisor m) \<and> CallQuit \<notin> set cs \<and> length (effects cs) \<le> length xs) \<and>
    length (mo_events m) = length (filter (\<lambda>x. x = MonitorChecked) xs) \<and> (mo_running m \<longleftrightarrow> (\<forall>x \<in> set xs. ?go x)) \<and>
    (\<forall>x \<in> set (butlast xs). ?go x)"
  have "?I xs m"
  proof (rule mrun.run_history [OF _ _ assms])
    show "?I [] (monitor_start s)" by (auto simp: monitor_start_def intro!: exI [of _ "[]"])
  next
    fix ys x t u assume I: "?I ys t" and step: "monitor_step ops x t = Some u"
    note spec = monitor_step_spec [OF step]
    from spec obtain ds where ds: "ran (mo_supervisor t) ds (mo_supervisor u)" "CallQuit \<notin> set ds" "length (effects ds) \<le> 1" by blast
    from I obtain cs where cs: "ran s cs (mo_supervisor t)" "CallQuit \<notin> set cs" "length (effects cs) \<le> length ys" by blast
    have "ran s (cs @ ds) (mo_supervisor u)" by (rule ran_trans [OF cs(1) ds(1)])
    with cs ds have 1: "\<exists>cs. ran s cs (mo_supervisor u) \<and> CallQuit \<notin> set cs \<and> length (effects cs) \<le> length (ys @ [x])"
      by (intro exI [of _ "cs @ ds"]) simp
    have "\<forall>x \<in> set ys. ?go x" using spec I by blast
    with spec I 1 show "?I (ys @ [x]) u" by simp
  qed
  then show ?thesis by (auto simp: ran_def)
qed

theorem monitor_stays_gentle_witness:
  "\<exists>m. monitor_run sample_process_ops [MonitorChecked, MonitorShutdown (Some False) 2, MonitorShutdown (Some True) 0]
      (monitor_start (supervisor_new sample_supervisor_config 0)) = Some m \<and>
    CallQuit \<notin> set (sv_calls (mo_supervisor m)) \<and> length (mo_events m) = 1"
proof -
  let ?xs = "[MonitorChecked, MonitorShutdown (Some False) 2, MonitorShutdown (Some True) 0]"
  obtain m where m: "monitor_run sample_process_ops ?xs (monitor_start (supervisor_new sample_supervisor_config 0)) = Some m"
    by (simp add: monitor_step_def monitor_start_def Let_def case_prod_beta')
  with monitor_stays_gentle [OF m] show ?thesis by (auto simp: supervisor_new_def)
qed

end
