(* ===== verification/Serde.thy ===== *)
theory Serde
  imports Rpc "HOL-Library.Monad_Syntax"
begin

text \<open>
  Typed answers: what \<open>serde_json::from_value\<close> makes of a JSON value for the
  \<open>Deserialize\<close> types of \<open>src/core/src\<close>, as serde's derive documents it. A struct is read
  from an object by the names of its fields, unknown ones ignored, or from an array by their
  positions; a field with a default may be missing, an optional one also in an object. A struct
  with a flattened map is read from objects only and keeps the members it has no field for. The
  text of a serde error is the library's, so a failure is \<open>None\<close>.
\<close>

section \<open>Values\<close>

type_synonym 'a decoder = "json \<Rightarrow> 'a option"

fun de_object :: "(string \<times> json) list decoder" where
  "de_object (JObject ms) = Some ms"
| "de_object _ = None"

fun de_all :: "'a decoder \<Rightarrow> json list \<Rightarrow> 'a list option" where
  "de_all d [] = Some []"
| "de_all d (v # vs) = do { x \<leftarrow> d v; xs \<leftarrow> de_all d vs; Some (x # xs) }"

definition de_list :: "'a decoder \<Rightarrow> 'a list decoder" where
  "de_list d v = Option.bind (as_array v) (de_all d)"

definition de_option :: "'a decoder \<Rightarrow> 'a option decoder" where
  "de_option d v = (if v = JNull then Some None else map_option Some (d v))"

section \<open>Fields\<close>

text \<open>
  The fields of a struct value, found by name or by position; an array must not be longer than
  the struct.
\<close>

datatype fields = Members "(string \<times> json) list" | Positions "json list"

fun de_struct :: "nat \<Rightarrow> json \<Rightarrow> fields option" where
  "de_struct n (JObject ms) = Some (Members ms)"
| "de_struct n (JArray vs) = (if length vs \<le> n then Some (Positions vs) else None)"
| "de_struct n _ = None"

fun field_value :: "fields \<Rightarrow> nat \<Rightarrow> string \<Rightarrow> json option" where
  "field_value (Members ms) i k = map_of ms k"
| "field_value (Positions vs) i k = (if i < length vs then Some (vs ! i) else None)"

definition required :: "'a decoder \<Rightarrow> json option \<Rightarrow> 'a option" where
  "required d f = Option.bind f d"

definition defaulted :: "'a decoder \<Rightarrow> 'a \<Rightarrow> json option \<Rightarrow> 'a option" where
  "defaulted d x f = (case f of None \<Rightarrow> Some x | Some v \<Rightarrow> d v)"

text \<open>An optional field without a default: only an object may leave it out.\<close>

fun optional :: "'a decoder \<Rightarrow> fields \<Rightarrow> nat \<Rightarrow> string \<Rightarrow> 'a option option" where
  "optional d (Members ms) i k = defaulted (de_option d) None (map_of ms k)"
| "optional d (Positions vs) i k = required (de_option d) (field_value (Positions vs) i k)"

text \<open>What a flattened map keeps.\<close>

definition rest_members :: "string list \<Rightarrow> (string \<times> json) list \<Rightarrow> (string \<times> json) list" where
  "rest_members ks ms = filter (\<lambda>(k, _). k \<notin> set ks) ms"

lemma de_all_Some: "de_all d vs = Some xs \<longleftrightarrow> list_all2 (\<lambda>v x. d v = Some x) vs xs"
proof (induction vs arbitrary: xs)
  case (Cons v vs)
  then show ?case by (cases xs) (auto simp: bind_eq_Some_conv)
qed auto

lemma de_list_Some: "de_list d v = Some xs \<longleftrightarrow> (\<exists>vs. v = JArray vs \<and> list_all2 (\<lambda>v x. d v = Some x) vs xs)"
  by (auto simp: de_list_def as_array_Some de_all_Some bind_eq_Some_conv)

lemma de_struct_objects [simp]: "de_struct n (JObject ms) = Some (Members ms)"
  by simp

end
