(* ===== verification/Threads.thy ===== *)
theory Threads
  imports Serde
begin

text \<open>
  The thread queries of \<open>src/core/src/threads.rs\<close>: the paginated listing of all threads and
  the read of one thread with its turns. The listing has no bound on its pages; the loop is a
  partial function whose value is \<open>None\<close> where it does not return.
\<close>

section \<open>Answers\<close>

record listed_thread =
  lt_id :: string
  lt_cwd :: string
  lt_metadata :: "(string \<times> json) list"

record read_turn =
  rn_id :: string
  rn_items :: "json list"
  rn_metadata :: "(string \<times> json) list"

record read_thread =
  rt_id :: string
  rt_turns :: "read_turn list"
  rt_metadata :: "(string \<times> json) list"

record thread_list_page =
  pg_data :: "listed_thread list"
  pg_next_cursor :: "string option"

definition de_listed_thread :: "listed_thread decoder" where
  "de_listed_thread v =
     do { ms \<leftarrow> de_object v;
          i \<leftarrow> required as_str (map_of ms ''id'');
          cwd \<leftarrow> required as_str (map_of ms ''cwd'');
          Some \<lparr> lt_id = i, lt_cwd = cwd, lt_metadata = rest_members [''id'', ''cwd''] ms \<rparr> }"

definition de_read_turn :: "read_turn decoder" where
  "de_read_turn v =
     do { ms \<leftarrow> de_object v;
          i \<leftarrow> required as_str (map_of ms ''id'');
          items \<leftarrow> defaulted as_array [] (map_of ms ''items'');
          Some \<lparr> rn_id = i, rn_items = items, rn_metadata = rest_members [''id'', ''items''] ms \<rparr> }"

definition de_read_thread :: "read_thread decoder" where
  "de_read_thread v =
     do { ms \<leftarrow> de_object v;
          i \<leftarrow> required as_str (map_of ms ''id'');
          turns \<leftarrow> defaulted (de_list de_read_turn) [] (map_of ms ''turns'');
          Some \<lparr> rt_id = i, rt_turns = turns, rt_metadata = rest_members [''id'', ''turns''] ms \<rparr> }"

definition de_thread_list_page :: "thread_list_page decoder" where
  "de_thread_list_page v =
     do { fs \<leftarrow> de_struct 2 v;
          threads \<leftarrow> required (de_list de_listed_thread) (field_value fs 0 ''data'');
          cursor \<leftarrow> defaulted (de_option as_str) None (field_value fs 1 ''nextCursor'');
          Some \<lparr> pg_data = threads, pg_next_cursor = cursor \<rparr> }"

definition de_thread_read_response :: "read_thread decoder" where
  "de_thread_read_response v =
     do { fs \<leftarrow> de_struct 1 v; required de_read_thread (field_value fs 0 ''thread'') }"

section \<open>Errors\<close>

datatype thread_list_error = ListRequest request_error | ListInvalidResponse | RepeatedCursor string

datatype thread_read_error = ReadRequest request_error | ReadInvalidResponse

section \<open>Operations\<close>

definition page_request :: "string option \<Rightarrow> rpc_call" where
  "page_request cursor =
     Request ''thread/list''
       (JObject [(''cursor'', case cursor of None \<Rightarrow> JNull | Some c \<Rightarrow> JString c),
                 (''limit'', JNumber (PosInt 100)), (''sortKey'', JString ''updated_at''),
                 (''sortDirection'', JString ''desc'')])"

text \<open>Threads seen before, on this page or an earlier one, are left out.\<close>

fun add_unseen :: "listed_thread list \<Rightarrow> string set \<Rightarrow> listed_thread list \<Rightarrow> string set \<times> listed_thread list" where
  "add_unseen [] seen threads = (seen, threads)"
| "add_unseen (t # ts) seen threads =
     (if lt_id t \<in> seen then add_unseen ts seen threads
      else add_unseen ts (insert (lt_id t) seen) (threads @ [t]))"

partial_function (option) list_pages :: "client \<Rightarrow> string option \<Rightarrow> string set \<Rightarrow> string set \<Rightarrow> listed_thread list \<Rightarrow> world \<Rightarrow>
    ((thread_list_error + listed_thread list) \<times> world) option" where
  "list_pages client cursor seen_cursors seen threads w =
     (case rpc client (page_request cursor) w of
        (Inl err, w1) \<Rightarrow> Some (Inl (ListRequest err), w1)
      | (Inr v, w1) \<Rightarrow>
          (case de_thread_list_page v of
             None \<Rightarrow> Some (Inl ListInvalidResponse, w1)
           | Some page \<Rightarrow>
               (case add_unseen (pg_data page) seen threads of
                  (seen1, threads1) \<Rightarrow>
                    (case pg_next_cursor page of
                       None \<Rightarrow> Some (Inr threads1, w1)
                     | Some c \<Rightarrow>
                         if c \<in> seen_cursors then Some (Inl (RepeatedCursor c), w1)
                         else list_pages client (Some c) (insert c seen_cursors) seen1 threads1 w1))))"

definition list_all_threads :: "client \<Rightarrow> world \<Rightarrow> ((thread_list_error + listed_thread list) \<times> world) option" where
  "list_all_threads client w = list_pages client None {} {} [] w"

definition read_thread_call :: "string \<Rightarrow> rpc_call" where
  "read_thread_call tid =
     Request ''thread/read'' (JObject [(''threadId'', JString tid), (''includeTurns'', JBool True)])"

definition read_thread_op :: "client \<Rightarrow> string \<Rightarrow> world \<Rightarrow> (thread_read_error + read_thread) \<times> world" where
  "read_thread_op client tid w =
     (case rpc client (read_thread_call tid) w of
        (Inl err, w1) \<Rightarrow> (Inl (ReadRequest err), w1)
      | (Inr v, w1) \<Rightarrow>
          (case de_thread_read_response v of None \<Rightarrow> Inl ReadInvalidResponse | Some t \<Rightarrow> Inr t, w1))"

section \<open>The listing\<close>

definition page_answer :: "client \<Rightarrow> rpc_call list \<Rightarrow> string option \<Rightarrow> thread_list_page option" where
  "page_answer client calls cursor =
     (case snd (client (calls @ [page_request cursor])) of Inl _ \<Rightarrow> None | Inr v \<Rightarrow> de_thread_list_page v)"

text \<open>Pages that follow one another, each asked for with the cursor of the one before.\<close>

fun pages_chain :: "client \<Rightarrow> rpc_call list \<Rightarrow> string option \<Rightarrow> thread_list_page list \<Rightarrow> bool" where
  "pages_chain client calls cursor [] \<longleftrightarrow> False"
| "pages_chain client calls cursor (p # ps) \<longleftrightarrow>
     page_answer client calls cursor = Some p \<and>
     (if ps = [] then pg_next_cursor p = None
      else pg_next_cursor p \<noteq> None \<and> pages_chain client (calls @ [page_request cursor]) (pg_next_cursor p) ps)"

text \<open>The first thread of each id, in order.\<close>

fun first_by_id :: "listed_thread list \<Rightarrow> listed_thread list" where
  "first_by_id [] = []"
| "first_by_id (t # ts) = t # filter (\<lambda>u. lt_id u \<noteq> lt_id t) (first_by_id ts)"

lemma first_by_id_distinct: "distinct (map lt_id (first_by_id ts))"
proof (induction ts)
  case (Cons t ts)
  then show ?case by (auto simp: distinct_map inj_on_def)
qed simp

lemma first_by_id_filter: "first_by_id (filter (\<lambda>u. lt_id u \<notin> S) ts) = filter (\<lambda>u. lt_id u \<notin> S) (first_by_id ts)"
  by (induction ts) (auto intro: filter_cong simp: conj_commute)

lemma add_unseen_exact:
  "add_unseen ts seen threads = (seen \<union> lt_id ` set ts, threads @ filter (\<lambda>u. lt_id u \<notin> seen) (first_by_id ts))"
proof (induction ts arbitrary: seen threads)
  case (Cons t ts)
  then show ?case by (auto intro!: filter_cong)
qed simp

lemma first_by_id_append:
  "first_by_id (ts @ us) = first_by_id ts @ filter (\<lambda>u. lt_id u \<notin> lt_id ` set ts) (first_by_id us)"
  by (induction ts) (auto intro!: filter_cong)

text \<open>A listing from a cursor on: the pages fetched, the calls made for them and the threads added.\<close>

definition lists :: "client \<Rightarrow> string option \<Rightarrow> string set \<Rightarrow> string set \<Rightarrow> listed_thread list \<Rightarrow> world \<Rightarrow>
    listed_thread list \<Rightarrow> world \<Rightarrow> thread_list_page list \<Rightarrow> bool" where
  "lists client cursor seen_cursors seen threads w ts w' ps \<longleftrightarrow>
     pages_chain client (wd_calls w) cursor ps \<and>
     wd_calls w' = wd_calls w @ map page_request (cursor # map pg_next_cursor (butlast ps)) \<and>
     distinct (map pg_next_cursor (butlast ps)) \<and> set (map pg_next_cursor (butlast ps)) \<inter> Some ` seen_cursors = {} \<and>
     ts = threads @ filter (\<lambda>u. lt_id u \<notin> seen) (first_by_id (concat (map pg_data ps)))"

lemma page_answer_rpc:
  assumes "rpc client (page_request cursor) w = (a, w1)"
  shows "page_answer client (wd_calls w) cursor = (case a of Inl _ \<Rightarrow> None | Inr v \<Rightarrow> de_thread_list_page v)"
    and "wd_calls w1 = wd_calls w @ [page_request cursor]"
  using assms rpc_simps(1,2) [of client "page_request cursor" w] by (auto simp: page_answer_def)

lemma lists_last:
  assumes "rpc client (page_request cursor) w = (Inr v, w1)" and "de_thread_list_page v = Some p" and "pg_next_cursor p = None"
  shows "lists client cursor seen_cursors seen threads w (snd (add_unseen (pg_data p) seen threads)) w1 [p]"
  using assms(2,3) page_answer_rpc [OF assms(1)] by (simp add: lists_def add_unseen_exact)

lemma lists_more:
  assumes "rpc client (page_request cursor) w = (Inr v, w1)" and "de_thread_list_page v = Some p"
    and "pg_next_cursor p = Some c" and "c \<notin> seen_cursors"
    and "lists client (Some c) (insert c seen_cursors) (fst (add_unseen (pg_data p) seen threads))
      (snd (add_unseen (pg_data p) seen threads)) w1 ts w' ps"
  shows "lists client cursor seen_cursors seen threads w ts w' (p # ps)"
proof -
  have ps: "ps \<noteq> []" using assms(5) by (auto simp: lists_def)
  have "filter (\<lambda>u. lt_id u \<notin> seen \<and> lt_id u \<notin> lt_id ` set (pg_data p)) us =
    filter (\<lambda>u. lt_id u \<notin> lt_id ` set (pg_data p) \<and> lt_id u \<notin> seen) us" for us :: "listed_thread list"
    by (auto intro: filter_cong)
  with assms(2-5) ps page_answer_rpc [OF assms(1)] show ?thesis
    by (auto simp: lists_def add_unseen_exact first_by_id_append)
qed

lemma list_pages_exact:
  assumes "list_pages client cursor seen_cursors seen threads w = Some y"
  shows "\<forall>ts. fst y = Inr ts \<longrightarrow> (\<exists>ps. lists client cursor seen_cursors seen threads w ts (snd y) ps)"
proof (rule list_pages.raw_induct [OF _ assms, where P = "\<lambda>client cursor seen_cursors seen threads w y.
    \<forall>ts. fst y = Inr ts \<longrightarrow> (\<exists>ps. lists client cursor seen_cursors seen threads w ts (snd y) ps)"], goal_cases)
  case (1 f client cursor seen_cursors seen threads w y)
  obtain a w1 where o: "rpc client (page_request cursor) w = (a, w1)" by fastforce
  show ?case
  proof (intro allI impI)
    fix ts assume y: "fst y = Inr ts"
    with 1(2) o obtain v p where v: "a = Inr v" "de_thread_list_page v = Some p" by (auto split: sum.splits option.splits)
    show "\<exists>ps. lists client cursor seen_cursors seen threads w ts (snd y) ps"
    proof (cases "pg_next_cursor p")
      case None
      with 1(2) o v y lists_last [OF o [unfolded v] v(2) None, of seen_cursors seen threads] show ?thesis
        by (auto split: prod.splits)
    next
      case (Some c)
      have c: "c \<notin> seen_cursors" and f: "f client (Some c) (insert c seen_cursors) (fst (add_unseen (pg_data p) seen threads))
          (snd (add_unseen (pg_data p) seen threads)) w1 = Some y"
        using 1(2) o v y Some by (auto split: prod.splits if_splits)
      from 1(1) [OF f] y lists_more [OF o [unfolded v] v(2) Some c] show ?thesis by blast
    qed
  qed
qed

text \<open>The cursors the server ever gives out.\<close>

definition cursors_within :: "client \<Rightarrow> string set \<Rightarrow> bool" where
  "cursors_within client C \<longleftrightarrow>
     (\<forall>calls cursor p c. page_answer client calls cursor = Some p \<longrightarrow> pg_next_cursor p = Some c \<longrightarrow> c \<in> C)"

lemma list_pages_returns:
  assumes "finite C" and "cursors_within client C"
  shows "seen_cursors \<subseteq> C \<Longrightarrow> \<exists>r w'. list_pages client cursor seen_cursors seen threads w = Some (r, w') \<and>
    length (wd_calls w') \<le> length (wd_calls w) + Suc (card (C - seen_cursors))"
proof (induction "card (C - seen_cursors)" arbitrary: cursor seen_cursors seen threads w rule: less_induct)
  case less
  obtain a w1 where o: "rpc client (page_request cursor) w = (a, w1)" by fastforce
  note page = page_answer_rpc [OF o]
  consider e where "a = Inl e" | v where "a = Inr v" "de_thread_list_page v = None"
    | v p where "a = Inr v" "de_thread_list_page v = Some p" by (metis option.exhaust sum.exhaust)
  then show ?case
  proof cases
    case (3 v p)
    show ?thesis
    proof (cases "pg_next_cursor p")
      case None
      with o 3 page(2) show ?thesis by (simp add: list_pages.simps split: prod.splits)
    next
      case (Some c)
      show ?thesis
      proof (cases "c \<in> seen_cursors")
        case True
        with o 3 Some page(2) show ?thesis by (simp add: list_pages.simps split: prod.splits)
      next
        case False
        have c: "c \<in> C" using assms(2) page(1) 3 Some by (auto simp: cursors_within_def)
        have card: "card (C - seen_cursors) = Suc (card (C - insert c seen_cursors))"
          using c False assms(1) by (metis Diff_insert Diff_iff card.remove finite_Diff)
        from less(1) [of "insert c seen_cursors" "Some c" "fst (add_unseen (pg_data p) seen threads)"
            "snd (add_unseen (pg_data p) seen threads)" w1] card c less(2)
        obtain r w' where "list_pages client (Some c) (insert c seen_cursors) (fst (add_unseen (pg_data p) seen threads))
            (snd (add_unseen (pg_data p) seen threads)) w1 = Some (r, w')"
          "length (wd_calls w') \<le> length (wd_calls w1) + Suc (card (C - insert c seen_cursors))" by auto
        with o 3 Some False page(2) card show ?thesis
          by (simp add: list_pages.simps [of client cursor] split_beta)
      qed
    qed
  qed (use o page(2) in \<open>simp_all add: list_pages.simps\<close>)
qed

section \<open>Properties\<close>

text \<open>A server with two pages; the thread of the first is on the second again, after an older one.\<close>

definition listed_json :: "string \<Rightarrow> json" where
  "listed_json i = JObject [(''id'', JString i), (''cwd'', JString ''/w''), (''updatedAt'', JNumber (PosInt 1))]"

definition paging_client :: client where
  "paging_client calls =
     ([], Inr (if length calls \<le> 1 then JObject [(''data'', JArray [listed_json ''a'']), (''nextCursor'', JString ''p'')]
               else JObject [(''data'', JArray [listed_json ''b'', listed_json ''a'']), (''nextCursor'', JNull)]))"

abbreviation sample_world :: "reducer \<Rightarrow> world" where
  "sample_world r \<equiv> \<lparr> wd_reducer = r, wd_calls = [], wd_activity = [] \<rparr>"

definition listed_sample :: "string \<Rightarrow> listed_thread" where
  "listed_sample i = \<lparr> lt_id = i, lt_cwd = ''/w'', lt_metadata = [(''updatedAt'', JNumber (PosInt 1))] \<rparr>"

lemmas paging_eval = paging_client_def de_thread_list_page_def de_list_def de_listed_thread_def listed_json_def
  required_def defaulted_def de_option_def rest_members_def rpc_def Let_def others_def

lemma paging_list:
  "list_all_threads paging_client (sample_world r) =
     Some (Inr [listed_sample ''a'', listed_sample ''b''],
       \<lparr> wd_reducer = r, wd_calls = [page_request None, page_request (Some ''p'')], wd_activity = [] \<rparr>)"
  by (simp add: list_all_threads_def list_pages.simps paging_eval listed_sample_def)

text \<open>C25. A listing that succeeds is complete and exact: it fetched the first page and then each
  page with the cursor of the page before, no cursor twice, to the page without a next cursor,
  and it answers the first occurrence of every thread on these pages, in page order, each id
  once, idle threads included.\<close>

theorem listing_is_exact:
  assumes "list_all_threads client w = Some (Inr ts, w')"
  shows "\<exists>ps. pages_chain client (wd_calls w) None ps \<and>
    wd_calls w' = wd_calls w @ map page_request (None # map pg_next_cursor (butlast ps)) \<and>
    distinct (map pg_next_cursor (butlast ps)) \<and>
    ts = first_by_id (concat (map pg_data ps)) \<and> distinct (map lt_id ts)"
  using list_pages_exact [OF assms [unfolded list_all_threads_def]] first_by_id_distinct
  by (auto simp: lists_def)

theorem listing_is_exact_witness:
  "\<exists>ps. pages_chain paging_client [] None ps \<and> [listed_sample ''a'', listed_sample ''b''] = first_by_id (concat (map pg_data ps))"
  using listing_is_exact [OF paging_list [of undefined]] by auto

text \<open>C26. A listing returns whenever the server draws its cursors from a finite set, after at most
  one request more than that set has cursors: a server that repeats itself is answered with an
  error, never followed in a circle.\<close>

theorem listing_returns:
  assumes "finite C" and "cursors_within client C"
  shows "\<exists>r w'. list_all_threads client w = Some (r, w') \<and> length (wd_calls w') \<le> length (wd_calls w) + Suc (card C)"
  using list_pages_returns [OF assms, of "{}"] by (simp add: list_all_threads_def)

lemma paging_cursors: "cursors_within paging_client {''p''}"
  by (auto simp: cursors_within_def page_answer_def paging_eval split: if_splits)

theorem listing_returns_witness:
  "\<exists>r w'. list_all_threads paging_client (sample_world undefined) = Some (r, w') \<and> length (wd_calls w') \<le> 2"
  using listing_returns [OF _ paging_cursors, of "sample_world undefined"] by auto

end
