(* ===== verification/Skills.thy ===== *)
theory Skills
  imports Serde Supervisor
begin

text \<open>
  The skill and hook management of \<open>src/core/src/skills.rs\<close> and \<open>src/core/src/hooks.rs\<close>.
  The set of extra roots lives in the app-server's connection; the controller remembers it so
  that it can be replayed. A path is its UTF-8 string, so the branch for paths that are not
  UTF-8 is not there.
\<close>

section \<open>Skill answers\<close>

record skill_metadata =
  sm_name :: string
  sm_description :: string
  sm_path :: string
  sm_scope :: string
  sm_enabled :: bool
  sm_short_description :: "string option"
  sm_interface :: "json option"
  sm_dependencies :: "json option"

record skill_load_error =
  sl_path :: string
  sl_message :: string

record skills_list_entry =
  se_cwd :: string
  se_skills :: "skill_metadata list"
  se_errors :: "skill_load_error list"

record skills_list_response =
  sr_data :: "skills_list_entry list"

definition de_skill_metadata :: "skill_metadata decoder" where
  "de_skill_metadata v =
     do { fs \<leftarrow> de_struct 8 v;
          name \<leftarrow> required as_str (field_value fs 0 ''name'');
          description \<leftarrow> required as_str (field_value fs 1 ''description'');
          path \<leftarrow> required as_str (field_value fs 2 ''path'');
          scope \<leftarrow> required as_str (field_value fs 3 ''scope'');
          enabled \<leftarrow> required as_bool (field_value fs 4 ''enabled'');
          short \<leftarrow> defaulted (de_option as_str) None (field_value fs 5 ''shortDescription'');
          interface \<leftarrow> defaulted (de_option Some) None (field_value fs 6 ''interface'');
          dependencies \<leftarrow> defaulted (de_option Some) None (field_value fs 7 ''dependencies'');
          Some \<lparr> sm_name = name, sm_description = description, sm_path = path, sm_scope = scope,
            sm_enabled = enabled, sm_short_description = short, sm_interface = interface,
            sm_dependencies = dependencies \<rparr> }"

definition de_skill_load_error :: "skill_load_error decoder" where
  "de_skill_load_error v =
     do { fs \<leftarrow> de_struct 2 v;
          path \<leftarrow> required as_str (field_value fs 0 ''path'');
          message \<leftarrow> required as_str (field_value fs 1 ''message'');
          Some \<lparr> sl_path = path, sl_message = message \<rparr> }"

definition de_skills_list_entry :: "skills_list_entry decoder" where
  "de_skills_list_entry v =
     do { fs \<leftarrow> de_struct 3 v;
          cwd \<leftarrow> required as_str (field_value fs 0 ''cwd'');
          skills \<leftarrow> required (de_list de_skill_metadata) (field_value fs 1 ''skills'');
          errors \<leftarrow> required (de_list de_skill_load_error) (field_value fs 2 ''errors'');
          Some \<lparr> se_cwd = cwd, se_skills = skills, se_errors = errors \<rparr> }"

definition de_skills_list_response :: "skills_list_response decoder" where
  "de_skills_list_response v =
     do { fs \<leftarrow> de_struct 1 v;
          entries \<leftarrow> required (de_list de_skills_list_entry) (field_value fs 0 ''data'');
          Some \<lparr> sr_data = entries \<rparr> }"

text \<open>A struct without fields: any object, or the empty array.\<close>

definition de_empty_response :: "unit decoder" where
  "de_empty_response v = do { _ \<leftarrow> de_struct 0 v; Some () }"

section \<open>Extra roots\<close>

text \<open>
  \<open>Path::components\<close>: the root or a leading dot, then the segments; empty ones and further
  dots are dropped. Collecting them pushes one after the other.
\<close>

definition path_components :: "string \<Rightarrow> string list" where
  "path_components p =
     (if path_prefix p = [] then [] else [path_prefix p]) @
     filter (\<lambda>s. s \<noteq> [] \<and> s \<noteq> ''.'') (split_on CHR ''/'' (drop (length (path_prefix p)) p))"

definition path_collect :: "string list \<Rightarrow> string" where
  "path_collect cs = fold (\<lambda>c p. path_join p c) cs []"

datatype skill_error =
    SkillInvalidPath string string string
  | SkillRequest request_error
  | SkillInvalidResponse string

definition valid_root :: "string \<Rightarrow> bool" where
  "valid_root p \<longleftrightarrow> starts_with p ''/'' \<and> p = path_collect (path_components p) \<and>
     \<not> list_ex (\<lambda>c. c = ''.'' \<or> c = ''..'') (path_components p)"

definition encode_extra_roots :: "string list \<Rightarrow> skill_error + string list" where
  "encode_extra_roots paths =
     (case find (\<lambda>p. \<not> valid_root p) paths of
        Some p \<Rightarrow> Inl (SkillInvalidPath ''skill extra root'' p ''absolute and lexically normalized'')
      | None \<Rightarrow> Inr paths)"

section \<open>The controller\<close>

text \<open>An operation that sends holds the lock on the state over the request: it is one step.\<close>

record skill_controller =
  sk_extra_roots :: "string list option"
  sk_world :: world

definition skill_controller_new :: "world \<Rightarrow> skill_controller" where
  "skill_controller_new w = \<lparr> sk_extra_roots = None, sk_world = w \<rparr>"

definition roots_call :: "string list \<Rightarrow> rpc_call" where
  "roots_call encoded = Request ''skills/extraRoots/set'' (JObject [(''extraRoots'', JArray (map JString encoded))])"

definition send_extra_roots :: "client \<Rightarrow> string list \<Rightarrow> skill_controller \<Rightarrow> (skill_error + unit) \<times> skill_controller" where
  "send_extra_roots client encoded s =
     (let (a, w) = rpc client (roots_call encoded) (sk_world s); s1 = s\<lparr>sk_world := w\<rparr>
      in case a of
           Inl err \<Rightarrow> (Inl (SkillRequest err), s1)
         | Inr v \<Rightarrow>
             (case de_empty_response v of
                None \<Rightarrow> Inl (SkillInvalidResponse ''skills/extraRoots/set'')
              | Some _ \<Rightarrow> Inr (), s1))"

definition set_extra_roots :: "client \<Rightarrow> string list \<Rightarrow> skill_controller \<Rightarrow> (skill_error + unit) \<times> skill_controller" where
  "set_extra_roots client roots s =
     (case encode_extra_roots roots of
        Inl err \<Rightarrow> (Inl err, s)
      | Inr encoded \<Rightarrow>
          (let (r, s1) = send_extra_roots client encoded s
           in case r of
                Inl err \<Rightarrow> (Inl err, s1)
              | Inr _ \<Rightarrow> (Inr (), s1\<lparr>sk_extra_roots := Some roots\<rparr>)))"

definition reapply_extra_roots :: "client \<Rightarrow> skill_controller \<Rightarrow> (skill_error + bool) \<times> skill_controller" where
  "reapply_extra_roots client s =
     (case sk_extra_roots s of
        None \<Rightarrow> (Inr False, s)
      | Some roots \<Rightarrow>
          (case encode_extra_roots roots of
             Inl err \<Rightarrow> (Inl err, s)
           | Inr encoded \<Rightarrow>
               (let (r, s1) = send_extra_roots client encoded s
                in (case r of Inl err \<Rightarrow> Inl err | Inr _ \<Rightarrow> Inr True, s1))))"

definition skills_list_call :: "string list \<Rightarrow> rpc_call" where
  "skills_list_call cwds =
     Request ''skills/list'' (JObject [(''cwds'', JArray (map JString cwds)), (''forceReload'', JBool True)])"

definition force_refresh :: "client \<Rightarrow> string list \<Rightarrow> skill_controller \<Rightarrow>
    (skill_error + skills_list_response) \<times> skill_controller" where
  "force_refresh client cwds s =
     (let (a, w) = rpc client (skills_list_call cwds) (sk_world s)
      in (case a of
            Inl err \<Rightarrow> Inl (SkillRequest err)
          | Inr v \<Rightarrow>
              (case de_skills_list_response v of None \<Rightarrow> Inl (SkillInvalidResponse ''skills/list'') | Some r \<Rightarrow> Inr r),
          s\<lparr>sk_world := w\<rparr>))"

section \<open>Normal paths\<close>

abbreviation segment :: "string \<Rightarrow> bool" where
  "segment s \<equiv> s \<noteq> [] \<and> CHR ''/'' \<notin> set s"

lemma split_on_nonempty [simp]: "split_on c xs \<noteq> []"
  by (induction xs) (auto split: list.splits)

lemma split_on_free: "s \<in> set (split_on c xs) \<Longrightarrow> c \<notin> set s"
  by (induction xs arbitrary: s) (auto split: list.splits if_splits)

lemma split_on_prefix: "c \<notin> set s \<Longrightarrow> split_on c (s @ c # xs) = s # split_on c xs"
  by (induction s) auto

lemma split_on_alone: "c \<notin> set s \<Longrightarrow> split_on c s = [s]"
  by (induction s) auto

lemma split_join:
  assumes "segs \<noteq> []" and "\<forall>s \<in> set segs. CHR ''/'' \<notin> set s"
  shows "split_on CHR ''/'' (path_join_segments segs) = segs"
  using assms by (induction segs rule: path_join_segments.induct) (simp_all add: split_on_alone split_on_prefix)

lemma segment_end: "CHR ''/'' \<notin> set s \<Longrightarrow> \<not> ends_with s ''/''"
  by (auto simp: prefix_def dest!: arg_cong [where f = set])

lemma join_segment_end: "segment s \<Longrightarrow> path_join base s \<noteq> [] \<and> \<not> ends_with (path_join base s) ''/''"
  using segment_end [of s] by (cases s rule: rev_cases) (auto simp: path_join_def)

lemma collect_segments:
  assumes "\<forall>s \<in> set segs. segment s" and "segs \<noteq> []"
  shows "fold (\<lambda>c p. path_join p c) segs base = path_join base (path_join_segments segs)"
  using assms
proof (induction segs arbitrary: base rule: path_join_segments.induct)
  case (3 s t ss)
  have "fold (\<lambda>c p. path_join p c) (s # t # ss) base = path_join (path_join base s) (path_join_segments (t # ss))"
    using 3 by simp
  also have "\<dots> = path_join base s @ ''/'' @ path_join_segments (t # ss)"
    using join_segment_end [of s base] 3(2) unfolding path_join_def [of "path_join base s"] by simp
  also have "\<dots> = path_join base (path_join_segments (s # t # ss))" by (simp add: path_join_def)
  finally show ?case .
qed simp_all

text \<open>The paths an extra root may be: the root, or segments under it in normal form.\<close>

definition normal_root :: "string \<Rightarrow> bool" where
  "normal_root p \<longleftrightarrow> p = ''/'' \<or>
     (\<exists>segs. segs \<noteq> [] \<and> p = ''/'' @ path_join_segments segs \<and>
        (\<forall>s \<in> set segs. segment s \<and> s \<noteq> ''.'' \<and> s \<noteq> ''..''))"

lemma collect_absolute:
  assumes "\<forall>s \<in> set segs. segment s"
  shows "path_collect (''/'' # segs) = ''/'' @ (if segs = [] then [] else path_join_segments segs)"
  using collect_segments [OF assms, of "''/''"] by (auto simp: path_collect_def path_join_def)

lemma components_absolute:
  "path_components (''/'' @ q) = ''/'' # filter (\<lambda>s. s \<noteq> [] \<and> s \<noteq> ''.'') (split_on CHR ''/'' q)"
  by (simp add: path_components_def path_prefix_def)

lemma valid_root_iff: "valid_root p \<longleftrightarrow> normal_root p"
proof
  assume v: "valid_root p"
  then obtain q where q: "p = ''/'' @ q" by (auto simp: valid_root_def prefix_def)
  let ?segs = "filter (\<lambda>s. s \<noteq> [] \<and> s \<noteq> ''.'') (split_on CHR ''/'' q)"
  have seg: "\<forall>s \<in> set ?segs. segment s" using split_on_free by auto
  have p: "p = ''/'' @ (if ?segs = [] then [] else path_join_segments ?segs)" and dots: "\<forall>s \<in> set ?segs. s \<noteq> ''..''"
    using v unfolding valid_root_def q components_absolute collect_absolute [OF seg]
    by (simp_all add: list_ex_iff) blast
  show "normal_root p"
  proof (cases "?segs = []")
    case True
    with p show ?thesis by (simp add: normal_root_def)
  next
    case False
    have "segment s \<and> s \<noteq> ''.'' \<and> s \<noteq> ''..''" if "s \<in> set ?segs" for s
      using bspec [OF seg that] bspec [OF dots that] that unfolding set_filter by blast
    moreover have "p = ''/'' @ path_join_segments ?segs" using p unfolding if_not_P [OF False] .
    ultimately show ?thesis using False unfolding normal_root_def by blast
  qed
next
  assume "normal_root p"
  then consider "p = ''/''" | segs where "segs \<noteq> []" "p = ''/'' @ path_join_segments segs"
    "\<forall>s \<in> set segs. segment s \<and> s \<noteq> ''.'' \<and> s \<noteq> ''..''" by (auto simp: normal_root_def)
  then show "valid_root p"
  proof cases
    case 1
    then show ?thesis by (simp add: valid_root_def path_components_def path_prefix_def path_collect_def path_join_def)
  next
    case 2
    have "path_components p = ''/'' # segs" unfolding 2(2) components_absolute using 2(1,3)
      by (simp add: split_join filter_id_conv)
    moreover have "path_collect (''/'' # segs) = p" using collect_absolute [of segs] 2 by auto
    ultimately show ?thesis using 2 by (auto simp: valid_root_def list_ex_iff)
  qed
qed


section \<open>The remembered roots\<close>

lemma encode_extra_roots_cases:
  "encode_extra_roots roots =
     (if list_all normal_root roots then Inr roots
      else Inl (SkillInvalidPath ''skill extra root'' (the (find (\<lambda>p. \<not> normal_root p) roots))
        ''absolute and lexically normalized''))"
proof -
  have "find (\<lambda>p. \<not> normal_root p) roots = None \<longleftrightarrow> list_all normal_root roots" by (auto simp: find_None_iff list_all_iff)
  then show ?thesis unfolding encode_extra_roots_def valid_root_iff
    by (cases "find (\<lambda>p. \<not> normal_root p) roots") simp_all
qed

text \<open>The roots a call set, when it was answered as the protocol says.\<close>

fun roots_of :: "rpc_call \<Rightarrow> string list option" where
  "roots_of (Request m (JObject [(k, v)])) =
     (if m = ''skills/extraRoots/set'' \<and> k = ''extraRoots'' then de_list as_str v else None)"
| "roots_of _ = None"

definition accepted :: "request_error + json \<Rightarrow> bool" where
  "accepted a \<longleftrightarrow> (case a of Inl _ \<Rightarrow> False | Inr v \<Rightarrow> de_empty_response v \<noteq> None)"

text \<open>The roots of the last such call in a log of calls, given from its end.\<close>

fun last_acknowledged :: "client \<Rightarrow> rpc_call list \<Rightarrow> string list option" where
  "last_acknowledged client [] = None"
| "last_acknowledged client (c # cs) =
     (if roots_of c \<noteq> None \<and> accepted (snd (client (rev (c # cs)))) then roots_of c else last_acknowledged client cs)"

abbreviation acknowledged :: "client \<Rightarrow> world \<Rightarrow> string list option" where
  "acknowledged client w \<equiv> last_acknowledged client (rev (wd_calls w))"

lemma roots_of_call [simp]: "roots_of (roots_call roots) = Some roots" "roots_of (skills_list_call cwds) = None"
  by (simp_all add: roots_call_def skills_list_call_def de_list_Some list_all2_conv_all_nth)

lemma send_extra_roots_spec:
  assumes "send_extra_roots client roots s = (r, s')"
  shows "wd_calls (sk_world s') = wd_calls (sk_world s) @ [roots_call roots]" and "sk_extra_roots s' = sk_extra_roots s"
    and "r = Inr () \<longleftrightarrow> accepted (snd (client (wd_calls (sk_world s) @ [roots_call roots])))"
    and "acknowledged client (sk_world s') = (if r = Inr () then Some roots else acknowledged client (sk_world s))"
  using assms rpc_simps(1,2) [of client "roots_call roots" "sk_world s"]
  by (auto simp: send_extra_roots_def accepted_def Let_def split_beta split: sum.splits option.splits)

datatype skill_op = SetRoots "string list" | Reapply | ForceRefresh "string list"

fun skill_step :: "client \<Rightarrow> skill_op \<Rightarrow> skill_controller \<Rightarrow> skill_controller" where
  "skill_step client (SetRoots roots) s = snd (set_extra_roots client roots s)"
| "skill_step client Reapply s = snd (reapply_extra_roots client s)"
| "skill_step client (ForceRefresh cwds) s = snd (force_refresh client cwds s)"


lemma skill_step_acknowledged:
  assumes "sk_extra_roots s = acknowledged client (sk_world s)"
  shows "sk_extra_roots (skill_step client x s) = acknowledged client (sk_world (skill_step client x s))"
proof (cases x)
  case (SetRoots roots)
  obtain r s1 where "send_extra_roots client roots s = (r, s1)" by fastforce
  with SetRoots assms send_extra_roots_spec [OF this] show ?thesis
    by (auto simp: set_extra_roots_def encode_extra_roots_cases split: sum.splits)
next
  case Reapply
  show ?thesis
  proof (cases "sk_extra_roots s")
    case (Some roots)
    obtain r s1 where "send_extra_roots client roots s = (r, s1)" by fastforce
    with Reapply Some assms send_extra_roots_spec [OF this] show ?thesis
      by (auto simp: reapply_extra_roots_def encode_extra_roots_cases)
  qed (use Reapply assms in \<open>simp add: reapply_extra_roots_def\<close>)
next
  case (ForceRefresh cwds)
  with assms show ?thesis by (simp add: force_refresh_def rpc_simps Let_def split_beta)
qed

text \<open>C27. The controller remembers exactly what the app-server acknowledged: after any sequence of
  operations of any tasks, the remembered roots are those of the last call that set roots and was
  answered as the protocol says, none if there was no such call.\<close>

theorem roots_remember_last_acknowledged:
  "sk_extra_roots (fold (skill_step client) xs (skill_controller_new (w\<lparr>wd_calls := []\<rparr>))) =
     acknowledged client (sk_world (fold (skill_step client) xs (skill_controller_new (w\<lparr>wd_calls := []\<rparr>))))"
proof (induction xs rule: rev_induct)
  case (snoc x xs)
  with skill_step_acknowledged show ?case by simp
qed (simp add: skill_controller_new_def)

text \<open>Only root sets of absolute paths in normal form reach the app-server: a set with any other
  path is refused before a request is made and leaves the controller as it is; a set that is sent
  is sent once, unchanged, and is remembered exactly when it was acknowledged; a replay sends the
  remembered set, and nothing when none is remembered.\<close>

theorem roots_sent_are_normal:
  "(if list_all normal_root roots
    then wd_calls (sk_world (snd (set_extra_roots client roots s))) = wd_calls (sk_world s) @ [roots_call roots] \<and>
      sk_extra_roots (snd (set_extra_roots client roots s)) =
        (if accepted (snd (client (wd_calls (sk_world s) @ [roots_call roots]))) then Some roots else sk_extra_roots s)
    else snd (set_extra_roots client roots s) = s \<and> (\<exists>p. fst (set_extra_roots client roots s) =
      Inl (SkillInvalidPath ''skill extra root'' p ''absolute and lexically normalized''))) \<and>
   wd_calls (sk_world (snd (reapply_extra_roots client s))) = wd_calls (sk_world s) @
     (case sk_extra_roots s of None \<Rightarrow> [] | Some r \<Rightarrow> if list_all normal_root r then [roots_call r] else [])"
proof -
  have set: "wd_calls (sk_world (snd (set_extra_roots client roots s))) = wd_calls (sk_world s) @ [roots_call roots] \<and>
      sk_extra_roots (snd (set_extra_roots client roots s)) =
        (if accepted (snd (client (wd_calls (sk_world s) @ [roots_call roots]))) then Some roots else sk_extra_roots s)"
    if "list_all normal_root roots"
  proof -
    obtain r s1 where o: "send_extra_roots client roots s = (r, s1)" by fastforce
    with send_extra_roots_spec [OF o] that show ?thesis
      by (cases r) (simp_all add: set_extra_roots_def encode_extra_roots_cases)
  qed
  have "wd_calls (sk_world (snd (reapply_extra_roots client s))) = wd_calls (sk_world s) @
     (case sk_extra_roots s of None \<Rightarrow> [] | Some r \<Rightarrow> if list_all normal_root r then [roots_call r] else [])"
  proof (cases "sk_extra_roots s")
    case (Some roots)
    obtain r s1 where o: "send_extra_roots client roots s = (r, s1)" by fastforce
    with send_extra_roots_spec [OF o] Some show ?thesis by (simp add: reapply_extra_roots_def encode_extra_roots_cases)
  qed (simp add: reapply_extra_roots_def)
  with set show ?thesis by (simp add: set_extra_roots_def encode_extra_roots_cases)
qed

end
