(* ===== verification/Hooks.thy ===== *)
theory Hooks
  imports Serde "HOL-Library.AList"
begin

text \<open>
  The hook management of \<open>src/core/src/hooks.rs\<close>: the typed list of discovered hooks, and the
  one configuration write that trusts exact hashes.
\<close>

section \<open>Answers\<close>

record hook_metadata =
  hm_key :: string
  hm_event_name :: string
  hm_command :: "string option"
  hm_source_path :: string
  hm_enabled :: bool
  hm_current_hash :: string
  hm_trust_status :: string
  hm_execution_mode :: string

record hooks_list_entry =
  he_cwd :: string
  he_hooks :: "hook_metadata list"
  he_warnings :: "string list"
  he_errors :: "json list"

record hooks_list_response =
  hr_data :: "hooks_list_entry list"

record hook_trust_update =
  hu_key :: string
  hu_current_hash :: string

datatype hook_error = HookRequest request_error | HookInvalidResponse string

definition de_hook_metadata :: "hook_metadata decoder" where
  "de_hook_metadata v =
     do { fs \<leftarrow> de_struct 8 v;
          key \<leftarrow> required as_str (field_value fs 0 ''key'');
          event \<leftarrow> required as_str (field_value fs 1 ''eventName'');
          command \<leftarrow> optional as_str fs 2 ''command'';
          source \<leftarrow> required as_str (field_value fs 3 ''sourcePath'');
          enabled \<leftarrow> required as_bool (field_value fs 4 ''enabled'');
          hash \<leftarrow> required as_str (field_value fs 5 ''currentHash'');
          trust \<leftarrow> required as_str (field_value fs 6 ''trustStatus'');
          execution \<leftarrow> defaulted as_str [] (field_value fs 7 ''executionMode'');
          Some \<lparr> hm_key = key, hm_event_name = event, hm_command = command, hm_source_path = source,
            hm_enabled = enabled, hm_current_hash = hash, hm_trust_status = trust, hm_execution_mode = execution \<rparr> }"

definition de_hooks_list_entry :: "hooks_list_entry decoder" where
  "de_hooks_list_entry v =
     do { fs \<leftarrow> de_struct 4 v;
          cwd \<leftarrow> required as_str (field_value fs 0 ''cwd'');
          hooks \<leftarrow> required (de_list de_hook_metadata) (field_value fs 1 ''hooks'');
          warnings \<leftarrow> defaulted (de_list as_str) [] (field_value fs 2 ''warnings'');
          errors \<leftarrow> defaulted as_array [] (field_value fs 3 ''errors'');
          Some \<lparr> he_cwd = cwd, he_hooks = hooks, he_warnings = warnings, he_errors = errors \<rparr> }"

definition de_hooks_list_response :: "hooks_list_response decoder" where
  "de_hooks_list_response v =
     do { fs \<leftarrow> de_struct 1 v;
          entries \<leftarrow> required (de_list de_hooks_list_entry) (field_value fs 0 ''data'');
          Some \<lparr> hr_data = entries \<rparr> }"

section \<open>Operations\<close>

definition hooks_list_call :: "string list \<Rightarrow> rpc_call" where
  "hooks_list_call cwds = Request ''hooks/list'' (JObject [(''cwds'', JArray (map JString cwds))])"

definition list_hooks :: "client \<Rightarrow> string list \<Rightarrow> world \<Rightarrow> (hook_error + hooks_list_response) \<times> world" where
  "list_hooks client cwds w =
     (let (a, w1) = rpc client (hooks_list_call cwds) w
      in (case a of
            Inl err \<Rightarrow> Inl (HookRequest err)
          | Inr v \<Rightarrow>
              (case de_hooks_list_response v of None \<Rightarrow> Inl (HookInvalidResponse ''hooks/list'') | Some r \<Rightarrow> Inr r),
          w1))"

text \<open>Collecting into a map: a later entry of a key takes the place of an earlier one.\<close>

definition trust_values :: "hook_trust_update list \<Rightarrow> (string \<times> json) list" where
  "trust_values updates =
     fold (\<lambda>u m. AList.update (hu_key u) (JObject [(''trusted_hash'', JString (hu_current_hash u))]) m) updates []"

definition trust_call :: "hook_trust_update list \<Rightarrow> rpc_call" where
  "trust_call updates =
     Request ''config/batchWrite''
       (JObject [(''edits'', JArray [JObject [(''keyPath'', JString ''hooks.state''),
                    (''value'', JObject (trust_values updates)), (''mergeStrategy'', JString ''upsert'')]]),
                 (''filePath'', JNull), (''expectedVersion'', JNull), (''reloadUserConfig'', JBool True)])"

definition trust_hooks :: "client \<Rightarrow> hook_trust_update list \<Rightarrow> world \<Rightarrow> (hook_error + unit) \<times> world" where
  "trust_hooks client updates w =
     (let (a, w1) = rpc client (trust_call updates) w
      in (case a of
            Inl err \<Rightarrow> Inl (HookRequest err)
          | Inr v \<Rightarrow>
              (case de_object v of None \<Rightarrow> Inl (HookInvalidResponse ''config/batchWrite'') | Some _ \<Rightarrow> Inr ()),
          w1))"

section \<open>Trust\<close>

lemma trust_values_snoc:
  "map_of (trust_values (us @ [u])) = (map_of (trust_values us))(hu_key u \<mapsto> JObject [(''trusted_hash'', JString (hu_current_hash u))])"
  by (simp add: trust_values_def update_conv')

lemma trust_values_exact:
  "map_of (trust_values us) k =
     map_option (\<lambda>u. JObject [(''trusted_hash'', JString (hu_current_hash u))]) (find (\<lambda>u. hu_key u = k) (rev us))"
proof (induction us rule: rev_induct)
  case (snoc u us)
  then show ?case by (simp add: trust_values_snoc)
qed (simp add: trust_values_def)

lemma trust_values_distinct: "distinct (map fst (trust_values us))"
  by (induction us rule: rev_induct) (simp_all add: trust_values_def distinct_update)

text \<open>Trusting hooks is one configuration write that upserts, for every key named and no other,
  the hash of the key's last update, and its result says whether that write was answered with
  an object.\<close>

theorem trust_writes_named_hashes:
  "\<exists>values. wd_calls (snd (trust_hooks client updates w)) = wd_calls w @ [Request ''config/batchWrite''
      (JObject [(''edits'', JArray [JObject [(''keyPath'', JString ''hooks.state''), (''value'', JObject values),
          (''mergeStrategy'', JString ''upsert'')]]),
        (''filePath'', JNull), (''expectedVersion'', JNull), (''reloadUserConfig'', JBool True)])] \<and>
    distinct (map fst values) \<and>
    (\<lambda>k. map_of values k) = (\<lambda>k. map_option (\<lambda>u. JObject [(''trusted_hash'', JString (hu_current_hash u))])
      (find (\<lambda>u. hu_key u = k) (rev updates))) \<and>
    (fst (trust_hooks client updates w) = Inr () \<longleftrightarrow>
      (\<exists>ms. snd (client (wd_calls w @ [trust_call updates])) = Inr (JObject ms)))"
proof (rule exI [of _ "trust_values updates"], intro conjI)
  have obj: "de_object v \<noteq> None \<longleftrightarrow> (\<exists>ms. v = JObject ms)" for v by (cases v) auto
  show "fst (trust_hooks client updates w) = Inr () \<longleftrightarrow>
      (\<exists>ms. snd (client (wd_calls w @ [trust_call updates])) = Inr (JObject ms))"
    using obj by (auto simp: trust_hooks_def rpc_simps(1) Let_def split_beta split: sum.splits option.splits)
qed (simp_all add: trust_hooks_def trust_call_def rpc_simps Let_def split_beta trust_values_exact trust_values_distinct)

end
