(* ===== verification/Core.thy ===== *)
theory Core
  imports Ingress Control Ingest Requests Supervision Threads Skills Hooks
begin

text \<open>
  The assembly of \<open>src/core/src/lib.rs\<close>: the handle a caller works with, the start and the end of
  a run, and the two background tasks that keep it going, the ingress loop and the task that
  restores a new connection before its gate is opened. The components share the reducer and the
  store; the handle holds them, and an operation of a component runs on the component's own
  state with the shared ones in it.
\<close>

section \<open>Configuration and errors\<close>

record config =
  cf_manage_gui :: bool
  cf_transport :: transport_config
  cf_store :: store_config
  cf_ingest :: ingest_config
  cf_control :: control_config
  cf_replay_capacity :: nat
  cf_lifecycle_capacity :: nat
  cf_delta_capacity :: nat
  cf_supervisor :: supervisor_config

definition config_default :: "string option \<Rightarrow> string \<Rightarrow> config" where
  "config_default home version =
     (let sup = supervisor_config_default home
      in \<lparr> cf_manage_gui = True,
           cf_transport = (transport_config_default home version)\<lparr>tc_socket_path := sc_socket_path sup\<rparr>,
           cf_store = store_config_default, cf_ingest = ingest_config_default, cf_control = control_config_default,
           cf_replay_capacity = 4096, cf_lifecycle_capacity = 1024, cf_delta_capacity = 2048,
           cf_supervisor = sup \<rparr>)"

datatype core_error =
    ErrSupervisor supervisor_error
  | ErrIngest ingest_error
  | IngressAlreadyTaken
  | ErrTransport request_error

section \<open>The handle\<close>

text \<open>
  \<open>h_signal\<close> is the value of the shutdown channel. The stateless controllers of hooks and threads
  share one record of calls.
\<close>

record handle =
  h_transport :: transport
  h_reducer :: reducer
  h_store :: event_store
  h_ingestor :: ingestor
  h_controller :: controller
  h_skills :: skill_controller
  h_world :: world
  h_signal :: bool
  h_stopped :: bool
  h_supervision :: "supervision_state option"

definition with_ingestor :: "(ingestor \<Rightarrow> ('a \<times> ingestor) option) \<Rightarrow> handle \<Rightarrow> ('a \<times> handle) option" where
  "with_ingestor f h =
     (let ig = h_ingestor h
      in map_option (\<lambda>(a, ig'). (a, h\<lparr>h_ingestor := ig', h_reducer := in_reducer ig',
            h_store := unwrap_or (in_store ig') (h_store h)\<rparr>))
           (f (ig\<lparr>in_store := Some (h_store h), in_world := (in_world ig)\<lparr>wd_reducer := h_reducer h\<rparr>\<rparr>)))"

definition with_controller :: "(controller \<Rightarrow> ('a \<times> controller) option) \<Rightarrow> handle \<Rightarrow> ('a \<times> handle) option" where
  "with_controller f h =
     (let c = h_controller h
      in map_option (\<lambda>(a, c'). (a, h\<lparr>h_controller := c', h_reducer := ct_reducer c'\<rparr>))
           (f (c\<lparr>ct_world := (ct_world c)\<lparr>wd_reducer := h_reducer h\<rparr>\<rparr>)))"

definition with_skills :: "(skill_controller \<Rightarrow> 'a \<times> skill_controller) \<Rightarrow> handle \<Rightarrow> 'a \<times> handle" where
  "with_skills f h =
     (let s = h_skills h; (a, s') = f (s\<lparr>sk_world := (sk_world s)\<lparr>wd_reducer := h_reducer h\<rparr>\<rparr>)
      in (a, h\<lparr>h_skills := s', h_reducer := wd_reducer (sk_world s')\<rparr>))"

definition with_world :: "(world \<Rightarrow> 'a \<times> world) \<Rightarrow> handle \<Rightarrow> 'a \<times> handle" where
  "with_world f h =
     (let (a, w) = f ((h_world h)\<lparr>wd_reducer := h_reducer h\<rparr>) in (a, h\<lparr>h_world := w, h_reducer := wd_reducer w\<rparr>))"

subsection \<open>Reading\<close>

definition handle_lifecycle :: "sequence \<Rightarrow> handle \<Rightarrow> lifecycle_stream" where
  "handle_lifecycle after h = lifecycle after"

definition handle_deltas :: "handle \<Rightarrow> delta_stream" where
  "handle_deltas h = deltas_new"

definition handle_events_since :: "sequence \<Rightarrow> handle \<Rightarrow> replay_result" where
  "handle_events_since after h = events_since after (h_reducer h)"

definition handle_snapshot :: "handle \<Rightarrow> snapshot" where
  "handle_snapshot h = rd_snapshot (h_reducer h)"

definition handle_query_sequence :: "string option \<Rightarrow> sequence \<Rightarrow> sequence option \<Rightarrow> handle \<Rightarrow> query_result" where
  "handle_query_sequence thread after through h = query_sequence thread after through (h_store h)"

definition handle_query_time :: "string option \<Rightarrow> u64 \<Rightarrow> u64 \<Rightarrow> handle \<Rightarrow> query_result" where
  "handle_query_time thread start_ms end_ms h = query_time thread start_ms end_ms (h_store h)"

definition handle_health :: "handle \<Rightarrow> health" where
  "handle_health h = tr_health (h_transport h)"

definition handle_subscription_states :: "handle \<Rightarrow> string \<rightharpoonup> subscription_state" where
  "handle_subscription_states h = in_states (h_ingestor h)"

subsection \<open>Acting\<close>

definition handle_interrupt :: "control_env \<Rightarrow> string \<Rightarrow> string \<Rightarrow> handle \<Rightarrow> (action_outcome \<times> handle) option" where
  "handle_interrupt env thread turn = with_controller (interrupt env thread turn)"

definition handle_steer :: "control_env \<Rightarrow> string \<Rightarrow> string \<Rightarrow> json list \<Rightarrow> handle \<Rightarrow> (action_outcome \<times> handle) option" where
  "handle_steer env thread turn input = with_controller (steer env thread turn input)"

definition handle_start :: "control_env \<Rightarrow> string \<Rightarrow> json list \<Rightarrow> handle \<Rightarrow> (action_outcome \<times> handle) option" where
  "handle_start env thread input = with_controller (\<lambda>c. Some (start env thread input c))"

definition handle_list_hooks :: "client \<Rightarrow> string list \<Rightarrow> handle \<Rightarrow> (hook_error + hooks_list_response) \<times> handle" where
  "handle_list_hooks client cwds = with_world (list_hooks client cwds)"

definition handle_trust_hooks :: "client \<Rightarrow> hook_trust_update list \<Rightarrow> handle \<Rightarrow> (hook_error + unit) \<times> handle" where
  "handle_trust_hooks client updates = with_world (trust_hooks client updates)"

definition handle_set_skill_extra_roots :: "client \<Rightarrow> string list \<Rightarrow> handle \<Rightarrow> (skill_error + unit) \<times> handle" where
  "handle_set_skill_extra_roots client roots = with_skills (set_extra_roots client roots)"

definition handle_force_refresh_skills :: "client \<Rightarrow> string list \<Rightarrow> handle \<Rightarrow> (skill_error + skills_list_response) \<times> handle" where
  "handle_force_refresh_skills client cwds = with_skills (force_refresh client cwds)"

definition handle_list_threads :: "client \<Rightarrow> handle \<Rightarrow> ((thread_list_error + listed_thread list) \<times> handle) option" where
  "handle_list_threads client h =
     map_option (\<lambda>(a, w). (a, h\<lparr>h_world := w, h_reducer := wd_reducer w\<rparr>))
       (list_all_threads client ((h_world h)\<lparr>wd_reducer := h_reducer h\<rparr>))"

definition handle_read_thread :: "client \<Rightarrow> string \<Rightarrow> handle \<Rightarrow> (thread_read_error + read_thread) \<times> handle" where
  "handle_read_thread client tid = with_world (read_thread_op client tid)"

definition handle_observe_thread :: "ingest_env \<Rightarrow> string \<Rightarrow> handle \<Rightarrow> (discovery_outcome \<times> handle) option" where
  "handle_observe_thread env tid = with_ingestor (discover env tid SourceReconciliation)"

subsection \<open>Shutting down\<close>

text \<open>
  The first shutdown sends the signal, unsubscribes and sends the transport its command; any
  other does nothing. The transport's own steps follow.
\<close>

definition handle_shutdown :: "ingest_env \<Rightarrow> handle \<Rightarrow> handle option" where
  "handle_shutdown env h =
     (if h_stopped h then Some h
      else map_option (\<lambda>(_, h1). h1\<lparr>h_transport := shutdown_begin (h_transport h1)\<rparr>)
             (with_ingestor (\<lambda>ig. map_option (Pair ()) (unsubscribe_all_best_effort env ig))
               (h\<lparr>h_stopped := True, h_signal := True\<rparr>)))"

text \<open>The guard's drop; a runtime is there unless the program is leaving it.\<close>

definition guard_drop :: "bool \<Rightarrow> ingest_env \<Rightarrow> handle \<Rightarrow> handle option" where
  "guard_drop runtime env h =
     (if h_stopped h then Some h else if runtime then handle_shutdown env h else Some h)"

section \<open>Background tasks\<close>

text \<open>
  A change of the shutdown channel: \<open>None\<close> when its sender is gone, else its new value. The task
  stops in the first case and when the value is true.
\<close>

definition stops :: "bool option \<Rightarrow> bool" where
  "stops v \<longleftrightarrow> v = None \<or> v = Some True"

text \<open>
  The ingress task: it processes an event and starts a task of its own for a signal of
  discovery. The tasks started are kept in order.
\<close>

datatype ingress_input = IngressShutdown "bool option" | IngressReceived "sequenced_event option"

record ingress_task =
  it_ingress :: ingress
  it_signals :: "sequenced_event list"
  it_running :: bool

definition ingress_task_new :: "ingress \<Rightarrow> ingress_task" where
  "ingress_task_new ig = \<lparr> it_ingress = ig, it_signals = [], it_running = True \<rparr>"

definition is_signal :: "sequenced_event \<Rightarrow> bool" where
  "is_signal e \<longleftrightarrow> ev_method e = Some ''thread/started'' \<or> ev_method e = Some ''thread/status/changed''"

definition ingress_task_step :: "encoder \<Rightarrow> key_order \<Rightarrow> ingress_input \<Rightarrow> ingress_task \<Rightarrow> ingress_task option" where
  "ingress_task_step tv order x t =
     (if \<not> it_running t then None
      else case x of
             IngressShutdown v \<Rightarrow> Some (if stops v then t\<lparr>it_running := False\<rparr> else t)
           | IngressReceived None \<Rightarrow> Some (t\<lparr>it_running := False\<rparr>)
           | IngressReceived (Some e) \<Rightarrow>
               map_option (\<lambda>ig. t\<lparr>it_ingress := ig, it_signals := it_signals t @ (if is_signal e then [e] else [])\<rparr>)
                 (process tv order e (it_ingress t)))"

fun ingress_task_run :: "encoder \<Rightarrow> key_order \<Rightarrow> ingress_input list \<Rightarrow> ingress_task \<Rightarrow> ingress_task option" where
  "ingress_task_run tv order [] t = Some t"
| "ingress_task_run tv order (x # xs) t = Option.bind (ingress_task_step tv order x t) (ingress_task_run tv order xs)"

text \<open>
  The reconnect task. It waits for a change of the health; when the phase is reconciling and the
  gate is closed it enters a loop that looks at both again, reconciles, replays the skill roots
  and then has the gate opened, or sleeps and tries again with twice the delay, at most 2 s. An
  attempt runs in the environment of the connection of its time. \<open>rc_marks\<close> counts the calls of
  \<open>mark_reconciled\<close>.
\<close>

datatype reconnect_mode = RcWaiting | RcRetrying duration | RcSleeping duration | RcStopped

datatype reconnect_input =
    RcShutdown "bool option"
  | RcHealth "(connection_phase \<times> bool) option"
  | RcAttempt connection_phase bool ingest_env client
  | RcSlept

record reconnect =
  rc_mode :: reconnect_mode
  rc_ingestor :: ingestor
  rc_skills :: skill_controller
  rc_marks :: nat

definition reconnect_new :: "ingestor \<Rightarrow> skill_controller \<Rightarrow> reconnect" where
  "reconnect_new ig sk = \<lparr> rc_mode = RcWaiting, rc_ingestor = ig, rc_skills = sk, rc_marks = 0 \<rparr>"

definition must_restore :: "connection_phase \<Rightarrow> bool \<Rightarrow> bool" where
  "must_restore phase reconciled \<longleftrightarrow> phase = Reconciling \<and> \<not> reconciled"

definition next_retry :: "duration \<Rightarrow> duration" where
  "next_retry d = min (d * 2) (from_secs 2)"

text \<open>One attempt: whether everything was restored; \<open>None\<close> where it does not return.\<close>

definition restore :: "ingest_env \<Rightarrow> client \<Rightarrow> reconnect \<Rightarrow> (bool \<times> reconnect) option" where
  "restore env client s =
     (case reconcile env (rc_ingestor s) of
        None \<Rightarrow> None
      | Some (Inl _, ig) \<Rightarrow> Some (False, s\<lparr>rc_ingestor := ig\<rparr>)
      | Some (Inr _, ig) \<Rightarrow>
          (let (r, sk) = reapply_extra_roots client (rc_skills s)
           in Some (case r of Inr _ \<Rightarrow> True | Inl _ \<Rightarrow> False, s\<lparr>rc_ingestor := ig, rc_skills := sk\<rparr>)))"

definition reconnect_step :: "reconnect_input \<Rightarrow> reconnect \<Rightarrow> reconnect option" where
  "reconnect_step x s =
     (case (rc_mode s, x) of
        (RcWaiting, RcShutdown v) \<Rightarrow> Some (if stops v then s\<lparr>rc_mode := RcStopped\<rparr> else s)
      | (RcWaiting, RcHealth None) \<Rightarrow> Some (s\<lparr>rc_mode := RcStopped\<rparr>)
      | (RcWaiting, RcHealth (Some (phase, reconciled))) \<Rightarrow>
          Some (if must_restore phase reconciled then s\<lparr>rc_mode := RcRetrying (from_millis 50)\<rparr> else s)
      | (RcRetrying d, RcAttempt phase reconciled env client) \<Rightarrow>
          if \<not> must_restore phase reconciled then Some (s\<lparr>rc_mode := RcWaiting\<rparr>)
          else map_option (\<lambda>(restored, s1).
                 if restored then s1\<lparr>rc_mode := RcWaiting, rc_marks := Suc (rc_marks s1)\<rparr>
                 else s1\<lparr>rc_mode := RcSleeping d\<rparr>) (restore env client s)
      | (RcSleeping d, RcShutdown v) \<Rightarrow>
          Some (s\<lparr>rc_mode := if stops v then RcStopped else RcRetrying (next_retry d)\<rparr>)
      | (RcSleeping d, RcSlept) \<Rightarrow> Some (s\<lparr>rc_mode := RcRetrying (next_retry d)\<rparr>)
      | _ \<Rightarrow> None)"

fun reconnect_run :: "reconnect_input list \<Rightarrow> reconnect \<Rightarrow> reconnect option" where
  "reconnect_run [] s = Some s"
| "reconnect_run (x # xs) s = Option.bind (reconnect_step x s) (reconnect_run xs)"

section \<open>A run\<close>

text \<open>
  What a run meets: the process operations and the clock, the ingest environment of the first
  reconciliation with the steps of the transport until it is over, its steps until
  \<open>mark_reconciled\<close> has its answer, and whether a runtime is there when the guard is dropped.
\<close>

record run_env =
  re_ops :: process_ops
  re_now :: duration
  re_ingest :: ingest_env
  re_transport :: transport_env
  re_before_mark :: "transport_input list"
  re_until_marked :: "transport_input list"
  re_cleanup :: ingest_env
  re_runtime :: bool

datatype started = StartFailed core_error "transport option" | Running handle

definition start_supervision :: "run_env \<Rightarrow> config \<Rightarrow> supervisor_error + supervision_state option" where
  "start_supervision env cf =
     (if cf_manage_gui cf then map_sum id Some (fst (supervisor_initialize (re_ops env) (supervisor_new (cf_supervisor cf) (re_now env))))
      else Inr None)"

definition run_start_with :: "run_env \<Rightarrow> config \<Rightarrow> supervision_state option \<Rightarrow> reducer \<Rightarrow> transport \<Rightarrow> started option" where
  "run_start_with env cf supervised r t =
     (let st = store_new (cf_store cf) (re_now env)
      in case transport_run (re_transport env) (re_before_mark env) t of
           None \<Rightarrow> None
         | Some t1 \<Rightarrow>
             (case reconcile (re_ingest env) (with_store st (ingestor_new r (cf_ingest cf))) of
                None \<Rightarrow> None
              | Some (Inl err, _) \<Rightarrow> Some (StartFailed (ErrIngest err) (Some (shutdown_begin t1)))
              | Some (Inr _, ig) \<Rightarrow>
                  Option.bind (transport_run (re_transport env) (re_until_marked env) (mark_reconciled t1))
                    (\<lambda>t2. case map_of (tr_resolved t2) (tr_next_channel t1) of
                        None \<Rightarrow> None
                      | Some answer \<Rightarrow>
                          (let r2 = in_reducer ig; w = \<lparr> wd_reducer = r2, wd_calls = [], wd_activity = [] \<rparr>
                           in Some (if answer \<noteq> Done then StartFailed (ErrTransport RequestClosed) (Some t2)
                                else Running \<lparr> h_transport = t2, h_reducer = r2, h_store = unwrap_or (in_store ig) st,
                                       h_ingestor = ig, h_controller = controller_new r2 (cf_control cf),
                                       h_skills = skill_controller_new w, h_world = w, h_signal = False, h_stopped = False,
                                       h_supervision = supervised \<rparr>)))))"

definition run_start :: "run_env \<Rightarrow> config \<Rightarrow> started option" where
  "run_start env cf =
     (case start_supervision env cf of
        Inl err \<Rightarrow> Some (StartFailed (ErrSupervisor err) None)
      | Inr supervised \<Rightarrow>
          (let (taken, t) = take_ingress (transport_spawn (cf_transport cf))
           in if \<not> taken then Some (StartFailed IngressAlreadyTaken (Some t))
              else if cf_lifecycle_capacity cf = 0 \<or> cf_delta_capacity cf = 0 then None
              else Option.bind (reducer_new (cf_replay_capacity cf)) (\<lambda>r. run_start_with env cf supervised r t)))"

text \<open>
  The monitor a run starts before its operation, of a supervisor with the same configuration; what
  the processes answered until then is part of its history. The receiver of its events is dropped:
  nothing of the run depends on them.
\<close>

definition run_monitor :: "run_env \<Rightarrow> config \<Rightarrow> monitor option" where
  "run_monitor env cf =
     (if cf_manage_gui cf
      then Some (monitor_start (snd (supervisor_initialize (re_ops env) (supervisor_new (cf_supervisor cf) (re_now env)))))
      else None)"

text \<open>
  The operation gets the handle and gives its result with what became of the handle; then the
  handle is shut down and the guard dropped. \<open>None\<close> where something panics or never returns.
\<close>

definition core_run :: "run_env \<Rightarrow> config \<Rightarrow> (handle \<Rightarrow> ('r \<times> handle) option) \<Rightarrow> ((core_error + 'r) \<times> handle option) option" where
  "core_run env cf operation =
     (case run_start env cf of
        None \<Rightarrow> None
      | Some (StartFailed err _) \<Rightarrow> Some (Inl err, None)
      | Some (Running h) \<Rightarrow>
          (case operation h of
             None \<Rightarrow> None
           | Some (result, h1) \<Rightarrow>
               map_option (\<lambda>h2. (Inr result, Some h2))
                 (Option.bind (handle_shutdown (re_cleanup env) h1) (guard_drop (re_runtime env) (re_cleanup env)))))"

interpretation corun: stepwise_run "ingress_task_step tv order" "ingress_task_run tv order" for tv order
  by unfold_locales simp_all

interpretation rcrun: stepwise_run reconnect_step reconnect_run
  by unfold_locales simp_all

end
