(* ===== verification/Processes.thy ===== *)
theory Processes
  imports Supervision
begin

text \<open>
  The supervisor on the machine: the operations of \<open>RealProcessOps\<close> in
  \<open>src/supervisor/src/lib.rs\<close> as the commands they run, over an operating system that is an
  argument, and what the supervisor can have run on it. Output is bytes that
  \<open>String::from_utf8_lossy\<close> turns into text.
\<close>

section \<open>UTF-8\<close>

definition byte :: "char \<Rightarrow> nat" where
  "byte c = of_char c"

text \<open>The byte at a position, \<open>0\<close> past the end, as the decoder of the standard library reads it.\<close>

definition byte_at :: "string \<Rightarrow> nat \<Rightarrow> nat" where
  "byte_at s i = (if i < length s then byte (s ! i) else 0)"

definition continuation :: "nat \<Rightarrow> bool" where
  "continuation b \<longleftrightarrow> 0x80 \<le> b \<and> b \<le> 0xBF"

text \<open>The second byte a lead byte of a sequence of three or four allows.\<close>

definition second_of_three :: "nat \<Rightarrow> nat \<Rightarrow> bool" where
  "second_of_three a b \<longleftrightarrow>
     (if a = 0xE0 then 0xA0 \<le> b \<and> b \<le> 0xBF else if a = 0xED then 0x80 \<le> b \<and> b \<le> 0x9F else continuation b)"

definition second_of_four :: "nat \<Rightarrow> nat \<Rightarrow> bool" where
  "second_of_four a b \<longleftrightarrow>
     (if a = 0xF0 then 0x90 \<le> b \<and> b \<le> 0xBF else if a = 0xF4 then 0x80 \<le> b \<and> b \<le> 0x8F else continuation b)"

text \<open>The first chunk of a text: its length and whether it is a character.\<close>

definition utf8_chunk :: "string \<Rightarrow> nat \<times> bool" where
  "utf8_chunk s =
     (let a = byte_at s 0; b = byte_at s 1; c = byte_at s 2; d = byte_at s 3
      in if a < 0x80 then (1, True)
         else if 0xC2 \<le> a \<and> a \<le> 0xDF then (if continuation b then (2, True) else (1, False))
         else if 0xE0 \<le> a \<and> a \<le> 0xEF then
           (if \<not> second_of_three a b then (1, False) else if continuation c then (3, True) else (2, False))
         else if 0xF0 \<le> a \<and> a \<le> 0xF4 then
           (if \<not> second_of_four a b then (1, False) else if \<not> continuation c then (2, False)
            else if continuation d then (4, True) else (3, False))
         else (1, False))"

lemma chunk_pos: "0 < fst (utf8_chunk s)"
  by (simp add: utf8_chunk_def Let_def)

lemma chunk_drop: "(n, ok) = utf8_chunk s \<Longrightarrow> s \<noteq> [] \<Longrightarrow> length s - n < length s"
  using chunk_pos [of s] by (metis diff_less fst_conv length_greater_0_conv)

definition replacement_character :: string where
  "replacement_character = [CHR 0xEF, CHR 0xBF, CHR 0xBD]"

function from_utf8_lossy :: "string \<Rightarrow> string" where
  "from_utf8_lossy s =
     (if s = [] then []
      else (let (n, ok) = utf8_chunk s
            in (if ok then take n s else replacement_character) @ from_utf8_lossy (drop n s)))"
  by pat_completeness auto
termination
  by (relation "measure length") (auto dest: chunk_drop)

declare from_utf8_lossy.simps [simp del]

function valid_utf8 :: "string \<Rightarrow> bool" where
  "valid_utf8 s = (if s = [] then True else (let (n, ok) = utf8_chunk s in if ok then valid_utf8 (drop n s) else False))"
  by pat_completeness auto
termination
  by (relation "measure length") (auto dest: chunk_drop)

declare valid_utf8.simps [simp del]

lemma valid_utf8_Nil [simp]: "valid_utf8 []"
  by (simp add: valid_utf8.simps)

text \<open>A whole character stays the first chunk whatever follows it.\<close>

lemma byte_at_take: "byte_at (take n s @ r) i = (if i < n \<and> i < length s then byte_at s i else byte_at (take n s @ r) i)"
  by (auto simp: byte_at_def nth_append)

lemma byte_at_beyond: "\<not> i < length s \<Longrightarrow> byte_at s i = 0"
  by (simp add: byte_at_def)

lemma chunk_within:
  assumes "s \<noteq> []"
  shows "fst (utf8_chunk s) \<le> length s"
proof -
  have pos: "0 < length s" using assms by simp
  have h: "i < length s" if "continuation (byte_at s i) \<or> second_of_three a (byte_at s i) \<or> second_of_four a (byte_at s i)" for i a
    using that by (rule contrapos_pp) (auto simp: byte_at_beyond continuation_def second_of_three_def second_of_four_def)
  have "continuation (byte_at s i) \<Longrightarrow> i < length s" "second_of_three (byte_at s 0) (byte_at s i) \<Longrightarrow> i < length s"
    "second_of_four (byte_at s 0) (byte_at s i) \<Longrightarrow> i < length s" for i using h by blast+
  from this(1) [of 1] this(1) [of 2] this(1) [of 3] this(2) [of 1] this(3) [of 1]
  have hs: "continuation (byte_at s 1) \<Longrightarrow> 2 \<le> length s" "continuation (byte_at s 2) \<Longrightarrow> 3 \<le> length s"
    "continuation (byte_at s 3) \<Longrightarrow> 4 \<le> length s" "second_of_three (byte_at s 0) (byte_at s 1) \<Longrightarrow> 2 \<le> length s"
    "second_of_four (byte_at s 0) (byte_at s 1) \<Longrightarrow> 2 \<le> length s" by linarith+
  have "1 \<le> length s" using pos by linarith
  with hs show ?thesis unfolding utf8_chunk_def Let_def
    by (simp only: fst_conv prod.case split: if_split) blast
qed

lemma chunk_prefix:
  assumes "utf8_chunk s = (n, True)" and "s \<noteq> []"
  shows "utf8_chunk (take n s @ r) = (n, True)"
proof -
  have n: "n \<le> length s" using chunk_within [OF assms(2)] assms(1) by simp
  have b: "byte_at (take n s @ r) i = byte_at s i" if "i < n" for i
    using that n by (simp add: byte_at_def nth_append)
  from assms(1) consider "n = 1" | "n = 2" | "n = 3" | "n = 4" by (auto simp: utf8_chunk_def Let_def split: if_splits)
  then show ?thesis
    by cases (use assms(1) b [of 0] b [of 1] b [of 2] b [of 3] in \<open>auto simp: utf8_chunk_def Let_def split: if_splits\<close>)
qed

lemma chunk_replacement: "utf8_chunk (replacement_character @ r) = (3, True)"
  by (simp add: utf8_chunk_def replacement_character_def byte_at_def byte_def second_of_three_def continuation_def Let_def)

lemma valid_utf8_step:
  assumes "utf8_chunk (p @ r) = (length p, True)" and "valid_utf8 r" and "p \<noteq> []"
  shows "valid_utf8 (p @ r)"
  using assms by (subst valid_utf8.simps) simp

lemma lossy_valid: "valid_utf8 (from_utf8_lossy s)"
proof (induction s rule: from_utf8_lossy.induct)
  case (1 s)
  show ?case
  proof (cases "s = []")
    case False
    obtain n ok where c: "utf8_chunk s = (n, ok)" by fastforce
    have n: "0 < n" "n \<le> length s" using chunk_pos [of s] chunk_within [OF False] c by simp_all
    note IH = "1.IH" [OF False c [symmetric] refl]
    show ?thesis
    proof (cases ok)
      case True
      have "utf8_chunk (take n s @ from_utf8_lossy (drop n s)) = (length (take n s), True)"
        using chunk_prefix [of s n] c True False n(2) by simp
      from valid_utf8_step [OF this IH] n False c True show ?thesis by (subst from_utf8_lossy.simps) simp
    next
      case bad: False
      have "utf8_chunk (replacement_character @ from_utf8_lossy (drop n s)) = (length replacement_character, True)"
        by (simp add: chunk_replacement) (simp add: replacement_character_def)
      from valid_utf8_step [OF this IH] False c bad show ?thesis
        by (subst from_utf8_lossy.simps) (simp add: replacement_character_def)
    qed
  qed (simp add: from_utf8_lossy.simps)
qed

lemma lossy_id: "valid_utf8 s \<Longrightarrow> from_utf8_lossy s = s"
proof (induction s rule: from_utf8_lossy.induct)
  case (1 s)
  then show ?case
    by (cases "s = []") (auto simp: from_utf8_lossy.simps [of s] valid_utf8.simps [of s] from_utf8_lossy.simps [of "[]"] split: prod.splits if_splits)
qed

section \<open>Commands\<close>

datatype stdio = StdioNull

text \<open>A command as its builder leaves it; what is not set is the library's default.\<close>

record os_command =
  cm_program :: string
  cm_args :: "string list"
  cm_env :: "(string \<times> string) list"
  cm_stdin :: "stdio option"
  cm_stdout :: "stdio option"
  cm_stderr :: "stdio option"
  cm_process_group :: "int option"

definition command_new :: "string \<Rightarrow> string list \<Rightarrow> os_command" where
  "command_new program args =
     \<lparr> cm_program = program, cm_args = args, cm_env = [], cm_stdin = None, cm_stdout = None, cm_stderr = None,
       cm_process_group = None \<rparr>"

definition child_command :: "string \<Rightarrow> string list \<Rightarrow> (string \<times> string) list \<Rightarrow> os_command" where
  "child_command program args env =
     (fold (\<lambda>kv c. c\<lparr>cm_env := cm_env c @ [kv]\<rparr>) env
        ((command_new program args)\<lparr>cm_stdin := Some StdioNull, cm_stdout := Some StdioNull, cm_stderr := Some StdioNull\<rparr>))
       \<lparr>cm_process_group := Some 0\<rparr>"

record os_output =
  ou_success :: bool
  ou_stdout :: string
  ou_stderr :: string

datatype os_call = OsMetadata string | OsOutput os_command | OsSpawn os_command | OsSleep duration

text \<open>
  The operating system: what a call gives as a function of all calls made so far, its own
  included, and the time it takes. The code is compiled for Unix.
\<close>

record os =
  os_metadata :: "os_call list \<Rightarrow> bool"
  os_output :: "os_call list \<Rightarrow> string + os_output"
  os_spawn :: "os_call list \<Rightarrow> string + unit"
  os_elapsed :: "os_call list \<Rightarrow> duration"

section \<open>The real operations\<close>

definition ps_command :: os_command where
  "ps_command = command_new ''/bin/ps'' [''eww'', ''-axo'', ''pid=,command='']"

definition real_ps_environment :: "string + os_output \<Rightarrow> string + string" where
  "real_ps_environment result =
     (case result of
        Inl e \<Rightarrow> Inl e
      | Inr out \<Rightarrow> if \<not> ou_success out then Inl (from_utf8_lossy (ou_stderr out)) else Inr (from_utf8_lossy (ou_stdout out)))"

definition lsof_command :: "string \<Rightarrow> os_command" where
  "lsof_command socket = command_new ''/usr/sbin/lsof'' [''-n'', socket]"

definition real_socket_users :: "string + os_output \<Rightarrow> string + string" where
  "real_socket_users result =
     (case result of
        Inl e \<Rightarrow> Inl e
      | Inr out \<Rightarrow> if \<not> ou_success out then Inr [] else Inr (from_utf8_lossy (ou_stdout out)))"

definition real_output :: "string + os_output \<Rightarrow> string + command_output" where
  "real_output result =
     (case result of
        Inl e \<Rightarrow> Inl e
      | Inr out \<Rightarrow>
          Inr \<lparr> co_success = ou_success out, co_stdout = trim (from_utf8_lossy (ou_stdout out)),
                co_stderr = trim (from_utf8_lossy (ou_stderr out)) \<rparr>)"

definition quit_command :: os_command where
  "quit_command = command_new ''/usr/bin/osascript''
     [''-e'', ''tell application '' @ [CHR 0x22] @ ''ChatGPT'' @ [CHR 0x22] @ '' to quit'']"

definition real_graceful_quit :: "string + os_output \<Rightarrow> string + unit" where
  "real_graceful_quit result =
     (case result of
        Inl e \<Rightarrow> Inl e
      | Inr out \<Rightarrow> if ou_success out then Inr () else Inl (from_utf8_lossy (ou_stderr out)))"

text \<open>The call each operation makes.\<close>

fun real_call :: "proc_call \<Rightarrow> os_call" where
  "real_call (CallExists p) = OsMetadata p"
| "real_call CallPs = OsOutput ps_command"
| "real_call (CallSocketUsers socket) = OsOutput (lsof_command socket)"
| "real_call (CallOutput program args) = OsOutput (command_new program args)"
| "real_call (CallSpawn program args env) = OsSpawn (child_command program args env)"
| "real_call CallQuit = OsOutput quit_command"
| "real_call (CallSleep d) = OsSleep d"

definition real_process_ops :: "os \<Rightarrow> process_ops" where
  "real_process_ops os =
     \<lparr> po_exists = (\<lambda>calls. os_metadata os (map real_call calls)),
       po_ps = (\<lambda>calls. real_ps_environment (os_output os (map real_call calls))),
       po_socket_users = (\<lambda>calls. real_socket_users (os_output os (map real_call calls))),
       po_output = (\<lambda>calls. real_output (os_output os (map real_call calls))),
       po_spawn = (\<lambda>calls. os_spawn os (map real_call calls)),
       po_quit = (\<lambda>calls. real_graceful_quit (os_output os (map real_call calls))),
       po_elapsed = (\<lambda>calls. os_elapsed os (map real_call calls)) \<rparr>"

section \<open>The calls of the supervisor\<close>

definition known_call :: "supervisor_config \<Rightarrow> proc_call \<Rightarrow> bool" where
  "known_call cfg c \<longleftrightarrow>
     (case c of
        CallExists p \<Rightarrow> p \<in> {sc_standalone_codex cfg, sc_gui_executable cfg}
      | CallPs \<Rightarrow> True
      | CallSocketUsers p \<Rightarrow> p = sc_socket_path cfg
      | CallOutput p args \<Rightarrow> p = sc_standalone_codex cfg \<and> args = [''app-server'', ''daemon'', ''version'']
      | CallSpawn p args env \<Rightarrow> CallSpawn p args env \<in> {daemon_start_call cfg, gui_open_call cfg}
      | CallQuit \<Rightarrow> True
      | CallSleep d \<Rightarrow> True)"

text \<open>From one state to another by known calls only.\<close>

definition keeps :: "supervisor \<Rightarrow> supervisor \<Rightarrow> bool" where
  "keeps s t \<longleftrightarrow> sv_config t = sv_config s \<and> (\<exists>cs. sv_calls t = sv_calls s @ cs \<and> list_all (known_call (sv_config s)) cs)"

lemma keeps_refl [simp]: "keeps s s"
  by (simp add: keeps_def)

lemma keeps_trans: "keeps s t \<Longrightarrow> keeps t u \<Longrightarrow> keeps s u"
  by (auto simp: keeps_def)

lemma keeps_call: "known_call (sv_config s) c \<Longrightarrow> keeps s (call ops c s)"
  by (simp add: keeps_def)

lemma keeps_config: "keeps s t \<Longrightarrow> sv_config t = sv_config s"
  by (simp add: keeps_def)

lemma keeps_ops:
  "ps_environment ops s = (r, t) \<Longrightarrow> keeps s t"
  "path_exists ops (sc_standalone_codex (sv_config s)) s = (b, t) \<Longrightarrow> keeps s t"
  "path_exists ops (sc_gui_executable (sv_config s)) s = (b, t) \<Longrightarrow> keeps s t"
  "run_output ops (sc_standalone_codex (sv_config s)) [''app-server'', ''daemon'', ''version''] s = (v, t) \<Longrightarrow> keeps s t"
  "graceful_quit_chatgpt ops s = (w, t) \<Longrightarrow> keeps s t"
  "launch_gui ops s = (w, t) \<Longrightarrow> keeps s t"
  "start_daemon ops s = (w, t) \<Longrightarrow> keeps s t"
  "gui_attached ops ps s = (a, t) \<Longrightarrow> keeps s t"
  "keeps s (sleep_100ms ops s)"
  by (auto simp: proc_op_defs launch_gui_def start_daemon_def gui_attached_def known_call_def intro!: keeps_call split: if_splits)

lemma keeps_version_loop: "version_loop ops deadline detail s = (r, t) \<Longrightarrow> keeps s t"
proof (induction ops deadline detail s arbitrary: r t rule: version_loop.induct)
  case (1 ops deadline detail s)
  obtain v s1 where o: "run_output ops (sc_standalone_codex (sv_config s)) [''app-server'', ''daemon'', ''version''] s = (v, s1)" by fastforce
  note k = keeps_trans [OF keeps_ops(4) [OF o] keeps_ops(9)]
  show ?case
  proof (cases "sv_now s < deadline")
    case True
    note IH = "1.IH" [OF True refl o [symmetric]]
    show ?thesis
    proof (cases v)
      case (Inl e)
      with "1.prems" True o have "version_loop ops deadline e (sleep_100ms ops s1) = (r, t)" by (simp add: version_loop.simps [of _ _ _ s])
      from keeps_trans [OF k IH(1) [OF Inl this]] show ?thesis .
    next
      case (Inr out)
      show ?thesis
      proof (cases "co_success out \<and> co_stdout out \<noteq> []")
        case False
        with "1.prems" True o Inr have "version_loop ops deadline (if co_stderr out = [] then co_stdout out else co_stderr out)
            (sleep_100ms ops s1) = (r, t)" by (simp add: version_loop.simps [of _ _ _ s])
        from keeps_trans [OF k IH(2) [OF Inr False this]] show ?thesis .
      qed (use "1.prems" True o Inr keeps_ops(4) [OF o] in \<open>simp add: version_loop.simps [of _ _ _ s]\<close>)
    qed
  qed (use "1.prems" in \<open>simp add: version_loop.simps [of _ _ _ s]\<close>)
qed

lemma keeps_quit_loop: "quit_loop ops deadline ps s = (r, t) \<Longrightarrow> keeps s t"
proof (induction ops deadline ps s arbitrary: r t rule: quit_loop.induct)
  case (1 ops deadline ps s)
  obtain p s1 where o: "ps_environment ops (sleep_100ms ops s) = (p, s1)" by fastforce
  note k = keeps_trans [OF keeps_ops(9) keeps_ops(1) [OF o]]
  show ?case
  proof (cases "sv_now s < deadline \<and> (\<exists>q. p = Inr q \<and> gui_running q (sc_gui_executable (sv_config s)))")
    case True
    then obtain q where q: "sv_now s < deadline" "p = Inr q" "gui_running q (sc_gui_executable (sv_config s))" by blast
    with "1.prems" o have "quit_loop ops deadline q s1 = (r, t)" by (simp add: quit_loop.simps [of _ _ _ s])
    with "1.IH" [OF q(1) refl o [symmetric] q(2)] q(3) keeps_trans [OF k] show ?thesis by blast
  next
    case False
    with "1.prems" o k show ?thesis by (auto simp: quit_loop.simps [of _ _ _ s] split: if_splits sum.splits)
  qed
qed

lemma keeps_attachment_loop: "attachment_loop ops deadline s = (r, t) \<Longrightarrow> keeps s t"
proof (induction ops deadline s arbitrary: r t rule: attachment_loop.induct)
  case (1 ops deadline s)
  obtain p s1 where o: "ps_environment ops s = (p, s1)" by fastforce
  note k1 = keeps_ops(1) [OF o]
  show ?case
  proof (cases "sv_now s < deadline \<and> (\<exists>q. p = Inr q)")
    case True
    then obtain q where q: "sv_now s < deadline" "p = Inr q" by blast
    obtain a s2 where g: "gui_attached ops q s1 = (a, s2)" by fastforce
    note k2 = keeps_trans [OF k1 keeps_ops(8) [OF g]]
    show ?thesis
    proof (cases a)
      case False
      with "1.prems" o q g have "attachment_loop ops deadline (sleep_100ms ops s2) = (r, t)"
        by (simp add: attachment_loop.simps [of _ _ s])
      from keeps_trans [OF keeps_trans [OF k2 keeps_ops(9)] "1.IH" [OF q(1) refl o [symmetric] q(2) refl g [symmetric] False this]]
      show ?thesis .
    qed (use "1.prems" o q g k2 in \<open>simp add: attachment_loop.simps [of _ _ s]\<close>)
  next
    case False
    with "1.prems" o k1 show ?thesis by (auto simp: attachment_loop.simps [of _ _ s] split: if_splits sum.splits)
  qed
qed

lemmas keeps_loops = keeps_version_loop keeps_quit_loop keeps_attachment_loop

lemma keeps_restart_gui:
  assumes "restart_gui ops ps s = (r, t)"
  shows "keeps s t"
proof -
  obtain q s1 where q: "quit_gui ops ps s = (q, s1)" by fastforce
  have k1: "keeps s s1"
    using q keeps_trans [OF keeps_ops(5) keeps_quit_loop]
    by (auto simp: quit_gui_def Let_def split: if_splits prod.splits sum.splits dest: keeps_ops(5))
  obtain l s2 where l: "launch_gui ops s1 = (l, s2)" by fastforce
  note k2 = keeps_trans [OF k1 keeps_ops(6) [OF l]]
  from assms q l k1 k2 keeps_trans [OF k2 keeps_attachment_loop] show ?thesis
    by (auto simp: restart_gui_def wait_for_gui_attachment_def split: sum.splits)
qed

lemma keeps_initialize_with:
  assumes "initialize_with ops own version s = (r, t)"
  shows "keeps s t"
proof -
  obtain p s1 where o: "ps_environment ops s = (p, s1)" by fastforce
  note k1 = keeps_ops(1) [OF o]
  show ?thesis
  proof (cases p)
    case (Inr ps)
    obtain b s2 where n: "needs_restart ops ps s1 = (b, s2)" by fastforce
    then have "keeps s1 s2" using keeps_ops(8) by (auto simp: needs_restart_def split: if_splits prod.splits)
    note k2 = keeps_trans [OF k1 this]
    obtain q s3 where g: "restart_gui ops ps s2 = (q, s3)" by fastforce
    note k3 = keeps_trans [OF k2 keeps_restart_gui [OF g]]
    from assms o Inr n g k2 k3 show ?thesis by (auto simp: initialize_with_def Let_def split: if_splits sum.splits)
  qed (use assms o k1 in \<open>simp add: initialize_with_def Let_def\<close>)
qed

lemma keeps_ensure_daemon:
  assumes "ensure_daemon ops s = (r, t)"
  shows "keeps s t"
proof -
  obtain p s1 where o: "ps_environment ops s = (p, s1)" by fastforce
  obtain d s2 where d: "start_daemon ops s1 = (d, s2)" by fastforce
  from assms o d keeps_ops(1) [OF o] keeps_trans [OF keeps_ops(1) [OF o] keeps_ops(7) [OF d]] show ?thesis
    by (auto simp: ensure_daemon_def split: sum.splits if_splits)
qed

lemma keeps_initialize:
  assumes "supervisor_initialize ops s = (r, t)"
  shows "keeps s t"
proof -
  obtain b s1 where e1: "path_exists ops (sc_standalone_codex (sv_config s)) s = (b, s1)" by fastforce
  note k1 = keeps_ops(2) [OF e1]
  obtain g s2 where e2: "path_exists ops (sc_gui_executable (sv_config s1)) s1 = (g, s2)" by fastforce
  note k2 = keeps_trans [OF k1 keeps_ops(3) [OF e2]]
  obtain d s3 where e3: "ensure_daemon ops s2 = (d, s3)" by fastforce
  note k3 = keeps_trans [OF k2 keeps_ensure_daemon [OF e3]]
  obtain v s4 where e4: "wait_for_daemon_version ops s3 = (v, s4)" by fastforce
  note k4 = keeps_trans [OF k3 keeps_version_loop [OF e4 [unfolded wait_for_daemon_version_def]]]
  from assms e1 e2 e3 e4 k1 k2 k3 k4 keeps_trans [OF k4 keeps_initialize_with] keeps_config [OF k1] show ?thesis
    by (auto simp: supervisor_initialize_def split: if_splits sum.splits)
qed

lemma keeps_check:
  assumes "check ops s = (e, t)"
  shows "keeps s t"
proof -
  obtain p s1 where o: "ps_environment ops s = (p, s1)" by fastforce
  note k1 = keeps_ops(1) [OF o]
  obtain d s2 where d: "start_daemon ops s1 = (d, s2)" by fastforce
  note k2 = keeps_trans [OF k1 keeps_ops(7) [OF d]]
  obtain v s3 where v: "run_output ops (sc_standalone_codex (sv_config s1)) [''app-server'', ''daemon'', ''version''] s1 = (v, s3)" by fastforce
  note k3 = keeps_trans [OF k1 keeps_ops(4) [OF v]]
  have gui: "keeps s t" if c: "check_gui ops ps s3 = (e, t)" for ps
  proof -
    obtain a s4 where g: "gui_attached ops ps s3 = (a, s4)" by fastforce
    note k4 = keeps_trans [OF k3 keeps_ops(8) [OF g]]
    obtain l s5 where l: "launch_gui ops s4 = (l, s5)" by fastforce
    from c g l k4 keeps_trans [OF k4 keeps_ops(6) [OF l]] show ?thesis by (auto simp: check_gui_def split: if_splits)
  qed
  from assms o d v k1 k2 k3 gui keeps_config [OF k1] show ?thesis
    by (auto simp: check_def split: sum.splits if_splits)
qed

lemma keeps_fold: "list_all (known_call (sv_config s)) cs \<Longrightarrow> keeps s (fold (call ops) cs s)"
proof (induction cs arbitrary: s)
  case (Cons c cs)
  then have "keeps s (call ops c s)" "keeps (call ops c s) (fold (call ops) cs (call ops c s))" by (auto intro: keeps_call)
  from keeps_trans [OF this] show ?case by simp
qed simp

lemma keeps_monitor_step:
  assumes "monitor_step ops x m = Some m'"
  shows "keeps (mo_supervisor m) (mo_supervisor m')"
proof -
  let ?s = "mo_supervisor m" and ?c = "CallSleep (sc_monitor_interval (sv_config (mo_supervisor m)))"
  obtain e t where c: "check ops (call ops ?c ?s) = (e, t)" by fastforce
  have k: "keeps ?s (call ops ?c ?s)" by (rule keeps_call) (simp add: known_call_def)
  note kt = keeps_trans [OF k keeps_check [OF c]]
  show ?thesis
  proof (cases x)
    case (MonitorShutdown v n)
    from kt obtain cs where cs: "sv_calls t = sv_calls ?s @ cs" "list_all (known_call (sv_config ?s)) cs" by (auto simp: keeps_def)
    then have "list_all (known_call (sv_config ?s)) (take n cs)" by (metis append_take_drop_id list_all_append)
    then have "keeps ?s (interrupted_check ops n ?s)"
      using cs(1) by (simp add: interrupted_check_def c keeps_fold)
    with assms MonitorShutdown show ?thesis by (auto simp: monitor_step_def Let_def split: if_splits)
  next
    case MonitorChecked
    with assms c kt show ?thesis by (auto simp: monitor_step_def split: if_splits)
  qed
qed

lemma keeps_monitor_run: "monitor_run ops xs (monitor_start s) = Some m \<Longrightarrow> keeps s (mo_supervisor m)"
  by (rule mrun.run_invariant [of "\<lambda>m. keeps s (mo_supervisor m)"])
    (auto simp: monitor_start_def intro: keeps_trans keeps_monitor_step)

text \<open>The quits: one at most at the start, none in the monitor.\<close>

lemma monitor_no_quit:
  assumes "monitor_run ops xs (monitor_start s) = Some m"
  shows "\<exists>cs. ran s cs (mo_supervisor m) \<and> CallQuit \<notin> set cs"
proof (rule mrun.run_invariant [of "\<lambda>m. \<exists>cs. ran s cs (mo_supervisor m) \<and> CallQuit \<notin> set cs", OF _ _ assms])
  fix x t u assume "\<exists>cs. ran s cs (mo_supervisor t) \<and> CallQuit \<notin> set cs" "monitor_step ops x t = Some u"
  with monitor_step_spec [OF this(2)] show "\<exists>cs. ran s cs (mo_supervisor u) \<and> CallQuit \<notin> set cs"
    by (metis Un_iff ran_trans set_append)
qed (auto simp: monitor_start_def intro: exI [of _ "[]"])

lemma filter_quit_effects: "filter (\<lambda>c. c = CallQuit) (effects cs) = filter (\<lambda>c. c = CallQuit) cs"
  by (induction cs) auto

lemma initialize_quits:
  assumes "supervisor_initialize ops (supervisor_new cfg now) = (r, s)"
  shows "length (filter (\<lambda>c. c = CallQuit) (sv_calls s)) \<le> 1"
proof -
  from initialize_spec [OF assms] obtain cs d q l where c: "ran (supervisor_new cfg now) cs s" "effects cs = d @ q @ l"
    "d \<in> {[], [daemon_start_call cfg]}" "q \<in> {[], [CallQuit]}" "l \<in> {[], [gui_open_call cfg]}"
    unfolding supervisor_new_def supervisor.simps by blast
  then have "sv_calls s = cs" by (simp add: ran_def supervisor_new_def)
  moreover have "length (filter (\<lambda>c. c = CallQuit) (effects cs)) \<le> 1" unfolding c(2) using c(3-5) by auto
  ultimately show ?thesis unfolding filter_quit_effects by simp
qed

lemma real_quit: "known_call cfg c \<Longrightarrow> real_call c = OsOutput quit_command \<longleftrightarrow> c = CallQuit"
  by (cases c) (auto simp: known_call_def quit_command_def ps_command_def lsof_command_def command_new_def)

lemma quits_real:
  "list_all (known_call cfg) cs \<Longrightarrow>
     length (filter (\<lambda>c. c = OsOutput quit_command) (map real_call cs)) = length (filter (\<lambda>c. c = CallQuit) cs)"
  by (induction cs) (auto simp: real_quit)

text \<open>Every text the supervisor gets from the system is valid UTF-8.\<close>

lemma real_listing_valid:
  "po_ps (real_process_ops os) calls = Inr ps \<Longrightarrow> valid_utf8 ps"
  "po_socket_users (real_process_ops os) calls = Inr users \<Longrightarrow> valid_utf8 users"
  by (auto simp: real_process_ops_def real_ps_environment_def real_socket_users_def lossy_valid split: sum.splits if_splits)

section \<open>Properties\<close>

text \<open>What the system may be asked to do for a configuration.\<close>

definition detached :: "os_command \<Rightarrow> bool" where
  "detached cm \<longleftrightarrow> cm_stdin cm = Some StdioNull \<and> cm_stdout cm = Some StdioNull \<and> cm_stderr cm = Some StdioNull \<and>
     cm_process_group cm = Some 0 \<and> cm_env cm = []"

definition version_command :: "supervisor_config \<Rightarrow> os_command" where
  "version_command cfg = command_new (sc_standalone_codex cfg) [''app-server'', ''daemon'', ''version'']"

definition start_commands :: "supervisor_config \<Rightarrow> (string \<times> string list) set" where
  "start_commands cfg =
     {(sc_standalone_codex cfg, [''app-server'', ''daemon'', ''start'']),
      (''/usr/bin/open'', [''--env'', ''CODEX_APP_SERVER_USE_LOCAL_DAEMON=1'', ''--env'', ''CODEX_APP_SERVER_FORCE_CLI=0'',
         ''-a'', application_bundle (sc_gui_executable cfg)])}"

definition permitted :: "supervisor_config \<Rightarrow> os_call \<Rightarrow> bool" where
  "permitted cfg c \<longleftrightarrow>
     (case c of
        OsMetadata p \<Rightarrow> p \<in> {sc_standalone_codex cfg, sc_gui_executable cfg}
      | OsOutput cm \<Rightarrow> cm \<in> {ps_command, lsof_command (sc_socket_path cfg), version_command cfg, quit_command}
      | OsSpawn cm \<Rightarrow> detached cm \<and> (cm_program cm, cm_args cm) \<in> start_commands cfg
      | OsSleep d \<Rightarrow> True)"

lemma known_permitted: "known_call cfg c \<Longrightarrow> permitted cfg (real_call c)"
  by (cases c) (auto simp: known_call_def permitted_def version_command_def start_commands_def child_command_def command_new_def detached_def)

text \<open>C40. On the machine the supervisor runs nothing but what it is configured for. Whatever the system
  answers, over an initialization and any run of the monitor after it, every call it makes is a
  look at one of the two executables, one of four command lines for \<open>ps\<close>, \<open>lsof\<close> on the
  socket, the daemon's version and the graceful quit, a sleep, or the start of the daemon or of
  the GUI; what it starts is detached, in a process group of its own with no terminal and no
  variable of the environment set; and the quit is asked for at most once.\<close>

theorem supervisor_runs_only_known_commands:
  assumes "monitor_run (real_process_ops os) xs
      (monitor_start (snd (supervisor_initialize (real_process_ops os) (supervisor_new cfg now)))) = Some m"
  shows "list_all (permitted cfg) (map real_call (sv_calls (mo_supervisor m))) \<and>
    length (filter (\<lambda>c. c = OsOutput quit_command) (map real_call (sv_calls (mo_supervisor m)))) \<le> 1"
proof -
  let ?ops = "real_process_ops os" and ?s = "supervisor_new cfg now"
  obtain r t where i: "supervisor_initialize ?ops ?s = (r, t)" by fastforce
  have m: "monitor_run ?ops xs (monitor_start t) = Some m" using assms i by simp
  from keeps_trans [OF keeps_initialize [OF i] keeps_monitor_run [OF m]]
  have known: "list_all (known_call cfg) (sv_calls (mo_supervisor m))" by (auto simp: keeps_def supervisor_new_def)
  from monitor_no_quit [OF m] obtain cs where "sv_calls (mo_supervisor m) = sv_calls t @ cs" "CallQuit \<notin> set cs"
    by (auto simp: ran_def)
  moreover from this(2) have "filter (\<lambda>c. c = CallQuit) cs = []" by (auto simp: filter_empty_conv)
  ultimately have "length (filter (\<lambda>c. c = CallQuit) (sv_calls (mo_supervisor m))) \<le> 1"
    using initialize_quits [OF i] by simp
  with quits_real [OF known] known known_permitted show ?thesis by (auto simp: list_all_iff)
qed

text \<open>A system without the executables, whose listing is empty.\<close>

definition bare_os :: os where
  "bare_os = \<lparr> os_metadata = (\<lambda>_. False), os_output = (\<lambda>_. Inr \<lparr> ou_success = True, ou_stdout = [], ou_stderr = [] \<rparr>),
     os_spawn = (\<lambda>_. Inl ''no such file''), os_elapsed = (\<lambda>_. 1) \<rparr>"

theorem supervisor_runs_only_known_commands_witness:
  "\<exists>m. monitor_run (real_process_ops bare_os) [MonitorChecked]
      (monitor_start (snd (supervisor_initialize (real_process_ops bare_os) (supervisor_new sample_supervisor_config 0)))) = Some m \<and>
    list_all (permitted sample_supervisor_config) (map real_call (sv_calls (mo_supervisor m))) \<and> mo_running m"
proof -
  obtain m where m: "monitor_run (real_process_ops bare_os) [MonitorChecked]
      (monitor_start (snd (supervisor_initialize (real_process_ops bare_os) (supervisor_new sample_supervisor_config 0)))) = Some m"
    and "mo_running m" by (simp add: monitor_step_def monitor_start_def split_beta)
  with supervisor_runs_only_known_commands [OF m] show ?thesis by blast
qed

end
