(* ===== verification/Assembly.thy ===== *)
theory Assembly
  imports Core Processes
begin

text \<open>
  Properties of the assembled system: the shared reducer is only ever changed by its own
  operations, every operation of the handle and of the background tasks keeps the handle
  well-formed, the gate of a new connection is opened only after it was restored, and a run
  starts and ends in order.
\<close>

section \<open>How the shared reducer evolves\<close>

definition evolved :: "reducer \<Rightarrow> reducer \<Rightarrow> bool" where
  "evolved r r' \<longleftrightarrow> (\<exists>ops. r' = fold reducer_exec ops r)"

lemma evolved_refl [simp, intro]: "evolved r r"
  unfolding evolved_def by (rule exI [of _ "[]"]) simp

lemma evolved_trans: "evolved r s \<Longrightarrow> evolved s t \<Longrightarrow> evolved r t"
  unfolding evolved_def by (metis comp_apply fold_append)

lemma evolved_ops [simp, intro]: "evolved r (fold reducer_exec ops r)"
  by (auto simp: evolved_def)

lemma evolved_exec [intro]: "evolved r (reducer_exec op r)"
  unfolding evolved_def by (rule exI [of _ "[op]"]) simp

lemma evolved_keeps:
  assumes "evolved r r'" and "\<And>op r. P r \<Longrightarrow> P (reducer_exec op r)" and "P r"
  shows "P r'"
proof -
  have "P (fold reducer_exec ops r)" for ops
    using assms(3) by (induction ops arbitrary: r) (simp_all add: assms(2))
  with assms(1) show ?thesis by (auto simp: evolved_def)
qed

abbreviation in_evolved :: "ingestor \<Rightarrow> ingestor \<Rightarrow> bool" where
  "in_evolved ig ig' \<equiv> evolved (in_reducer ig) (in_reducer ig')"

lemma in_reducer_frames [simp]:
  "in_reducer (write_state own tid s ig) = in_reducer ig"
  "in_reducer (in_reducer_do f ig) = f (in_reducer ig)"
  by (simp_all add: write_state_def in_reducer_do_def)

lemma interfere_evolved: "interfere env os ig = Some ig' \<Longrightarrow> in_evolved ig ig'"
proof (induction env os ig rule: interfere.induct)
  case (2 env op os ig)
  then have "in_evolved (ig\<lparr>in_world := others [op] (in_world ig)\<rparr>) ig'" by simp
  moreover have "in_evolved ig (ig\<lparr>in_world := others [op] (in_world ig)\<rparr>)"
    using evolved_exec [of "in_reducer ig" op] by simp
  ultimately show ?case by (rule evolved_trans [rotated])
qed (auto split: option.splits simp: bind_eq_Some_conv)

lemma in_rpc_evolved: "in_rpc env req ig = Some (a, ig') \<Longrightarrow> in_evolved ig ig'"
  by (auto simp: in_rpc_def Let_def split: prod.splits dest: interfere_evolved)

lemma pause_evolved: "pause env ig = Some ig' \<Longrightarrow> in_evolved ig ig'"
  by (simp add: pause_def interfere_evolved)

lemma resume_loop_evolved: "resume_loop env tid source attempt ig = Some (out, ig') \<Longrightarrow> in_evolved ig ig'"
proof (induction env tid source attempt ig arbitrary: out ig' rule: resume_loop.induct)
  case (1 env tid source attempt ig)
  from "1.prems" obtain a ig1 where r: "in_rpc env (Request ''thread/resume'' (thread_params tid)) ig = Some (a, ig1)"
    by (auto simp: resume_loop.simps [of env tid source attempt ig] split: option.splits)
  note e1 = in_rpc_evolved [OF r]
  have cancel: "in_evolved ig (in_reducer_do (cancel_subscription tid) (set_state tid s ig1))" for s
    using evolved_trans [OF e1 evolved_exec [of _ "Cancel tid"]] by simp
  show ?case
  proof (cases "decide_resume env attempt (ic_resume_retry_limit (in_config ig)) a")
    case ResumeRetry
    with "1.prems" r obtain ig2 where p: "pause env (set_state tid (RetryWait (Suc attempt)) ig1) = Some ig2"
      and l: "resume_loop env tid source (Suc attempt) (set_state tid (Subscribing source (Suc attempt)) ig2) = Some (out, ig')"
      by (auto simp: resume_loop.simps [of env tid source attempt ig] split: option.splits)
    have "in_evolved ig1 ig2" using pause_evolved [OF p] by simp
    moreover have "in_evolved ig2 ig'" using "1.IH" [OF r refl ResumeRetry p l] by simp
    ultimately show ?thesis using e1 evolved_trans by blast
  qed (use "1.prems" r e1 cancel in \<open>auto simp: resume_loop.simps [of env tid source attempt ig]\<close>)
qed

lemma read_after_resume_evolved: "read_after_resume env tid ig = Some ig' \<Longrightarrow> in_evolved ig ig'"
proof -
  assume a: "read_after_resume env tid ig = Some ig'"
  then obtain r ig1 where r: "in_rpc env (Request ''thread/read'' (read_params tid)) ig = Some (r, ig1)"
    by (auto simp: read_after_resume_def split: option.splits)
  note e1 = in_rpc_evolved [OF r]
  have "in_reducer ig' = in_reducer ig1 \<or> (\<exists>raw. in_reducer ig' = reconcile_thread raw (in_reducer ig1))"
    using a r by (auto simp: read_after_resume_def Let_def split: sum.splits option.splits)
  with e1 evolved_trans [OF e1 evolved_exec [of _ "Reconcile _"]] show ?thesis by auto
qed

lemma discover_evolved: "discover env tid source ig = Some (out, ig') \<Longrightarrow> in_evolved ig ig'"
proof -
  assume a: "discover env tid source ig = Some (out, ig')"
  obtain c ig1 where c: "claim tid source ig = (c, ig1)" by fastforce
  have e1: "in_reducer ig1 = in_reducer ig" using c by (auto simp: claim_def split: if_splits)
  show ?thesis
  proof (cases c)
    case (Some o1)
    with a c e1 show ?thesis by (simp add: discover_def)
  next
    case None
    let ?ig2 = "in_reducer_do (begin_subscription tid) ig1"
    have e2: "in_evolved ig ?ig2" using evolved_exec [of "in_reducer ig" "Begin tid"] e1 by simp
    from a c None obtain o3 ig3 where l: "resume_loop env tid source 1 ?ig2 = Some (o3, ig3)"
      by (auto simp: discover_def split: option.splits)
    note e3 = evolved_trans [OF e2 resume_loop_evolved [OF l]]
    show ?thesis
    proof (cases o3)
      case (Some o4)
      with a c None l e3 show ?thesis by (simp add: discover_def)
    next
      case o3: None
      let ?ig4 = "set_state tid Subscribed (in_reducer_do (finish_subscription tid) ig3)"
      have "in_evolved ig ?ig4" using evolved_trans [OF e3 evolved_exec [of _ "Finish tid"]] by simp
      moreover have "read_after_resume env tid ?ig4 = Some ig'" using a c None l o3 by (auto simp: discover_def)
      ultimately show ?thesis using evolved_trans read_after_resume_evolved by blast
    qed
  qed
qed

lemma scan_pages_evolved:
  "scan_pages env previous pages cursor acc ig = Some (res, ig') \<Longrightarrow> in_evolved ig ig'"
proof (induction pages arbitrary: cursor acc ig)
  case (Suc pages)
  obtain newest candidates where acc: "acc = (newest, candidates)" by fastforce
  show ?case
  proof (cases "ic_reconcile_candidate_limit (in_config ig) \<le> length candidates")
    case False
    with Suc.prems acc obtain a ig1 where r: "in_rpc env (Request ''thread/list'' (list_params cursor (in_config ig))) ig = Some (a, ig1)"
      by (auto split: option.splits)
    note e = in_rpc_evolved [OF r]
    with Suc False acc r show ?thesis
      by (auto simp: Let_def split: sum.splits option.splits if_splits prod.splits dest!: Suc.IH intro: evolved_trans [OF e])
  qed (use Suc.prems acc in auto)
qed auto

lemma reconcile_candidates_evolved: "reconcile_candidates env tids ig = Some (outs, ig') \<Longrightarrow> in_evolved ig ig'"
proof (induction tids arbitrary: outs ig)
  case (Cons tid tids)
  then obtain a ig1 where r: "in_rpc env (Request ''thread/read'' (read_params tid)) ig = Some (a, ig1)"
    by (auto split: option.splits)
  note e = in_rpc_evolved [OF r]
  consider outs' where "reconcile_candidates env tids ig1 = Some (outs', ig')"
    | raw out ig2 outs' where "discover env tid SourceReconciliation (in_reducer_do (reconcile_thread raw) ig1) = Some (out, ig2)"
        "reconcile_candidates env tids ig2 = Some (outs', ig')"
    using Cons.prems r by (auto split: option.splits if_splits)
  then show ?case
  proof cases
    case 1
    from evolved_trans [OF e Cons.IH [OF this]] show ?thesis .
  next
    case 2
    have "evolved (reconcile_thread raw (in_reducer ig1)) (in_reducer ig2)" using discover_evolved [OF 2(1)] by simp
    then have "in_evolved ig1 ig2" using evolved_trans [OF evolved_exec [of _ "Reconcile raw"]] by simp
    from evolved_trans [OF evolved_trans [OF e this] Cons.IH [OF 2(2)]] show ?thesis .
  qed
qed auto

lemma reconcile_evolved: "reconcile env ig = Some (res, ig') \<Longrightarrow> in_evolved ig ig'"
  unfolding reconcile_def Let_def
  by (auto split: option.splits sum.splits prod.splits dest!: scan_pages_evolved reconcile_candidates_evolved intro: evolved_trans)

lemma unsubscribe_each_evolved: "unsubscribe_each env tids ig = Some ig' \<Longrightarrow> in_evolved ig ig'"
  by (induction tids arbitrary: ig) (auto split: option.splits dest!: in_rpc_evolved intro: evolved_trans)

lemma perform_evolved:
  assumes "perform env a c = Some (out, c')"
  shows "evolved (ct_reducer c) (ct_reducer c')"
proof -
  have m: "evolved (ct_reducer b) (ct_reducer c')" if "moved b c'" for b using that by (auto simp: moved_def)
  have reg: "evolved (ct_reducer c) (ct_reducer c3)" if "ct_register p (entered k c) = (i, c3)" for p k i c3
    using evolved_exec [of "ct_reducer c" "Register p"] ct_register_frames(7) [OF that] by simp
  show ?thesis
  proof (cases a)
    case (Interrupt thread turn)
    obtain i c3 where r: "ct_register (is_completion thread turn) (entered thread c) = (i, c3)" by fastforce
    from evolved_trans [OF reg [OF r] m] interrupt_moved [OF _ r] assms Interrupt show ?thesis by simp
  next
    case (Start thread input)
    obtain i c3 where r: "ct_register (is_start_of thread) (entered thread c) = (i, c3)" by fastforce
    from evolved_trans [OF reg [OF r] m] start_moved [OF _ r] assms Start show ?thesis by simp
  next
    case (Steer thread turn input)
    with m [of "entered thread c"] steer_moved [of env thread turn input c out c'] assms show ?thesis by simp
  qed
qed

section \<open>Well-formed handles\<close>

text \<open>
  What the parts of a handle promise one another: a well-formed reducer, a store with exact
  accounts within its caps, every channel of the transport in one place, one lock per thread,
  remembered roots in normal form, and a signal sent before the handle counts as stopped.
\<close>

definition handle_ok :: "encoder \<Rightarrow> handle \<Rightarrow> bool" where
  "handle_ok tv h \<longleftrightarrow> reducer_wf (h_reducer h) \<and> store_inv tv (h_store h) \<and> channels_ok (h_transport h) \<and>
     locks_ok (h_controller h) \<and> is_none_or (sk_extra_roots (h_skills h)) (list_all normal_root) \<and>
     (h_stopped h \<longrightarrow> h_signal h)"

lemma evolved_wf: "evolved r r' \<Longrightarrow> reducer_wf r \<Longrightarrow> reducer_wf r'"
  by (rule evolved_keeps [where P = reducer_wf]) (simp_all add: reducer_exec_wf)

text \<open>An environment of the store: the encoder and an admissible order.\<close>

definition env_ok :: "encoder \<Rightarrow> ingest_env \<Rightarrow> bool" where
  "env_ok tv env \<longleftrightarrow> ie_encoder env = tv \<and> hash_order (ie_key_order env)"

definition keeps_ingest :: "encoder \<Rightarrow> (ingestor \<Rightarrow> ('a \<times> ingestor) option) \<Rightarrow> bool" where
  "keeps_ingest tv f \<longleftrightarrow>
     (\<forall>ig a ig'. f ig = Some (a, ig') \<longrightarrow> in_evolved ig ig' \<and>
        (is_none_or (in_store ig) (store_inv tv) \<longrightarrow> is_none_or (in_store ig') (store_inv tv)))"

lemma with_ingestor_ok:
  assumes "handle_ok tv h" and "keeps_ingest tv f" and "with_ingestor f h = Some (a, h')"
  shows "handle_ok tv h'"
proof -
  let ?ig = "(h_ingestor h)\<lparr>in_store := Some (h_store h), in_world := (in_world (h_ingestor h))\<lparr>wd_reducer := h_reducer h\<rparr>\<rparr>"
  from assms(3) obtain ig' where ig': "f ?ig = Some (a, ig')"
    "h' = h\<lparr>h_ingestor := ig', h_reducer := in_reducer ig', h_store := unwrap_or (in_store ig') (h_store h)\<rparr>"
    by (auto simp: with_ingestor_def Let_def)
  have "evolved (h_reducer h) (in_reducer ig')" "is_none_or (in_store ig') (store_inv tv)"
    using assms(2) ig'(1) assms(1) unfolding keeps_ingest_def handle_ok_def by fastforce+
  with assms(1) evolved_wf ig'(2) show ?thesis by (cases "in_store ig'") (auto simp: handle_ok_def)
qed

lemma keeps_ingestI:
  assumes "env_ok tv env" and "\<And>ig a ig'. f ig = Some (a, ig') \<Longrightarrow> in_evolved ig ig'"
    and "\<And>ig a ig'. f ig = Some (a, ig') \<Longrightarrow> stores_ok env ig \<Longrightarrow> stores_ok env ig'"
  shows "keeps_ingest tv f"
  using assms(2,3) assms(1) unfolding keeps_ingest_def env_ok_def stores_ok_def by simp

lemma keeps_discover: "env_ok tv env \<Longrightarrow> keeps_ingest tv (discover env tid source)"
proof (rule keeps_ingestI)
  fix ig a ig' assume "env_ok tv env" and d: "discover env tid source ig = Some (a, ig')" and "stores_ok env ig"
  with discover_total [of env ig tid source] show "stores_ok env ig'" by (auto simp: env_ok_def)
qed (auto intro: discover_evolved)

lemma keeps_reconcile: "env_ok tv env \<Longrightarrow> keeps_ingest tv (reconcile env)"
proof (rule keeps_ingestI)
  fix ig a ig' assume "env_ok tv env" and d: "reconcile env ig = Some (a, ig')" and "stores_ok env ig"
  with reconcile_total [of env ig] show "stores_ok env ig'" by (auto simp: env_ok_def)
qed (auto intro: reconcile_evolved)

lemma keeps_handle_signal:
  assumes "env_ok tv env"
  shows "keeps_ingest tv (handle_signal env e)"
  unfolding keeps_ingest_def
proof (intro allI impI)
  fix ig a ig' assume "handle_signal env e ig = Some (a, ig')"
  then consider "ig' = ig" | out tid source where "discover env tid source ig = Some (out, ig')"
    by (auto simp: handle_signal_def split: option.splits if_splits)
  then show "in_evolved ig ig' \<and> (is_none_or (in_store ig) (store_inv tv) \<longrightarrow> is_none_or (in_store ig') (store_inv tv))"
  proof cases
    case 2
    with keeps_discover [OF assms, of tid source] show ?thesis unfolding keeps_ingest_def by blast
  qed simp
qed

lemma unsubscribe_each_stores:
  assumes "hash_order (ie_key_order env)"
  shows "unsubscribe_each env tids ig = Some ig' \<Longrightarrow> stores_ok env ig \<Longrightarrow> stores_ok env ig'"
proof (induction tids arbitrary: ig)
  case (Cons tid tids)
  obtain a ig1 where "in_rpc env (Request ''thread/unsubscribe'' (thread_params tid)) ig = Some (a, ig1)" "stores_ok env ig1"
    using in_rpc_total [OF assms Cons.prems(2)] by blast
  with Cons show ?case by simp
qed simp

lemma keeps_unsubscribe: "env_ok tv env \<Longrightarrow> keeps_ingest tv (\<lambda>ig. map_option (Pair ()) (unsubscribe_all_best_effort env ig))"
  by (rule keeps_ingestI)
    (auto simp: unsubscribe_all_best_effort_def env_ok_def intro: unsubscribe_each_evolved unsubscribe_each_stores)

lemma with_controller_ok:
  assumes "handle_ok tv h" and "with_controller (perform env a) h = Some (out, h')"
  shows "handle_ok tv h'"
proof -
  let ?c = "(h_controller h)\<lparr>ct_world := (ct_world (h_controller h))\<lparr>wd_reducer := h_reducer h\<rparr>\<rparr>"
  from assms(2) obtain c' where c': "perform env a ?c = Some (out, c')"
    "h' = h\<lparr>h_controller := c', h_reducer := ct_reducer c'\<rparr>" by (auto simp: with_controller_def Let_def)
  have "locks_ok ?c" using assms(1) by (simp add: handle_ok_def locks_ok_def)
  from perform_locks_ok [OF c'(1) this] evolved_wf [OF perform_evolved [OF c'(1)]] assms(1) c'(2)
  show ?thesis by (simp add: handle_ok_def)
qed

text \<open>A call through the client changes the reducer by what other tasks do.\<close>

lemma rpc_evolved: "rpc client c w = (a, w') \<Longrightarrow> evolved (wd_reducer w) (wd_reducer w')"
  using rpc_simps(4) [of client c w] by auto

definition keeps_world :: "(world \<Rightarrow> 'a \<times> world) \<Rightarrow> bool" where
  "keeps_world f \<longleftrightarrow> (\<forall>w. evolved (wd_reducer w) (wd_reducer (snd (f w))))"

lemma with_world_ok:
  assumes "handle_ok tv h" and "keeps_world f"
  shows "handle_ok tv (snd (with_world f h))"
proof -
  obtain a w where w: "f ((h_world h)\<lparr>wd_reducer := h_reducer h\<rparr>) = (a, w)" by fastforce
  with assms(2) have "evolved (h_reducer h) (wd_reducer w)"
    unfolding keeps_world_def by (metis snd_conv world.select_convs(1) world.surjective world.update_convs(1))
  with assms(1) evolved_wf w show ?thesis by (simp add: with_world_def handle_ok_def)
qed

lemma keeps_calls:
  "keeps_world (list_hooks client cwds)" "keeps_world (trust_hooks client updates)" "keeps_world (read_thread_op client tid)"
  using rpc_evolved unfolding keeps_world_def list_hooks_def trust_hooks_def read_thread_op_def
  by (fastforce simp: Let_def split: prod.splits sum.splits)+

lemma list_pages_evolved:
  assumes "list_pages client cursor seen_cursors seen threads w = Some y"
  shows "evolved (wd_reducer w) (wd_reducer (snd y))"
proof (rule list_pages.raw_induct [OF _ assms, where P = "\<lambda>_ _ _ _ _ w y. evolved (wd_reducer w) (wd_reducer (snd y))"], goal_cases)
  case (1 f client cursor seen_cursors seen threads w y)
  obtain a w1 where o: "rpc client (page_request cursor) w = (a, w1)" by fastforce
  note e = rpc_evolved [OF o]
  with 1 o show ?case
    by (cases y) (auto split: sum.splits option.splits prod.splits if_splits intro: evolved_trans [OF e])
qed

lemma skills_reducer_evolved:
  "evolved (wd_reducer (sk_world s)) (wd_reducer (sk_world (skill_step client x s)))"
proof -
  have send: "evolved (wd_reducer (sk_world s)) (wd_reducer (sk_world s1))"
    if "send_extra_roots client roots s = (r, s1)" for roots r s1
    using that by (auto simp: send_extra_roots_def Let_def split: prod.splits sum.splits dest: rpc_evolved)
  show ?thesis
    by (cases x) (auto simp: set_extra_roots_def reapply_extra_roots_def force_refresh_def Let_def
      split: sum.splits prod.splits option.splits dest: send rpc_evolved)
qed

lemma skills_roots_normal:
  assumes "is_none_or (sk_extra_roots s) (list_all normal_root)"
  shows "is_none_or (sk_extra_roots (skill_step client x s)) (list_all normal_root)"
proof -
  have send: "sk_extra_roots s1 = sk_extra_roots s" if "send_extra_roots client roots s = (r, s1)" for roots r s1
    using send_extra_roots_spec(2) [OF that] .
  show ?thesis
  proof (cases x)
    case (SetRoots roots)
    obtain r s1 where o: "send_extra_roots client roots s = (r, s1)" by fastforce
    with SetRoots send [OF o] assms show ?thesis
      by (auto simp: set_extra_roots_def encode_extra_roots_cases split: sum.splits)
  next
    case Reapply
    show ?thesis
    proof (cases "sk_extra_roots s")
      case (Some roots)
      obtain r s1 where o: "send_extra_roots client roots s = (r, s1)" by fastforce
      with Reapply Some send [OF o] assms show ?thesis by (simp add: reapply_extra_roots_def encode_extra_roots_cases)
    qed (simp add: Reapply reapply_extra_roots_def)
  next
    case (ForceRefresh cwds)
    with assms show ?thesis by (simp add: force_refresh_def Let_def split_beta)
  qed
qed

lemma with_skills_ok:
  assumes "handle_ok tv h" and "\<And>s. snd (f s) = skill_step client x s"
  shows "handle_ok tv (snd (with_skills f h))"
proof -
  let ?s = "(h_skills h)\<lparr>sk_world := (sk_world (h_skills h))\<lparr>wd_reducer := h_reducer h\<rparr>\<rparr>"
  have "evolved (h_reducer h) (wd_reducer (sk_world (skill_step client x ?s)))"
    using skills_reducer_evolved [of ?s client x] by simp
  moreover have "is_none_or (sk_extra_roots (skill_step client x ?s)) (list_all normal_root)"
    using skills_roots_normal [of ?s client x] assms(1) by (simp add: handle_ok_def)
  ultimately show ?thesis using assms evolved_wf
    by (auto simp: with_skills_def handle_ok_def Let_def split_beta)
qed

lemma channels_ok_handle:
  "channels_ok t \<Longrightarrow> channels_ok (mark_reconciled t)" "channels_ok t \<Longrightarrow> channels_ok (shutdown_begin t)"
  "channels_ok t \<Longrightarrow> channels_ok (snd (take_ingress t))"
  by (simp_all add: channels_ok_def mark_reconciled_def shutdown_begin_def take_ingress_def keys_ok_def held_def cmd_channels_snoc)

lemma handle_shutdown_ok:
  assumes "handle_ok tv h" and "env_ok tv env" and "handle_shutdown env h = Some h'"
  shows "handle_ok tv h'"
proof (cases "h_stopped h")
  case False
  let ?h = "h\<lparr>h_stopped := True, h_signal := True\<rparr>"
  from False assms(3) obtain u h1 where w: "with_ingestor (\<lambda>ig. map_option (Pair ()) (unsubscribe_all_best_effort env ig)) ?h = Some (u, h1)"
    "h' = h1\<lparr>h_transport := shutdown_begin (h_transport h1)\<rparr>" by (auto simp: handle_shutdown_def)
  have "handle_ok tv ?h" using assms(1) by (simp add: handle_ok_def)
  from with_ingestor_ok [OF this keeps_unsubscribe [OF assms(2)] w(1)] w(2) show ?thesis
    by (simp add: handle_ok_def channels_ok_handle)
qed (use assms in \<open>simp add: handle_shutdown_def\<close>)

text \<open>
  The system moves: a caller works with the handle, the ingress task processes an event, a task
  it started handles a signal, the reconnect task reconciles, replays or marks, and the
  transport takes a step.
\<close>

inductive handle_moves :: "encoder \<Rightarrow> handle \<Rightarrow> handle \<Rightarrow> bool" for tv where
  move_interrupt: "handle_interrupt env thread turn h = Some (out, h') \<Longrightarrow> handle_moves tv h h'"
| move_steer: "handle_steer env thread turn input h = Some (out, h') \<Longrightarrow> handle_moves tv h h'"
| move_start: "handle_start env thread input h = Some (out, h') \<Longrightarrow> handle_moves tv h h'"
| move_list_hooks: "handle_list_hooks client cwds h = (hooks, h') \<Longrightarrow> handle_moves tv h h'"
| move_trust_hooks: "handle_trust_hooks client updates h = (trusted, h') \<Longrightarrow> handle_moves tv h h'"
| move_set_roots: "handle_set_skill_extra_roots client roots h = (res1, h') \<Longrightarrow> handle_moves tv h h'"
| move_refresh: "handle_force_refresh_skills client cwds h = (skills, h') \<Longrightarrow> handle_moves tv h h'"
| move_list_threads: "handle_list_threads client h = Some (threads, h') \<Longrightarrow> handle_moves tv h h'"
| move_read_thread: "handle_read_thread client tid h = (thread, h') \<Longrightarrow> handle_moves tv h h'"
| move_observe: "env_ok tv ienv \<Longrightarrow> handle_observe_thread ienv tid h = Some (outcome, h') \<Longrightarrow> handle_moves tv h h'"
| move_shutdown: "env_ok tv ienv \<Longrightarrow> handle_shutdown ienv h = Some h' \<Longrightarrow> handle_moves tv h h'"
| move_event: "hash_order order \<Longrightarrow>
    process tv order e \<lparr> ig_reducer = h_reducer h, ig_store = h_store h, ig_hub = hub \<rparr> = Some ig \<Longrightarrow>
    handle_moves tv h (h\<lparr>h_reducer := ig_reducer ig, h_store := ig_store ig\<rparr>)"
| move_signal: "env_ok tv ienv \<Longrightarrow> with_ingestor (handle_signal ienv e) h = Some (outcome', h') \<Longrightarrow> handle_moves tv h h'"
| move_reconcile: "env_ok tv ienv \<Longrightarrow> with_ingestor (reconcile ienv) h = Some (res, h') \<Longrightarrow> handle_moves tv h h'"
| move_reapply: "with_skills (reapply_extra_roots client) h = (replayed, h') \<Longrightarrow> handle_moves tv h h'"
| move_mark: "handle_moves tv h (h\<lparr>h_transport := mark_reconciled (h_transport h)\<rparr>)"
| move_transport: "drains_all tenv \<Longrightarrow> transport_step tenv x (h_transport h) = Some t \<Longrightarrow>
    handle_moves tv h (h\<lparr>h_transport := t\<rparr>)"

lemma handle_list_threads_ok:
  assumes "handle_ok tv h" and "handle_list_threads client h = Some (a, h')"
  shows "handle_ok tv h'"
proof -
  from assms(2) obtain w where w: "list_all_threads client ((h_world h)\<lparr>wd_reducer := h_reducer h\<rparr>) = Some (a, w)"
    "h' = h\<lparr>h_world := w, h_reducer := wd_reducer w\<rparr>" by (auto simp: handle_list_threads_def)
  from list_pages_evolved [OF w(1) [unfolded list_all_threads_def]] evolved_wf assms(1) w(2) show ?thesis
    by (simp add: handle_ok_def)
qed

lemma event_move_ok:
  assumes "handle_ok tv h" and "hash_order order"
    and "process tv order e \<lparr> ig_reducer = h_reducer h, ig_store = h_store h, ig_hub = hub \<rparr> = Some ig"
  shows "handle_ok tv (h\<lparr>h_reducer := ig_reducer ig, h_store := ig_store ig\<rparr>)"
proof -
  from assms(3) obtain st where st: "record_event tv order e (h_store h) = Some st" "ig_store ig = st"
    "ig_reducer ig = apply_event e (h_reducer h)" by (auto simp: process_def Let_def)
  have "store_inv tv st" using record_keeps_inv [OF assms(2) _ st(1)] assms(1) by (auto simp: handle_ok_def)
  moreover have "reducer_wf (apply_event e (h_reducer h))"
    using reducer_exec_wf [of "h_reducer h" "Apply e"] assms(1) by (simp add: handle_ok_def)
  ultimately show ?thesis using assms(1) st(2,3) by (simp add: handle_ok_def)
qed

lemma handle_moves_ok: "handle_moves tv h h' \<Longrightarrow> handle_ok tv h \<Longrightarrow> handle_ok tv h'"
proof (induction rule: handle_moves.induct)
  case (move_interrupt env thread turn h out h')
  with with_controller_ok [of tv h env "Interrupt thread turn" out h'] show ?case
    by (simp add: handle_interrupt_def perform.simps(1) [abs_def])
next
  case (move_steer env thread turn input h out h')
  with with_controller_ok [of tv h env "Steer thread turn input" out h'] show ?case
    by (simp add: handle_steer_def perform.simps(2) [abs_def])
next
  case (move_start env thread input h out h')
  with with_controller_ok [of tv h env "Start thread input" out h'] show ?case
    by (simp add: handle_start_def perform.simps(3) [abs_def])
next
  case (move_list_hooks client cwds h hooks h')
  with with_world_ok [OF _ keeps_calls(1)] show ?case unfolding handle_list_hooks_def by (metis snd_conv)
next
  case (move_trust_hooks client updates h trusted h')
  with with_world_ok [OF _ keeps_calls(2)] show ?case unfolding handle_trust_hooks_def by (metis snd_conv)
next
  case (move_read_thread client tid h thread h')
  with with_world_ok [OF _ keeps_calls(3)] show ?case unfolding handle_read_thread_def by (metis snd_conv)
next
  case (move_set_roots client roots h res1 h')
  with with_skills_ok [of tv h "set_extra_roots client roots" client "SetRoots roots"] show ?case
    by (simp add: handle_set_skill_extra_roots_def)
next
  case (move_refresh client cwds h skills h')
  with with_skills_ok [of tv h "force_refresh client cwds" client "ForceRefresh cwds"] show ?case
    by (simp add: handle_force_refresh_skills_def)
next
  case (move_reapply client h replayed h')
  with with_skills_ok [of tv h "reapply_extra_roots client" client Reapply] show ?case by simp
next
  case (move_observe ienv tid h outcome h')
  with with_ingestor_ok [OF _ keeps_discover] show ?case by (auto simp: handle_observe_thread_def)
next
  case (move_mark h)
  then show ?case by (simp add: handle_ok_def channels_ok_handle)
next
  case (move_transport tenv x h t)
  then show ?case using transport_step_channels [of tenv "h_transport h" x t] by (simp add: handle_ok_def)
qed (auto intro: handle_list_threads_ok handle_shutdown_ok event_move_ok
    with_ingestor_ok [OF _ keeps_handle_signal] with_ingestor_ok [OF _ keeps_reconcile])

section \<open>The start of a run\<close>

lemma run_start_cases:
  assumes "run_start env cf = Some (Running h)"
  obtains supervised r t1 outs ig where
    "start_supervision env cf = Inr supervised" "reducer_new (cf_replay_capacity cf) = Some r"
    "transport_run (re_transport env) (Handle TakeIngress # re_before_mark env) (transport_spawn (cf_transport cf)) = Some t1"
    "reconcile (re_ingest env) (with_store (store_new (cf_store cf) (re_now env)) (ingestor_new r (cf_ingest cf))) = Some (Inr outs, ig)"
    "transport_run (re_transport env) (re_until_marked env) (mark_reconciled t1) = Some (h_transport h)"
    "map_of (tr_resolved (h_transport h)) (tr_next_channel t1) = Some Done" "h_reducer h = in_reducer ig"
    "h_store h = unwrap_or (in_store ig) (store_new (cf_store cf) (re_now env))" "h_ingestor h = ig"
    "h_controller h = controller_new (in_reducer ig) (cf_control cf)" "sk_extra_roots (h_skills h) = None"
    "\<not> h_signal h" "\<not> h_stopped h" "h_supervision h = supervised"
proof -
  obtain supervised where s: "start_supervision env cf = Inr supervised"
    using assms by (auto simp: run_start_def split: sum.splits)
  let ?t = "snd (take_ingress (transport_spawn (cf_transport cf)))"
  obtain r where r: "reducer_new (cf_replay_capacity cf) = Some r" and w: "run_start_with env cf supervised r ?t = Some (Running h)"
    using assms s by (auto simp: run_start_def Let_def take_ingress_def bind_eq_Some_conv split: if_splits prod.splits)
  obtain t1 where t1: "transport_run (re_transport env) (re_before_mark env) ?t = Some t1"
    using w by (auto simp: run_start_with_def Let_def split: option.splits)
  have t1': "transport_run (re_transport env) (Handle TakeIngress # re_before_mark env) (transport_spawn (cf_transport cf)) = Some t1"
    using t1 by (simp add: handle_step_def transport_spawn_def)
  obtain outs ig where o: "reconcile (re_ingest env) (with_store (store_new (cf_store cf) (re_now env))
      (ingestor_new r (cf_ingest cf))) = Some (Inr outs, ig)"
    using w t1 by (auto simp: run_start_with_def Let_def split: option.splits sum.splits)
  obtain t2 where t2: "transport_run (re_transport env) (re_until_marked env) (mark_reconciled t1) = Some t2"
      "map_of (tr_resolved t2) (tr_next_channel t1) = Some Done"
    using w t1 o by (auto simp: run_start_with_def Let_def bind_eq_Some_conv split: option.splits if_splits)
  have h: "h = \<lparr> h_transport = t2, h_reducer = in_reducer ig, h_store = unwrap_or (in_store ig) (store_new (cf_store cf) (re_now env)),
      h_ingestor = ig, h_controller = controller_new (in_reducer ig) (cf_control cf),
      h_skills = skill_controller_new \<lparr> wd_reducer = in_reducer ig, wd_calls = [], wd_activity = [] \<rparr>,
      h_world = \<lparr> wd_reducer = in_reducer ig, wd_calls = [], wd_activity = [] \<rparr>, h_signal = False, h_stopped = False,
      h_supervision = supervised \<rparr>"
    using w t1 o t2 by (simp add: run_start_with_def Let_def)
  show ?thesis by (rule that [OF s r t1' o]) (use t2 in \<open>simp_all add: h skill_controller_new_def\<close>)
qed

lemma run_start_ok:
  assumes "run_start env cf = Some (Running h)" and "env_ok tv (re_ingest env)" and "drains_all (re_transport env)"
  shows "handle_ok tv h"
proof -
  from assms(1) obtain supervised r t1 outs ig where *: "reducer_new (cf_replay_capacity cf) = Some r"
    "transport_run (re_transport env) (Handle TakeIngress # re_before_mark env) (transport_spawn (cf_transport cf)) = Some t1"
    "reconcile (re_ingest env) (with_store (store_new (cf_store cf) (re_now env)) (ingestor_new r (cf_ingest cf))) = Some (Inr outs, ig)"
    "transport_run (re_transport env) (re_until_marked env) (mark_reconciled t1) = Some (h_transport h)" "h_reducer h = in_reducer ig"
    "h_store h = unwrap_or (in_store ig) (store_new (cf_store cf) (re_now env))"
    "h_controller h = controller_new (in_reducer ig) (cf_control cf)" "sk_extra_roots (h_skills h) = None" "\<not> h_stopped h"
    by (rule run_start_cases)
  let ?ig0 = "with_store (store_new (cf_store cf) (re_now env)) (ingestor_new r (cf_ingest cf))"
  have "channels_ok (h_transport h)" 
    using trun.run_invariant [where I = channels_ok, OF channels_ok_handle(1) _ *(4)] run_channels [OF assms(3) *(2)]
      transport_step_channels [OF assms(3)] by blast
  moreover have "reducer_wf (h_reducer h)"
    using evolved_wf [OF reconcile_evolved [OF *(3)]] reducer_new_Some(1) [OF *(1)] *(5)
    by (simp add: with_store_def ingestor_new_def)
  moreover have "is_none_or (in_store ig) (store_inv tv)"
    using keeps_reconcile [OF assms(2)] *(3) unfolding keeps_ingest_def
    by (fastforce simp: with_store_def store_inv_new)
  then have "store_inv tv (h_store h)" using *(6) store_inv_new by (cases "in_store ig") simp_all
  moreover have "locks_ok (h_controller h)" using *(7) by (simp add: controller_new_def locks_ok_def)
  ultimately show ?thesis using *(8,9) by (simp add: handle_ok_def)
qed

text \<open>C24. Every reachable handle is well-formed. Whatever the caller, the background tasks and the
  transport do, in any order, the reducer stays well-formed, the store's accounts stay exact and
  within its caps, every channel handed out by the transport is in exactly one place, threads
  and locks correspond one to one, the remembered skill roots are in normal form, and a handle
  that counts as stopped has sent the shutdown signal.\<close>

theorem reachable_handles_well_formed:
  assumes "run_start env cf = Some (Running h)" and "env_ok tv (re_ingest env)" and "drains_all (re_transport env)"
    and "(handle_moves tv)\<^sup>*\<^sup>* h h'"
  shows "reducer_wf (h_reducer h') \<and> store_inv tv (h_store h') \<and> channels_ok (h_transport h') \<and>
    locks_ok (h_controller h') \<and> is_none_or (sk_extra_roots (h_skills h')) (list_all normal_root) \<and>
    (h_stopped h' \<longrightarrow> h_signal h')"
proof -
  have "handle_ok tv h'" using assms(4)
    by (induction rule: rtranclp_induct) (auto intro: run_start_ok [OF assms(1-3)] handle_moves_ok)
  then show ?thesis by (simp add: handle_ok_def)
qed

section \<open>A run that starts\<close>

text \<open>A daemon with no threads.\<close>

definition empty_env :: ingest_env where
  "empty_env = calm_env\<lparr>ie_client := (\<lambda>_. ([], Inr (JObject [(''data'', JArray [])])))\<rparr>"

definition sample_config :: config where
  "sample_config = (config_default None ''1'')\<lparr>cf_manage_gui := False\<rparr>"

definition sample_run_env :: run_env where
  "sample_run_env =
     \<lparr> re_ops = sample_process_ops, re_now = 0, re_ingest = empty_env, re_transport = sample_transport_env,
       re_before_mark = connects, re_until_marked = [Handle (SendCommand 0), Task (DriveCommand None)],
       re_cleanup = empty_env, re_runtime = True \<rparr>"

interpretation empty_order: hash_order "ie_key_order empty_env"
  by unfold_locales (simp add: empty_env_def calm_env_def sorted_keys_def)

lemma empty_env_ok: "env_ok sample_tv empty_env"
  by (simp add: env_ok_def empty_order.hash_order_axioms) (simp add: empty_env_def calm_env_def)

lemma empty_reconcile:
  "reconcile empty_env (with_store st (ingestor_new r ingest_config_default)) =
     Some (Inr [], (with_store st (ingestor_new r ingest_config_default))\<lparr>in_world :=
       \<lparr> wd_reducer = r, wd_calls = [Request ''thread/list'' (list_params None ingest_config_default)], wd_activity = [] \<rparr>\<rparr>)"
proof -
  let ?ig = "with_store st (ingestor_new r ingest_config_default)"
  let ?call = "Request ''thread/list'' (list_params None ingest_config_default)"
  have start: "in_config ?ig = ingest_config_default" "in_watermark ?ig = 0" "in_calls ?ig = []"
    "in_world ?ig = \<lparr> wd_reducer = r, wd_calls = [], wd_activity = [] \<rparr>"
    by (simp_all add: with_store_def ingestor_new_def)
  have rpc: "in_rpc empty_env ?call ?ig = Some (Inr (JObject [(''data'', JArray [])]),
      ?ig\<lparr>in_world := \<lparr> wd_reducer = r, wd_calls = [?call], wd_activity = [] \<rparr>\<rparr>)"
    by (simp add: in_rpc_def start empty_env_def)
  let ?ig1 = "?ig\<lparr>in_world := \<lparr> wd_reducer = r, wd_calls = [?call], wd_activity = [] \<rparr>\<rparr>"
  have limits: "ic_reconcile_page_bound ingest_config_default = Suc 3" "0 < ic_reconcile_candidate_limit ingest_config_default"
    by (simp_all add: ingest_config_default_def)
  have "scan_pages empty_env 0 (Suc 3) None (0, []) ?ig = Some (Inr (0, []), ?ig1)"
    unfolding scan_pages.simps(2) start(1) rpc using limits(2) by simp
  moreover have "?ig1\<lparr>in_watermark := 0\<rparr> = ?ig1" by (simp add: with_store_def ingestor_new_def)
  ultimately show ?thesis unfolding reconcile_def start(1,2) limits(1) Let_def by simp
qed

lemma sample_run_start: "\<exists>h. run_start sample_run_env sample_config = Some (Running h) \<and> tr_ready (h_transport h) \<and>
    \<not> h_stopped h \<and> in_states (h_ingestor h) = Map.empty \<and> in_config (h_ingestor h) = ingest_config_default"
proof -
  obtain t1 where t1: "transport_run sample_transport_env connects (snd (take_ingress (transport_spawn (cf_transport sample_config)))) = Some t1"
      "tr_next_channel t1 = 0" "tr_task t1 = AtDrive [] 0" "tr_sending t1 = []" "tr_commands t1 = []" "tr_resolved t1 = []"
    by (simp add: sample_eval take_ingress_def sample_config_def config_default_def transport_config_default_def)
  obtain t2 where t2: "transport_run sample_transport_env [Handle (SendCommand 0), Task (DriveCommand None)] (mark_reconciled t1) = Some t2"
      "tr_resolved t2 = [(0, Done)]" "tr_ready t2"
    using t1(2-) by (simp add: transport_eval resolve_def set_health_def)
  have "reducer_new 4096 \<noteq> None" by (simp add: reducer_new_def)
  then obtain r where r: "reducer_new 4096 = Some r" by blast
  show ?thesis
    using t1(1,2) t2 r
    by (simp add: run_start_def run_start_with_def start_supervision_def sample_run_env_def take_ingress_def
      sample_config_def config_default_def transport_spawn_def Let_def empty_reconcile) (simp add: with_store_def ingestor_new_def)
qed

lemma sample_shutdown:
  assumes "\<not> h_stopped h" and "in_states (h_ingestor h) = Map.empty"
  shows "\<exists>h'. handle_shutdown empty_env h = Some h'"
proof -
  have "ie_state_order empty_env Map.empty = []" by (simp add: empty_env_def calm_env_def)
  with assms show ?thesis
    by (simp add: handle_shutdown_def with_ingestor_def unsubscribe_all_best_effort_def Let_def)
qed

theorem reachable_handles_well_formed_witness:
  "\<exists>h h'. run_start sample_run_env sample_config = Some (Running h) \<and> handle_shutdown empty_env h = Some h' \<and>
     reducer_wf (h_reducer h') \<and> store_inv sample_tv (h_store h') \<and> channels_ok (h_transport h')"
proof -
  obtain h where h: "run_start sample_run_env sample_config = Some (Running h)" "\<not> h_stopped h"
    "in_states (h_ingestor h) = Map.empty" using sample_run_start by blast
  obtain h' where h': "handle_shutdown empty_env h = Some h'" using sample_shutdown [OF h(2,3)] by blast
  have "(handle_moves sample_tv)\<^sup>*\<^sup>* h h'" by (rule r_into_rtranclp) (rule move_shutdown [OF empty_env_ok h'])
  from reachable_handles_well_formed [OF h(1) _ _ this] empty_env_ok h(1) h' show ?thesis by (simp add: sample_run_env_def)
qed

text \<open>C23. A caller gets a handle only after the system was brought up in order: supervision
  succeeded exactly when the configuration asks for it, the first reconciliation succeeded, and
  the transport confirmed the mark that opened its gate. A failed supervision leaves no transport
  behind, a failed reconciliation leaves the gate unopened and the transport told to shut down,
  and the ingress receiver is never found taken.\<close>

theorem handle_only_after_startup:
  assumes "run_start env cf = Some out"
  shows "case out of
      Running h \<Rightarrow>
        (cf_manage_gui cf \<longrightarrow> (\<exists>st. h_supervision h = Some st \<and>
          fst (supervisor_initialize (re_ops env) (supervisor_new (cf_supervisor cf) (re_now env))) = Inr st)) \<and>
        (\<exists>ig0 outs. reconcile (re_ingest env) ig0 = Some (Inr outs, h_ingestor h) \<and> in_calls ig0 = []) \<and>
        (\<exists>t1. transport_run (re_transport env) (Handle TakeIngress # re_before_mark env) (transport_spawn (cf_transport cf)) = Some t1 \<and>
          transport_run (re_transport env) (re_until_marked env) (mark_reconciled t1) = Some (h_transport h) \<and>
          map_of (tr_resolved (h_transport h)) (tr_next_channel t1) = Some Done)
    | StartFailed (ErrSupervisor e) t \<Rightarrow> t = None \<and>
        fst (supervisor_initialize (re_ops env) (supervisor_new (cf_supervisor cf) (re_now env))) = Inl e
    | StartFailed (ErrIngest e) t \<Rightarrow>
        (\<exists>t1. transport_run (re_transport env) (Handle TakeIngress # re_before_mark env) (transport_spawn (cf_transport cf)) = Some t1 \<and>
          t = Some (shutdown_begin t1))
    | StartFailed IngressAlreadyTaken t \<Rightarrow> False
    | StartFailed (ErrTransport e) t \<Rightarrow> e = RequestClosed"
proof (cases out)
  case (Running h)
  from assms [unfolded Running] show ?thesis unfolding Running started.case
  proof (rule run_start_cases, goal_cases)
    case (1 supervised r t1 outs ig)
    have "cf_manage_gui cf \<longrightarrow> (\<exists>st. h_supervision h = Some st \<and>
        fst (supervisor_initialize (re_ops env) (supervisor_new (cf_supervisor cf) (re_now env))) = Inr st)"
      using 1(1,14) by (cases "fst (supervisor_initialize (re_ops env) (supervisor_new (cf_supervisor cf) (re_now env)))")
        (auto simp: start_supervision_def split: if_splits)
    moreover have "in_calls (with_store (store_new (cf_store cf) (re_now env)) (ingestor_new r (cf_ingest cf))) = []"
      by (simp add: with_store_def ingestor_new_def)
    ultimately show ?case using 1(3,4,5,6) 1(9) by blast
  qed
next
  case (StartFailed e t)
  show ?thesis
  proof (cases "start_supervision env cf")
    case (Inl err)
    with assms StartFailed show ?thesis
      by (cases "fst (supervisor_initialize (re_ops env) (supervisor_new (cf_supervisor cf) (re_now env)))")
        (auto simp: run_start_def start_supervision_def split: if_splits)
  next
    case (Inr supervised)
    let ?t = "snd (take_ingress (transport_spawn (cf_transport cf)))"
    obtain r where w: "run_start_with env cf supervised r ?t = Some out"
      using assms Inr StartFailed
      by (auto simp: run_start_def Let_def take_ingress_def transport_spawn_def bind_eq_Some_conv split: if_splits)
    then obtain t1 where t1: "transport_run (re_transport env) (re_before_mark env) ?t = Some t1"
      by (auto simp: run_start_with_def Let_def split: option.splits)
    have "transport_run (re_transport env) (Handle TakeIngress # re_before_mark env) (transport_spawn (cf_transport cf)) = Some t1"
      using t1 by (simp add: handle_step_def transport_spawn_def)
    moreover have "(\<exists>e'. e = ErrIngest e' \<and> t = Some (shutdown_begin t1)) \<or> e = ErrTransport RequestClosed"
      using w t1 StartFailed by (auto simp: run_start_with_def Let_def bind_eq_Some_conv split: option.splits sum.splits if_splits)
    ultimately show ?thesis using StartFailed by auto
  qed
qed

theorem handle_only_after_startup_witness:
  "\<exists>h t1. run_start sample_run_env sample_config = Some (Running h) \<and>
     transport_run sample_transport_env [Handle (SendCommand 0), Task (DriveCommand None)] (mark_reconciled t1) = Some (h_transport h) \<and>
     map_of (tr_resolved (h_transport h)) (tr_next_channel t1) = Some Done"
proof -
  obtain h where h: "run_start sample_run_env sample_config = Some (Running h)" using sample_run_start by blast
  from handle_only_after_startup [OF h] h show ?thesis by (auto simp: sample_run_env_def)
qed

text \<open>A run watches the GUI exactly when it took it under its care, and over the start of the run and
  the whole life of its monitor the GUI is asked to quit at most once.\<close>

lemma run_monitor_quits_once:
  assumes "run_start env cf = Some (Running h)"
  shows "(run_monitor env cf = None \<longleftrightarrow> h_supervision h = None) \<and>
    (\<forall>m0 xs m. run_monitor env cf = Some m0 \<and> monitor_run (re_ops env) xs m0 = Some m \<longrightarrow>
       length (filter (\<lambda>c. c = CallQuit) (sv_calls (mo_supervisor m))) \<le> 1)"
proof (intro conjI allI impI)
  from assms obtain supervised where "start_supervision env cf = Inr supervised" "h_supervision h = supervised"
    by (rule run_start_cases)
  then show "run_monitor env cf = None \<longleftrightarrow> h_supervision h = None"
    by (cases "fst (supervisor_initialize (re_ops env) (supervisor_new (cf_supervisor cf) (re_now env)))")
      (auto simp: run_monitor_def start_supervision_def split: if_splits dest!: sym [of "Some _"])
next
  fix m0 xs m assume run: "run_monitor env cf = Some m0 \<and> monitor_run (re_ops env) xs m0 = Some m"
  obtain r t where i: "supervisor_initialize (re_ops env) (supervisor_new (cf_supervisor cf) (re_now env)) = (r, t)" by fastforce
  with run have "monitor_run (re_ops env) xs (monitor_start t) = Some m" by (auto simp: run_monitor_def split: if_splits)
  from monitor_no_quit [OF this] obtain cs where "sv_calls (mo_supervisor m) = sv_calls t @ cs" "CallQuit \<notin> set cs"
    by (auto simp: ran_def)
  moreover from this(2) have "filter (\<lambda>c. c = CallQuit) cs = []" by (auto simp: filter_empty_conv)
  ultimately show "length (filter (\<lambda>c. c = CallQuit) (sv_calls (mo_supervisor m))) \<le> 1"
    using initialize_quits [OF i] by simp
qed

section \<open>The end of a run\<close>

definition subscribed_threads :: "ingest_env \<Rightarrow> handle \<Rightarrow> string list" where
  "subscribed_threads env h =
     (let states = in_states (h_ingestor h) in filter (\<lambda>tid. states tid = Some Subscribed) (ie_state_order env states))"

lemma handle_shutdown_spec:
  assumes "handle_shutdown env h = Some h'" and "\<not> h_stopped h"
  shows "h_stopped h' \<and> h_signal h' \<and>
    in_calls (h_ingestor h') = in_calls (h_ingestor h) @
      map (\<lambda>tid. Request ''thread/unsubscribe'' (thread_params tid)) (subscribed_threads env h) \<and>
    tr_sending (h_transport h') = tr_sending (h_transport h) @ [CmdShutdown (tr_next_channel (h_transport h))]"
proof -
  let ?h = "h\<lparr>h_stopped := True, h_signal := True\<rparr>"
  let ?ig = "(h_ingestor h)\<lparr>in_store := Some (h_store h), in_world := (in_world (h_ingestor h))\<lparr>wd_reducer := h_reducer h\<rparr>\<rparr>"
  from assms obtain ig' where ig: "unsubscribe_all_best_effort env ?ig = Some ig'"
    "h' = ?h\<lparr>h_ingestor := ig', h_reducer := in_reducer ig', h_store := unwrap_or (in_store ig') (h_store h),
       h_transport := shutdown_begin (h_transport h)\<rparr>"
    by (auto simp: handle_shutdown_def with_ingestor_def Let_def)
  have "in_calls ig' = in_calls ?ig @ map (\<lambda>tid. Request ''thread/unsubscribe'' (thread_params tid)) (subscribed_threads env h)"
    using unsubscribe_each_calls [OF ig(1) [unfolded unsubscribe_all_best_effort_def]]
    by (simp add: subscribed_threads_def Let_def)
  then show ?thesis by (simp add: ig(2) shutdown_begin_def)
qed

lemma handle_shutdown_idle: "h_stopped h \<Longrightarrow> handle_shutdown env h = Some h" "h_stopped h \<Longrightarrow> guard_drop runtime env h = Some h"
  by (simp_all add: handle_shutdown_def guard_drop_def)

text \<open>C22. A run that ends has shut down, once. Whatever its operation made of the handle, at the end the
  handle is stopped; if the operation had not shut it down, the end sent the signal, one
  unsubscription for each thread then subscribed, in the order of the map of states (where that
  order enumerates the map, for exactly the subscribed threads), and one shutdown command to the transport; if
  it had, nothing more is sent, nor by the drop of the guard or by any later shutdown of a clone.\<close>

theorem run_shuts_down_once:
  assumes "core_run env cf operation = Some (Inr result, final)"
  shows "\<exists>h h1 h2. run_start env cf = Some (Running h) \<and> operation h = Some (result, h1) \<and> final = Some h2 \<and> h_stopped h2 \<and>
    (if h_stopped h1 then h2 = h1
     else h_signal h2 \<and>
       in_calls (h_ingestor h2) = in_calls (h_ingestor h1) @
         map (\<lambda>tid. Request ''thread/unsubscribe'' (thread_params tid)) (subscribed_threads (re_cleanup env) h1) \<and>
       tr_sending (h_transport h2) = tr_sending (h_transport h1) @ [CmdShutdown (tr_next_channel (h_transport h1))]) \<and>
    (hash_order (ie_state_order (re_cleanup env)) \<and> finite (dom (in_states (h_ingestor h1))) \<longrightarrow>
       set (subscribed_threads (re_cleanup env) h1) = {tid. in_states (h_ingestor h1) tid = Some Subscribed}) \<and>
    handle_shutdown later h2 = Some h2 \<and> guard_drop runtime later h2 = Some h2"
proof -
  obtain h h1 h2 where h: "run_start env cf = Some (Running h)" "operation h = Some (result, h1)" "final = Some h2"
    and e: "Option.bind (handle_shutdown (re_cleanup env) h1) (guard_drop (re_runtime env) (re_cleanup env)) = Some h2"
    using assms by (auto simp: core_run_def split: option.splits started.splits)
  have threads: "set (subscribed_threads (re_cleanup env) h1) = {tid. in_states (h_ingestor h1) tid = Some Subscribed}"
    if "hash_order (ie_state_order (re_cleanup env))" "finite (dom (in_states (h_ingestor h1)))"
    using hash_order.order_keys [OF that] by (auto simp: subscribed_threads_def Let_def)
  show ?thesis
  proof (cases "h_stopped h1")
    case True
    with e have "h2 = h1" by (simp add: handle_shutdown_idle)
    with h True threads show ?thesis by (simp add: handle_shutdown_idle)
  next
    case False
    from e obtain h3 where h3: "handle_shutdown (re_cleanup env) h1 = Some h3" by (auto simp: bind_eq_Some_conv)
    note spec = handle_shutdown_spec [OF h3 False]
    with e h3 have "h2 = h3" by (simp add: handle_shutdown_idle)
    with h False spec threads show ?thesis by (simp add: handle_shutdown_idle)
  qed
qed

text \<open>An operation that observes a thread and leaves it subscribed.\<close>

definition sample_operation :: "handle \<Rightarrow> (nat \<times> handle) option" where
  "sample_operation h = map_option (\<lambda>(outcome, h1). (42, h1)) (handle_observe_thread calm_env ''t'' h)"

lemma calm_states:
  assumes "discover calm_env tid source ig = Some (out, ig')" and "in_states ig = Map.empty"
    and "in_config ig = ingest_config_default"
  shows "in_states ig' = [tid \<mapsto> Subscribed]"
  using assms
  by (auto simp: discover_def claim_def calm_resume read_after_resume_def calm_rpc write_state_def in_reducer_do_def
      ingest_config_default_def Let_def split: option.splits)

lemma calm_env_ok: "env_ok sample_tv calm_env"
  by (simp add: env_ok_def calm_order.hash_order_axioms) (simp add: calm_env_def)

lemma sample_operation_run:
  assumes "run_start sample_run_env sample_config = Some (Running h)" and "\<not> h_stopped h"
    and "in_states (h_ingestor h) = Map.empty" and "in_config (h_ingestor h) = ingest_config_default"
  shows "\<exists>h1. sample_operation h = Some (42, h1) \<and> \<not> h_stopped h1 \<and> in_states (h_ingestor h1) = [''t'' \<mapsto> Subscribed]"
proof -
  let ?ig = "(h_ingestor h)\<lparr>in_store := Some (h_store h), in_world := (in_world (h_ingestor h))\<lparr>wd_reducer := h_reducer h\<rparr>\<rparr>"
  have "handle_ok sample_tv h"
    using run_start_ok [OF assms(1)] empty_env_ok by (simp add: sample_run_env_def)
  then have "stores_ok calm_env ?ig" using calm_env_ok by (simp add: stores_ok_def handle_ok_def env_ok_def)
  from discover_total [OF calm_order.hash_order_axioms this] obtain out ig' where
    d: "discover calm_env ''t'' SourceReconciliation ?ig = Some (out, ig')" by blast
  have "in_states ig' = [''t'' \<mapsto> Subscribed]" by (rule calm_states [OF d]) (simp_all add: assms(3,4))
  with d assms(2) show ?thesis by (simp add: sample_operation_def handle_observe_thread_def with_ingestor_def)
qed

lemma empty_unsubscribes: "unsubscribe_each empty_env tids ig \<noteq> None"
  by (induction tids arbitrary: ig) (simp_all add: in_rpc_def empty_env_def)

theorem run_shuts_down_once_witness:
  "\<exists>h h1 h2. run_start sample_run_env sample_config = Some (Running h) \<and> sample_operation h = Some (42, h1) \<and>
     core_run sample_run_env sample_config sample_operation = Some (Inr 42, Some h2) \<and> h_stopped h2 \<and>
     in_calls (h_ingestor h2) = in_calls (h_ingestor h1) @ [Request ''thread/unsubscribe'' (thread_params ''t'')] \<and>
     handle_shutdown empty_env h2 = Some h2"
proof -
  obtain h where h: "run_start sample_run_env sample_config = Some (Running h)" "\<not> h_stopped h"
    "in_states (h_ingestor h) = Map.empty" "in_config (h_ingestor h) = ingest_config_default" using sample_run_start by blast
  obtain h1 where h1: "sample_operation h = Some (42, h1)" "\<not> h_stopped h1" "in_states (h_ingestor h1) = [''t'' \<mapsto> Subscribed]"
    using sample_operation_run [OF h] by blast
  have threads: "subscribed_threads empty_env h1 = [''t'']"
    by (simp add: subscribed_threads_def h1(3) empty_env_def calm_env_def)
  have "handle_shutdown empty_env h1 \<noteq> None"
    using h1(2) empty_unsubscribes by (simp add: handle_shutdown_def with_ingestor_def unsubscribe_all_best_effort_def Let_def)
  then obtain h2 where h2: "handle_shutdown empty_env h1 = Some h2" by blast
  have "h_stopped h2" using handle_shutdown_spec [OF h2 h1(2)] by simp
  with h(1) h1(1) h2 have run: "core_run sample_run_env sample_config sample_operation = Some (Inr 42, Some h2)"
    by (simp add: core_run_def sample_run_env_def guard_drop_def)
  have cleanup: "re_cleanup sample_run_env = empty_env" by (simp add: sample_run_env_def)
  obtain h' h1' where "run_start sample_run_env sample_config = Some (Running h')" "sample_operation h' = Some (42, h1')" "h_stopped h2"
    "if h_stopped h1' then h2 = h1' else in_calls (h_ingestor h2) = in_calls (h_ingestor h1') @
       map (\<lambda>tid. Request ''thread/unsubscribe'' (thread_params tid)) (subscribed_threads empty_env h1')"
    "handle_shutdown empty_env h2 = Some h2"
    using run_shuts_down_once [OF run, where later = empty_env and runtime = True] unfolding cleanup
    by (auto split: if_splits)
  with h(1) h1(1,2) threads run show ?thesis by (intro exI [of _ h] exI [of _ h1] exI [of _ h2]) simp
qed

section \<open>Background tasks\<close>

text \<open>What the ingress task was given.\<close>

fun received_event :: "ingress_input \<Rightarrow> sequenced_event option" where
  "received_event (IngressReceived (Some e)) = Some e"
| "received_event _ = None"

fun ends_ingress :: "ingress_input \<Rightarrow> bool" where
  "ends_ingress (IngressShutdown v) = stops v"
| "ends_ingress (IngressReceived x) = (x = None)"

text \<open>The ingress task is the plain loop over its events: until the shutdown signal or the end of
  the channel it processes each event it receives, in order, with nothing in between, and it
  starts one task for each event that signals a thread, in the same order; after either end it
  takes no event any more.\<close>

theorem ingress_task_is_ingress_loop:
  assumes "ingress_task_run tv order xs (ingress_task_new ig) = Some t"
  shows "ingress_run tv order (List.map_filter received_event xs) ig = Some (it_ingress t) \<and>
    it_signals t = filter is_signal (List.map_filter received_event xs) \<and>
    (it_running t \<longleftrightarrow> \<not> list_ex ends_ingress xs) \<and> \<not> list_ex ends_ingress (butlast xs)"
proof (rule corun.run_history [OF _ _ assms, where I = "\<lambda>xs t.
    ingress_run tv order (List.map_filter received_event xs) ig = Some (it_ingress t) \<and>
    it_signals t = filter is_signal (List.map_filter received_event xs) \<and>
    (it_running t \<longleftrightarrow> \<not> list_ex ends_ingress xs) \<and> \<not> list_ex ends_ingress (butlast xs)"], goal_cases)
  case 1
  show ?case by (simp add: ingress_task_new_def List.map_filter_simps)
next
  case (2 xs x t u)
  have snoc: "List.map_filter received_event (xs @ [x]) =
      List.map_filter received_event xs @ (case received_event x of None \<Rightarrow> [] | Some e \<Rightarrow> [e])" for x
    by (simp add: List.map_filter_def split: option.split)
  have run: "it_running t" using 2(3) by (simp add: ingress_task_step_def split: if_splits)
  show ?case
  proof (cases "received_event x")
    case None
    with 2 run show ?thesis
      by (cases x) (auto simp: snoc ingress_task_step_def split: if_splits option.splits)
  next
    case (Some e)
    then have x: "x = IngressReceived (Some e)" by (cases x rule: received_event.cases) auto
    with 2(3) run obtain g where g: "process tv order e (it_ingress t) = Some g"
      "u = t\<lparr>it_ingress := g, it_signals := it_signals t @ (if is_signal e then [e] else [])\<rparr>"
      by (auto simp: ingress_task_step_def)
    with 2(2) run Some x show ?thesis by (auto simp: snoc irun.run_snoc)
  qed
qed

theorem ingress_task_is_ingress_loop_witness:
  "\<exists>t. ingress_task_run sample_tv sorted_keys
      [IngressReceived (Some (sample_event 1 ''thread/started'' ''t'' ''a'')), IngressShutdown (Some True)]
      (ingress_task_new \<lparr> ig_reducer = the (reducer_new 4), ig_store = store_new roomy_cfg 0, ig_hub = event_hub_new \<rparr>) = Some t \<and>
     it_signals t = [sample_event 1 ''thread/started'' ''t'' ''a''] \<and> \<not> it_running t"
proof -
  let ?e = "sample_event 1 ''thread/started'' ''t'' ''a''"
  let ?ig = "\<lparr> ig_reducer = the (reducer_new 4), ig_store = store_new roomy_cfg 0, ig_hub = event_hub_new \<rparr>"
  let ?xs = "[IngressReceived (Some ?e), IngressShutdown (Some True)]"
  obtain g where "process sample_tv sorted_keys ?e ?ig = Some g"
    using ingress_run_exact [OF sorted_order.hash_order_axioms, of sample_tv "[?e]" "the (reducer_new 4)" roomy_cfg 0]
    by (auto simp: bind_eq_Some_conv)
  then obtain t where t: "ingress_task_run sample_tv sorted_keys ?xs (ingress_task_new ?ig) = Some t"
    by (simp add: ingress_task_step_def ingress_task_new_def)
  have "is_signal ?e" by (simp add: is_signal_def sample_event_def)
  with ingress_task_is_ingress_loop [OF t] t show ?thesis
    by (auto simp: List.map_filter_simps stops_def)
qed

lemma reapply_spec:
  assumes "reapply_extra_roots client sk = (Inr b, sk')"
  shows "case sk_extra_roots sk of
      None \<Rightarrow> sk' = sk
    | Some roots \<Rightarrow> wd_calls (sk_world sk') = wd_calls (sk_world sk) @ [roots_call roots] \<and>
        accepted (snd (client (wd_calls (sk_world sk) @ [roots_call roots])))"
proof (cases "sk_extra_roots sk")
  case (Some roots)
  obtain r s1 where o: "send_extra_roots client roots sk = (r, s1)" by fastforce
  with assms Some send_extra_roots_spec [OF o] show ?thesis
    by (auto simp: reapply_extra_roots_def encode_extra_roots_cases split: if_splits sum.splits)
qed (use assms in \<open>simp add: reapply_extra_roots_def\<close>)

definition delay_ok :: "reconnect_mode \<Rightarrow> bool" where
  "delay_ok m \<longleftrightarrow> (\<forall>d. m = RcRetrying d \<or> m = RcSleeping d \<longrightarrow> from_millis 50 \<le> d \<and> d \<le> from_secs 2)"

lemma reconnect_step_delay: "delay_ok (rc_mode s) \<Longrightarrow> reconnect_step x s = Some s' \<Longrightarrow> delay_ok (rc_mode s')"
  unfolding delay_ok_def
  by (auto simp: reconnect_step_def restore_def next_retry_def Let_def
    split: reconnect_mode.splits reconnect_input.splits option.splits if_splits prod.splits sum.splits)

text \<open>C21. The gate of a new connection is opened only after the connection was restored. Whenever the
  reconnect task has the gate opened, its phase was found reconciling and its gate closed, a
  reconciliation has just succeeded, and the remembered skill roots, if any, were sent again and
  acknowledged after it; and between two attempts it waits from 50 ms up to 2 s.\<close>

theorem gate_opened_only_after_restore:
  assumes "reconnect_run xs (reconnect_new ig sk) = Some s" and "reconnect_step x s = Some s'" and "rc_marks s' \<noteq> rc_marks s"
  shows "\<exists>env client outs d. x = RcAttempt Reconciling False env client \<and> rc_mode s = RcRetrying d \<and>
    from_millis 50 \<le> d \<and> d \<le> from_secs 2 \<and> rc_marks s' = Suc (rc_marks s) \<and>
    reconcile env (rc_ingestor s) = Some (Inr outs, rc_ingestor s') \<and>
    (case sk_extra_roots (rc_skills s) of
       None \<Rightarrow> rc_skills s' = rc_skills s
     | Some roots \<Rightarrow> wd_calls (sk_world (rc_skills s')) = wd_calls (sk_world (rc_skills s)) @ [roots_call roots] \<and>
         accepted (snd (client (wd_calls (sk_world (rc_skills s)) @ [roots_call roots]))))"
proof -
  have "delay_ok (rc_mode (reconnect_new ig sk))" by (simp add: delay_ok_def reconnect_new_def)
  then have delay: "delay_ok (rc_mode s)"
    using rcrun.run_invariant [where I = "\<lambda>s. delay_ok (rc_mode s)", OF _ _ assms(1)] reconnect_step_delay by blast
  obtain d env client s1 where x: "x = RcAttempt Reconciling False env client" "rc_mode s = RcRetrying d"
    and r: "restore env client s = Some (True, s1)" and s': "s' = s1\<lparr>rc_mode := RcWaiting, rc_marks := Suc (rc_marks s1)\<rparr>"
    using assms(2,3) by (auto simp: reconnect_step_def must_restore_def restore_def Let_def
      split: reconnect_mode.splits reconnect_input.splits option.splits if_splits prod.splits sum.splits)
  from r obtain outs ig' b sk' where "reconcile env (rc_ingestor s) = Some (Inr outs, ig')"
    and re: "reapply_extra_roots client (rc_skills s) = (Inr b, sk')" and "s1 = s\<lparr>rc_ingestor := ig', rc_skills := sk'\<rparr>"
    by (auto simp: restore_def Let_def split: option.splits sum.splits prod.splits)
  with reapply_spec [OF re] x delay s' show ?thesis by (auto simp: delay_ok_def split: option.splits)
qed

theorem gate_opened_only_after_restore_witness:
  "\<exists>s'. reconnect_step (RcAttempt Reconciling False empty_env (\<lambda>_. ([], Inr (JObject []))))
       ((reconnect_new (with_store (store_new roomy_cfg 0) (ingestor_new (the (reducer_new 4)) ingest_config_default))
          ((skill_controller_new (sample_world (the (reducer_new 4))))\<lparr>sk_extra_roots := Some [''/r'']\<rparr>))\<lparr>rc_mode := RcRetrying (from_millis 50)\<rparr>) = Some s' \<and>
     rc_marks s' = 1 \<and> wd_calls (sk_world (rc_skills s')) = [roots_call [''/r'']]"
proof -
  let ?ig = "with_store (store_new roomy_cfg 0) (ingestor_new (the (reducer_new 4)) ingest_config_default)"
  let ?sk = "(skill_controller_new (sample_world (the (reducer_new 4))))\<lparr>sk_extra_roots := Some [''/r'']\<rparr>"
  let ?x = "RcAttempt Reconciling False empty_env (\<lambda>_. ([], Inr (JObject [])))"
  let ?s = "(reconnect_new ?ig ?sk)\<lparr>rc_mode := RcRetrying (from_millis 50)\<rparr>"
  have run: "reconnect_run [RcHealth (Some (Reconciling, False))] (reconnect_new ?ig ?sk) = Some ?s"
    by (simp add: reconnect_step_def reconnect_new_def must_restore_def)
  have "normal_root ''/r''" unfolding normal_root_def by (intro disjI2 exI [of _ "[''r'']"]) simp
  then have "list_all normal_root [''/r'']" by simp
  then obtain sk' where re: "reapply_extra_roots (\<lambda>_. ([], Inr (JObject []))) ?sk = (Inr True, sk')"
    by (simp add: reapply_extra_roots_def skill_controller_new_def encode_extra_roots_cases send_extra_roots_def rpc_def
      Let_def others_def de_empty_response_def)
  obtain s1 where "restore empty_env (\<lambda>_. ([], Inr (JObject []))) ?s = Some (True, s1)" "rc_marks s1 = 0"
    by (simp add: restore_def reconnect_new_def empty_reconcile re)
  then have s': "reconnect_step ?x ?s = Some (s1\<lparr>rc_mode := RcWaiting, rc_marks := Suc (rc_marks s1)\<rparr>)"
    "rc_marks (s1\<lparr>rc_mode := RcWaiting, rc_marks := Suc (rc_marks s1)\<rparr>) = 1"
    by (simp_all add: reconnect_step_def must_restore_def)
  from gate_opened_only_after_restore [OF run s'(1)] s' show ?thesis
    by (auto simp: reconnect_new_def skill_controller_new_def)
qed

end
