(* ===== verification/Mock.thy ===== *)
theory Mock
  imports Transport
begin

text \<open>
  The stateful app-server of \<open>src/transport/src/mock.rs\<close> that the integration tests run
  against: its shared state, what it answers to each method, the faults it can be told to have,
  and its connections as state machines, whose steps end where the code waits: for the socket, for
  the channel, or for the lock of the state, so that other connections come between. The
  parser of message text, the iteration order of its hash map and the results of reads and
  writes are the environment's.
\<close>

section \<open>Threads\<close>

record mock_thread =
  mt_id :: string
  mt_cwd :: string
  mt_status :: string
  mt_turn_id :: "string option"
  mt_ephemeral :: bool
  mt_updated_at :: u64

definition mock_thread_json :: "mock_thread \<Rightarrow> json" where
  "mock_thread_json t =
     JObject [(''id'', JString (mt_id t)), (''cwd'', JString (mt_cwd t)),
              (''status'', JObject [(''type'', JString (mt_status t))]),
              (''turns'', case mt_turn_id t of
                 Some i \<Rightarrow> JArray [JObject [(''id'', JString i), (''status'', JString (mt_status t))]]
               | None \<Rightarrow> JArray []),
              (''ephemeral'', JBool (mt_ephemeral t)), (''updatedAt'', JNumber (PosInt (mt_updated_at t)))]"

definition absent_thread :: "string \<Rightarrow> mock_thread" where
  "absent_thread tid =
     \<lparr> mt_id = tid, mt_cwd = ''/mock/project'', mt_status = ''idle'', mt_turn_id = None,
       mt_ephemeral = False, mt_updated_at = 0 \<rparr>"

section \<open>State\<close>

datatype fault = NoFault | DisconnectOnMethod string | HalfOpen | InterruptCompletionBeforeResponse

record mock_state =
  mk_fault :: fault
  mk_threads :: "string \<rightharpoonup> mock_thread"
  mk_received :: "json list"
  mk_responses_to_server_requests :: nat
  mk_next_server_id :: u64
  mk_resume_failures :: nat
  mk_request_failures :: "string \<rightharpoonup> nat"
  mk_hooks_response :: "json option"

definition mock_state_new :: mock_state where
  "mock_state_new =
     \<lparr> mk_fault = NoFault, mk_threads = Map.empty, mk_received = [], mk_responses_to_server_requests = 0,
       mk_next_server_id = 9000, mk_resume_failures = 0, mk_request_failures = Map.empty,
       mk_hooks_response = None \<rparr>"

record mock_env =
  me_from_str :: "string \<Rightarrow> string + json"
  me_from_slice :: "8 word list \<Rightarrow> string + json"
  me_thread_order :: "(string \<rightharpoonup> mock_thread) \<Rightarrow> string list"

section \<open>Answering a request\<close>

definition result_response :: "json \<Rightarrow> json \<Rightarrow> json" where
  "result_response i result = JObject [(''jsonrpc'', JString ''2.0''), (''id'', i), (''result'', result)]"

definition error_response :: "json \<Rightarrow> int \<Rightarrow> string \<Rightarrow> json" where
  "error_response i code message =
     JObject [(''jsonrpc'', JString ''2.0''), (''id'', i),
              (''error'', JObject [(''code'', JNumber (NegInt (of_int code))), (''message'', JString message)])]"

definition mock_threads_listed :: "mock_env \<Rightarrow> mock_state \<Rightarrow> mock_thread list" where
  "mock_threads_listed env st =
     sort_key (\<lambda>t. - uint (mt_updated_at t))
       (List.map_filter (mk_threads st) (me_thread_order env (mk_threads st)))"

text \<open>The value of each method; \<open>params\<close> is \<open>Null\<close> where the request has none.\<close>

definition mock_result :: "mock_env \<Rightarrow> mock_state \<Rightarrow> string \<Rightarrow> json \<Rightarrow> json" where
  "mock_result env st meth params =
     (let thread_id = unwrap_or (as_str (jindex params ''threadId'')) []
      in if meth = ''initialize'' then
           JObject [(''serverInfo'', JObject [(''name'', JString ''mock''), (''version'', JString ''0.144.6'')])]
         else if meth = ''thread/list'' then
           JObject [(''data'', JArray (map mock_thread_json (mock_threads_listed env st))), (''nextCursor'', JNull)]
         else if meth = ''thread/read'' \<or> meth = ''thread/resume'' then
           JObject [(''thread'', mock_thread_json (unwrap_or (mk_threads st thread_id) (absent_thread thread_id)))]
         else if meth = ''thread/subscribe'' then JObject [(''subscriptionId'', JString (''sub-'' @ thread_id))]
         else if meth = ''thread/unsubscribe'' then JObject [(''status'', JString ''unsubscribed'')]
         else if meth = ''skills/extraRoots/set'' then JObject []
         else if meth = ''skills/list'' then
           (let cwd = (case Option.bind (jget ''cwds'' params) as_array of
                         Some (c # _) \<Rightarrow> c
                       | _ \<Rightarrow> JString ''/mock/project'')
            in JObject [(''data'', JArray [JObject [(''cwd'', cwd), (''skills'', JArray []), (''errors'', JArray [])]])])
         else if meth = ''hooks/list'' then unwrap_or (mk_hooks_response st) (JObject [(''data'', JArray [])])
         else if meth = ''config/batchWrite'' then JObject []
         else if meth = ''turn/interrupt'' then JObject []
         else if meth = ''turn/start'' then JObject [(''turn'', JObject [(''id'', JString ''mock-turn'')])]
         else if meth = ''turn/steer'' then JObject [(''turnId'', jindex params ''expectedTurnId'')]
         else JObject [])"

definition mock_handle_request :: "mock_env \<Rightarrow> json \<Rightarrow> mock_state \<Rightarrow> json option \<times> mock_state" where
  "mock_handle_request env v st =
     (case (jget ''id'' v, get_str ''method'' v) of
        (Some i, Some meth) \<Rightarrow>
          if meth = ''thread/resume'' \<and> 0 < mk_resume_failures st then
            (Some (error_response i (- 32000) ''no rollout found''),
             st\<lparr>mk_resume_failures := mk_resume_failures st - 1\<rparr>)
          else (Some (result_response i (mock_result env st meth (unwrap_or (jget ''params'' v) JNull))), st)
      | _ \<Rightarrow> (None, st))"

section \<open>Connections\<close>

text \<open>
  Where a connection's task is: before the upgrade, at the top of the loop, in the
  \<open>select!\<close>, or returned; in between it waits for the lock with what it has in hand. Its
  queue is what the broadcast channel holds for its receiver.
\<close>

datatype mock_mode =
    MockHandshake
  | MockTop
  | MockSelect
  | MockRead ws_message
  | MockReceive json
  | MockResume json json
  | MockResult json string json
  | MockForward json
  | MockEnded "string option"

datatype mock_out = MockText json | MockPong "8 word list"

record mock_conn =
  mc_mode :: mock_mode
  mc_queue :: "json list"
  mc_lagged :: nat
  mc_sent :: "mock_out list"

definition mock_conn_new :: mock_conn where
  "mock_conn_new = \<lparr> mc_mode = MockHandshake, mc_queue = [], mc_lagged = 0, mc_sent = [] \<rparr>"

text \<open>A write that fails ends the task with the error.\<close>

definition mock_send :: "mock_out \<Rightarrow> string option \<Rightarrow> mock_conn \<Rightarrow> mock_conn" where
  "mock_send out write c =
     (case write of
        None \<Rightarrow> c\<lparr>mc_mode := MockTop, mc_sent := mc_sent c @ [out]\<rparr>
      | Some err \<Rightarrow> c\<lparr>mc_mode := MockEnded (Some err)\<rparr>)"

definition mock_ended :: "mock_conn \<Rightarrow> bool" where
  "mock_ended c = (case mc_mode c of MockEnded _ \<Rightarrow> True | _ \<Rightarrow> False)"

text \<open>The section under the lock: counting, the record of what arrived, the faults.\<close>

definition mock_receive :: "json \<Rightarrow> mock_state \<Rightarrow> mock_state" where
  "mock_receive v st =
     st\<lparr>mk_responses_to_server_requests := mk_responses_to_server_requests st +
          (if jget ''method'' v = None \<and> jget ''id'' v \<noteq> None then 1 else 0),
        mk_received := mk_received st @ [v]\<rparr>"

definition disconnects :: "json \<Rightarrow> mock_state \<Rightarrow> bool" where
  "disconnects v st = (case mk_fault st of DisconnectOnMethod m \<Rightarrow> jindex v ''method'' = JString m | _ \<Rightarrow> False)"

definition take_request_failure :: "json \<Rightarrow> mock_state \<Rightarrow> bool \<times> mock_state" where
  "take_request_failure v st =
     (case as_str (jindex v ''method'') of
        None \<Rightarrow> (False, st)
      | Some m \<Rightarrow>
          (case mk_request_failures st m of
             Some (Suc n) \<Rightarrow> (True, st\<lparr>mk_request_failures := (mk_request_failures st)(m \<mapsto> n)\<rparr>)
           | _ \<Rightarrow> (False, st)))"

definition interrupts_early :: "json \<Rightarrow> mock_state \<Rightarrow> bool" where
  "interrupts_early v st \<longleftrightarrow>
     mk_fault st = InterruptCompletionBeforeResponse \<and> jindex v ''method'' = JString ''turn/interrupt''"

definition early_completion :: "json \<Rightarrow> json" where
  "early_completion v =
     (let params = unwrap_or (jget ''params'' v) JNull
      in notification_envelope ''turn/completed''
           (JObject [(''threadId'', jindex params ''threadId''),
                     (''turn'', JObject [(''id'', jindex params ''turnId''), (''status'', JString ''interrupted'')])]))"

text \<open>What follows the section: \<open>handle_request\<close>, up to its first lock.\<close>

definition handling :: "json \<Rightarrow> mock_mode" where
  "handling v =
     (case (jget ''id'' v, get_str ''method'' v) of
        (Some i, Some meth) \<Rightarrow>
          (let params = unwrap_or (jget ''params'' v) JNull
           in if meth = ''thread/resume'' then MockResume i params else MockResult i meth params)
      | _ \<Rightarrow> MockTop)"

definition receive_value :: "json \<Rightarrow> string option \<Rightarrow> mock_state \<times> mock_conn \<Rightarrow> mock_state \<times> mock_conn" where
  "receive_value v write sc =
     (let st1 = mock_receive v (fst sc); c = snd sc
      in if disconnects v st1 then (st1, c\<lparr>mc_mode := MockEnded None\<rparr>)
         else
           (let (failing, st2) = take_request_failure v st1
            in (st2,
                if failing then
                  mock_send (MockText (error_response (jindex v ''id'') (- 32001) ''transient mock failure'')) write c
                else if interrupts_early v st2 then
                  (let c1 = mock_send (MockText (early_completion v)) write c
                   in if mock_ended c1 then c1 else c1\<lparr>mc_mode := handling v\<rparr>)
                else c\<lparr>mc_mode := handling v\<rparr>)))"

text \<open>The message that was read, once the server is seen not to be half open.\<close>

definition read_message :: "mock_env \<Rightarrow> ws_message \<Rightarrow> string option \<Rightarrow> mock_conn \<Rightarrow> mock_conn" where
  "read_message env m write c =
     (let parsed = (\<lambda>r. case r of
            Inl e \<Rightarrow> c\<lparr>mc_mode := MockEnded (Some e)\<rparr>
          | Inr v \<Rightarrow> c\<lparr>mc_mode := MockReceive v\<rparr>)
      in case m of
           MsgPing payload \<Rightarrow> mock_send (MockPong payload) write c
         | MsgText s \<Rightarrow> parsed (me_from_str env s)
         | MsgBinary bytes \<Rightarrow> parsed (me_from_slice env bytes)
         | MsgClose \<Rightarrow> c\<lparr>mc_mode := MockEnded None\<rparr>
         | _ \<Rightarrow> c\<lparr>mc_mode := MockTop\<rparr>)"

text \<open>A connection gets the lock; \<open>write\<close> is the result of the write that follows, if one does.\<close>

definition conn_lock :: "mock_env \<Rightarrow> string option \<Rightarrow> mock_state \<times> mock_conn \<Rightarrow> (mock_state \<times> mock_conn) option" where
  "conn_lock env write sc =
     (let st = fst sc; c = snd sc
      in case mc_mode c of
           MockTop \<Rightarrow> Some (st, c\<lparr>mc_mode := (if mk_fault st = HalfOpen then MockTop else MockSelect)\<rparr>)
         | MockRead m \<Rightarrow>
             Some (st, if mk_fault st = HalfOpen then c\<lparr>mc_mode := MockTop\<rparr> else read_message env m write c)
         | MockReceive v \<Rightarrow> Some (receive_value v write sc)
         | MockResume i params \<Rightarrow>
             Some (if 0 < mk_resume_failures st then
                 (st\<lparr>mk_resume_failures := mk_resume_failures st - 1\<rparr>,
                  mock_send (MockText (error_response i (- 32000) ''no rollout found'')) write c)
               else (st, c\<lparr>mc_mode := MockResult i ''thread/resume'' params\<rparr>))
         | MockResult i meth params \<Rightarrow>
             Some (st, mock_send (MockText (result_response i (mock_result env st meth params))) write c)
         | MockForward v \<Rightarrow>
             Some (st, if mk_fault st = HalfOpen \<or> v = JNull then c\<lparr>mc_mode := MockTop\<rparr>
                       else mock_send (MockText v) write c)
         | _ \<Rightarrow> None)"

text \<open>The upgrade callback answers 404 to any path but one.\<close>

definition upgrade_answer :: "string \<Rightarrow> nat + unit" where
  "upgrade_answer path = (if path \<noteq> ''/rpc'' then Inl 404 else Inr ())"

datatype mock_read = ReadEnded | ReadError string | ReadMessage ws_message

datatype conn_input =
    ConnUpgrade string "string option"
  | ConnLock "string option"
  | ConnRead mock_read
  | ConnOutgoing

text \<open>
  One step of a connection. The upgrade fails with an error when the callback refuses the path,
  and may fail otherwise; the text of either error is in the input.
\<close>

definition conn_step :: "mock_env \<Rightarrow> conn_input \<Rightarrow> mock_state \<times> mock_conn \<Rightarrow> (mock_state \<times> mock_conn) option" where
  "conn_step env x sc =
     (let st = fst sc; c = snd sc
      in case (x, mc_mode c) of
           (ConnUpgrade path err, MockHandshake) \<Rightarrow>
             (case (upgrade_answer path, err) of
                (Inl status, None) \<Rightarrow> None
              | (_, Some e) \<Rightarrow> Some (st, c\<lparr>mc_mode := MockEnded (Some e)\<rparr>)
              | (Inr _, None) \<Rightarrow> Some (st, c\<lparr>mc_mode := MockTop\<rparr>))
         | (ConnLock write, _) \<Rightarrow> conn_lock env write sc
         | (ConnRead r, MockSelect) \<Rightarrow>
             Some (st, c\<lparr>mc_mode := (case r of
                 ReadEnded \<Rightarrow> MockEnded None
               | ReadError e \<Rightarrow> MockEnded (Some e)
               | ReadMessage m \<Rightarrow> MockRead m)\<rparr>)
         | (ConnOutgoing, MockSelect) \<Rightarrow>
             if 0 < mc_lagged c then Some (st, c\<lparr>mc_lagged := 0, mc_mode := MockTop\<rparr>)
             else (case mc_queue c of
                 [] \<Rightarrow> None
               | v # q \<Rightarrow> Some (st, c\<lparr>mc_queue := q, mc_mode := MockForward v\<rparr>))
         | _ \<Rightarrow> None)"

section \<open>The server\<close>

record mock_server =
  ms_state :: mock_state
  ms_conns :: "mock_conn list"
  ms_accepting :: bool
  ms_shutdown_sent :: bool

text \<open>\<open>start\<close>: the old socket file goes, then the listener binds.\<close>

definition mock_start :: "bool \<Rightarrow> string option \<Rightarrow> string option \<Rightarrow> string + mock_server" where
  "mock_start exists removed bound =
     (if exists \<and> removed \<noteq> None then Inl (unwrap_or removed [])
      else case bound of
          Some err \<Rightarrow> Inl err
        | None \<Rightarrow> Inr \<lparr> ms_state = mock_state_new, ms_conns = [], ms_accepting = True, ms_shutdown_sent = False \<rparr>)"

text \<open>
  A broadcast reaches every receiver that is there; the channel keeps 128 values, and a receiver
  that is further behind loses the oldest and is told so at its next receive.
\<close>

definition enqueue :: "json \<Rightarrow> mock_conn \<Rightarrow> mock_conn" where
  "enqueue v c =
     (if mock_ended c then c
      else if length (mc_queue c) < 128 then c\<lparr>mc_queue := mc_queue c @ [v]\<rparr>
      else c\<lparr>mc_queue := tl (mc_queue c) @ [v], mc_lagged := Suc (mc_lagged c)\<rparr>)"

definition broadcast :: "json \<Rightarrow> mock_server \<Rightarrow> mock_server" where
  "broadcast v s = s\<lparr>ms_conns := map (enqueue v) (ms_conns s)\<rparr>"

definition on_state :: "(mock_state \<Rightarrow> mock_state) \<Rightarrow> mock_server \<Rightarrow> mock_server" where
  "on_state f s = s\<lparr>ms_state := f (ms_state s)\<rparr>"

datatype mock_op =
    AddThread mock_thread
  | SetFault fault
  | SetResumeFailures nat
  | SetRequestFailures string nat
  | SetHooksResponse json
  | EmitNotification string json
  | EmitServerRequest string json
  | MockShutdown

fun mock_perform :: "mock_op \<Rightarrow> mock_server \<Rightarrow> mock_server" where
  "mock_perform (AddThread t) s = on_state (\<lambda>st. st\<lparr>mk_threads := (mk_threads st)(mt_id t \<mapsto> t)\<rparr>) s"
| "mock_perform (SetFault f) s = broadcast JNull (on_state (\<lambda>st. st\<lparr>mk_fault := f\<rparr>) s)"
| "mock_perform (SetResumeFailures n) s = on_state (\<lambda>st. st\<lparr>mk_resume_failures := n\<rparr>) s"
| "mock_perform (SetRequestFailures m n) s = on_state (\<lambda>st. st\<lparr>mk_request_failures := (mk_request_failures st)(m \<mapsto> n)\<rparr>) s"
| "mock_perform (SetHooksResponse v) s = on_state (\<lambda>st. st\<lparr>mk_hooks_response := Some v\<rparr>) s"
| "mock_perform (EmitNotification m p) s = broadcast (notification_envelope m p) s"
| "mock_perform (EmitServerRequest m p) s =
     (let s1 = on_state (\<lambda>st. st\<lparr>mk_next_server_id := mk_next_server_id st + 1\<rparr>) s
      in broadcast (request_envelope (RpcNumber (mk_next_server_id (ms_state s1))) m p) s1)"
| "mock_perform MockShutdown s = s\<lparr>ms_shutdown_sent := True\<rparr>"

datatype mock_input =
    MockAccept bool
  | MockStopAccepting
  | MockOp mock_op
  | MockConn nat conn_input

definition mock_step :: "mock_env \<Rightarrow> mock_input \<Rightarrow> mock_server \<Rightarrow> mock_server option" where
  "mock_step env x s =
     (case x of
        MockAccept ok \<Rightarrow>
          if \<not> ms_accepting s then None
          else Some (if ok then s\<lparr>ms_conns := ms_conns s @ [mock_conn_new]\<rparr> else s\<lparr>ms_accepting := False\<rparr>)
      | MockStopAccepting \<Rightarrow>
          if ms_accepting s \<and> ms_shutdown_sent s then Some (s\<lparr>ms_accepting := False\<rparr>) else None
      | MockOp op \<Rightarrow> Some (mock_perform op s)
      | MockConn n cx \<Rightarrow>
          if n < length (ms_conns s) then
            map_option (\<lambda>(st, c). s\<lparr>ms_state := st, ms_conns := (ms_conns s)[n := c]\<rparr>)
              (conn_step env cx (ms_state s, ms_conns s ! n))
          else None)"

fun mock_run :: "mock_env \<Rightarrow> mock_input list \<Rightarrow> mock_server \<Rightarrow> mock_server option" where
  "mock_run env [] s = Some s"
| "mock_run env (x # xs) s = Option.bind (mock_step env x s) (mock_run env xs)"

section \<open>Requests and responses\<close>

definition message_method :: "json \<Rightarrow> string option" where
  "message_method v = as_str (jindex v ''method'')"

lemma message_method_get: "message_method v = get_str ''method'' v"
  by (simp add: message_method_def get_str_def jindex_def unwrap_or_def split: option.splits)

lemma jindex_method: "jindex v ''method'' = JString m \<longleftrightarrow> get_str ''method'' v = Some m"
  by (auto simp: get_str_Some jindex_def unwrap_or_def split: option.splits)

text \<open>The ids of the responses a connection has sent; a response is what has no method.\<close>

fun response_id :: "mock_out \<Rightarrow> json option" where
  "response_id (MockText r) = (if jget ''method'' r = None then Some (jindex r ''id'') else None)"
| "response_id (MockPong _) = None"

definition answered :: "mock_conn \<Rightarrow> json multiset" where
  "answered c = mset (List.map_filter response_id (mc_sent c))"

definition asked :: "json list \<Rightarrow> json multiset" where
  "asked vs = mset (map (\<lambda>v. jindex v ''id'') (filter (\<lambda>v. get_str ''method'' v \<noteq> None) vs))"

definition requested :: "json list \<Rightarrow> json multiset" where
  "requested vs = mset (List.map_filter (\<lambda>v. if get_str ''method'' v = None then None else jget ''id'' v) vs)"

definition server_answered :: "mock_server \<Rightarrow> json multiset" where
  "server_answered s = sum_list (map answered (ms_conns s))"

lemma response_forms [simp]:
  "response_id (MockText (result_response i r)) = Some i"
  "response_id (MockText (error_response i code m)) = Some i"
  "response_id (MockText (notification_envelope m p)) = None"
  "response_id (MockText (request_envelope q m p)) = None"
  by (simp_all add: result_response_def error_response_def notification_envelope_def request_envelope_def jindex_def)

lemma early_completion_response [simp]: "response_id (MockText (early_completion v)) = None"
  by (simp only: early_completion_def Let_def response_forms)

declare response_id.simps(1) [simp del]

lemma answered_conn [simp]:
  "answered (c\<lparr>mc_mode := m\<rparr>) = answered c" "answered (c\<lparr>mc_queue := q\<rparr>) = answered c"
  "answered (c\<lparr>mc_lagged := n\<rparr>) = answered c" "answered mock_conn_new = {#}"
  by (simp_all add: answered_def mock_conn_new_def)

lemma answered_send: "answered (mock_send out w c) =
    answered c + (case response_id out of Some i \<Rightarrow> if w = None then {#i#} else {#} | None \<Rightarrow> {#})"
  by (simp add: mock_send_def answered_def map_filter_def split: option.splits)

lemma mock_send_simps [simp]:
  "mc_queue (mock_send out w c) = mc_queue c" "mc_lagged (mock_send out w c) = mc_lagged c"
  "mock_send out None c = c\<lparr>mc_mode := MockTop, mc_sent := mc_sent c @ [out]\<rparr>"
  "mock_ended (mock_send out w c) \<longleftrightarrow> w \<noteq> None"
  by (simp_all add: mock_send_def mock_ended_def split: option.splits)

lemma asked_snoc: "asked (vs @ [v]) = asked vs + (if get_str ''method'' v = None then {#} else {#jindex v ''id''#})"
  by (simp add: asked_def)

lemma requested_snoc: "requested (vs @ [v]) = requested vs +
    (case jget ''id'' v of Some i \<Rightarrow> if get_str ''method'' v = None then {#} else {#i#} | None \<Rightarrow> {#})"
  by (auto simp: requested_def map_filter_def split: option.splits)

lemma handle_request_spec:
  "mock_handle_request env v st = (r, st') \<Longrightarrow>
     mk_received st' = mk_received st \<and> mk_fault st' = mk_fault st \<and> mk_threads st' = mk_threads st \<and>
     (case r of
        None \<Rightarrow> jget ''id'' v = None \<or> get_str ''method'' v = None
      | Some resp \<Rightarrow> get_str ''method'' v \<noteq> None \<and>
          (\<exists>i. jget ''id'' v = Some i \<and> response_id (MockText resp) = Some i))"
  by (auto simp: mock_handle_request_def split: option.splits if_splits)

lemma take_failure_spec:
  "take_request_failure v st = (b, st') \<Longrightarrow>
     mk_received st' = mk_received st \<and> mk_fault st' = mk_fault st \<and> mk_threads st' = mk_threads st \<and>
     (b \<longrightarrow> get_str ''method'' v \<noteq> None)"
  by (auto simp: take_request_failure_def message_method_get [unfolded message_method_def] split: option.splits nat.splits)

text \<open>
  A request whose response is still to come: the section recorded it, the answer waits for the
  lock.
\<close>

definition serving :: "mock_conn \<Rightarrow> json multiset" where
  "serving c =
     (case mc_mode c of MockResume i params \<Rightarrow> {#i#} | MockResult i meth params \<Rightarrow> {#i#} | _ \<Rightarrow> {#})"

text \<open>The responses sent and the ones to come.\<close>

definition accounted :: "mock_conn \<Rightarrow> json multiset" where
  "accounted c = answered c + serving c"

definition server_serving :: "mock_server \<Rightarrow> json multiset" where
  "server_serving s = sum_list (map serving (ms_conns s))"

lemma serving_send: "serving (mock_send out w c) = {#}"
  by (simp add: serving_def mock_send_def split: option.splits)

lemma serving_mode: "serving (c\<lparr>mc_mode := m\<rparr>) =
    (case m of MockResume i params \<Rightarrow> {#i#} | MockResult i meth params \<Rightarrow> {#i#} | _ \<Rightarrow> {#})"
  by (simp add: serving_def)

lemma serving_handling: "serving (c\<lparr>mc_mode := handling v\<rparr>) =
    (case jget ''id'' v of Some i \<Rightarrow> if get_str ''method'' v = None then {#} else {#i#} | None \<Rightarrow> {#})"
  by (cases "jget ''id'' v"; cases "get_str ''method'' v") (simp_all add: serving_def handling_def Let_def)

text \<open>What serving a value adds to them.\<close>

definition serves :: "json \<Rightarrow> bool \<Rightarrow> mock_conn \<Rightarrow> mock_conn \<Rightarrow> bool" where
  "serves v ok c c' \<longleftrightarrow>
     (\<exists>A. accounted c' = accounted c + A \<and> A \<subseteq># (if get_str ''method'' v = None then {#} else {#jindex v ''id''#}) \<and>
        (ok \<and> get_str ''method'' v \<noteq> None \<and> jget ''id'' v \<noteq> None \<longrightarrow> A = {#jindex v ''id''#}))"

lemma serves_none: "accounted c' = accounted c \<Longrightarrow> \<not> ok \<or> get_str ''method'' v = None \<or> jget ''id'' v = None \<Longrightarrow> serves v ok c c'"
  unfolding serves_def by (intro exI [of _ "{#}"]) auto

lemma handling_serves:
  assumes "answered c1 = accounted c"
  shows "serves v ok c (c1\<lparr>mc_mode := handling v\<rparr>)"
  using assms by (cases "jget ''id'' v"; cases "get_str ''method'' v") (simp_all add: serves_def accounted_def serving_handling jindex_def)

lemma receive_value_spec:
  assumes "receive_value v w (st, c) = (st', c')" and "serving c = {#}"
  shows "mk_received st' = mk_received st @ [v] \<and> mk_fault st' = mk_fault st \<and> mk_threads st' = mk_threads st \<and>
    mc_queue c' = mc_queue c \<and> serves v (w = None \<and> \<not> disconnects v st) c c'"
proof -
  let ?st1 = "mock_receive v st"
  have st1: "mk_received ?st1 = mk_received st @ [v]" "mk_fault ?st1 = mk_fault st" "mk_threads ?st1 = mk_threads st"
    "disconnects v ?st1 = disconnects v st"
    by (simp_all add: mock_receive_def disconnects_def)
  have acc: "accounted c = answered c" using assms(2) by (simp add: accounted_def)
  show ?thesis
  proof (cases "disconnects v st")
    case True
    with assms(1) st1 acc show ?thesis
      by (auto simp: receive_value_def Let_def accounted_def serving_mode intro!: serves_none)
  next
    case False
    obtain b st2 where f: "take_request_failure v ?st1 = (b, st2)" by fastforce
    note tf = take_failure_spec [OF f]
    have sv: "st' = st2" "c' = (if b then mock_send (MockText (error_response (jindex v ''id'') (- 32001) ''transient mock failure'')) w c
        else if interrupts_early v st2 then
          (let c1 = mock_send (MockText (early_completion v)) w c in if mock_ended c1 then c1 else c1\<lparr>mc_mode := handling v\<rparr>)
        else c\<lparr>mc_mode := handling v\<rparr>)"
      using assms(1) False f st1(4) by (simp_all add: receive_value_def Let_def)
    let ?c1 = "mock_send (MockText (early_completion v)) w c"
    consider "b" | "\<not> b" "interrupts_early v st2" "w \<noteq> None" | "\<not> b" "interrupts_early v st2" "w = None" | "\<not> b" "\<not> interrupts_early v st2"
      by blast
    then have "mc_queue c' = mc_queue c \<and> serves v (w = None \<and> \<not> disconnects v st) c c'"
    proof cases
      case 1
      with sv(2) tf acc show ?thesis by (auto simp: serves_def accounted_def answered_send serving_send)
    next
      case 2
      with sv(2) have "c' = ?c1" by simp
      with 2 acc show ?thesis by (auto simp: accounted_def answered_send serving_send intro!: serves_none)
    next
      case 3
      with sv(2) have "c' = ?c1\<lparr>mc_mode := handling v\<rparr>" by (simp add: mock_ended_def Let_def)
      moreover have "answered ?c1 = accounted c" by (simp add: acc answered_send del: mock_send_simps)
      ultimately show ?thesis using handling_serves [of ?c1 c v "w = None \<and> \<not> disconnects v st"] by (simp add: 3)
    next
      case 4
      with sv(2) have "c' = c\<lparr>mc_mode := handling v\<rparr>" by simp
      with handling_serves [of c c] acc show ?thesis by simp
    qed
    with sv(1) tf st1 show ?thesis by simp
  qed
qed

section \<open>Runs\<close>

interpretation mock: stepwise_run "mock_step env" "mock_run env" for env
  by unfold_locales simp_all

fun reliable :: "mock_input \<Rightarrow> bool" where
  "reliable (MockConn n (ConnLock write)) \<longleftrightarrow> write = None"
| "reliable (MockOp (SetFault (DisconnectOnMethod m))) \<longleftrightarrow> False"
| "reliable _ \<longleftrightarrow> True"

text \<open>What is broadcast is no response.\<close>

definition queue_ok :: "mock_conn \<Rightarrow> bool" where
  "queue_ok c \<longleftrightarrow>
     (\<forall>v. v \<in> set (mc_queue c) \<or> mc_mode c = MockForward v \<longrightarrow> v = JNull \<or> jget ''method'' v \<noteq> None)"

definition never_disconnects :: "mock_state \<Rightarrow> bool" where
  "never_disconnects st \<longleftrightarrow> (case mk_fault st of DisconnectOnMethod m \<Rightarrow> False | _ \<Rightarrow> True)"

lemma never_disconnects_on: "never_disconnects st \<Longrightarrow> \<not> disconnects v st"
  by (auto simp: never_disconnects_def disconnects_def split: fault.splits)

lemma receive_value_mode: "mc_mode (snd (receive_value v w sc)) \<noteq> MockForward u"
  by (auto simp: receive_value_def Let_def mock_send_def handling_def split: prod.splits option.splits)

lemma mock_send_mode: "mc_mode (mock_send out w c) \<noteq> MockForward v"
  by (simp add: mock_send_def split: option.splits)

lemma read_message_spec:
  "mc_queue (read_message env m w c) = mc_queue c" "answered (read_message env m w c) = answered c"
  "serving (read_message env m w c) = {#}" "mc_mode (read_message env m w c) \<noteq> MockForward v"
  by (cases m; simp add: read_message_def answered_send serving_send serving_mode mock_send_mode split: sum.split)+

text \<open>What a step does to what a connection accounts for, outside the section.\<close>

definition keeps_account :: "bool \<Rightarrow> mock_conn \<Rightarrow> mock_conn \<Rightarrow> bool" where
  "keeps_account ok c c' \<longleftrightarrow> accounted c' \<subseteq># accounted c \<and> (ok \<longrightarrow> accounted c' = accounted c)"

lemma conn_lock_spec:
  assumes "conn_lock env w (st, c) = Some (st', c')" and "queue_ok c"
  shows "mk_fault st' = mk_fault st \<and> mk_threads st' = mk_threads st \<and> queue_ok c' \<and>
    (mk_received st' = mk_received st \<and> keeps_account (w = None) c c' \<or>
     (\<exists>v. mk_received st' = mk_received st @ [v] \<and> serves v (w = None \<and> never_disconnects st) c c'))"
proof (cases "mc_mode c")
  case (MockReceive v)
  with assms(1) have r: "receive_value v w (st, c) = (st', c')" by (simp add: conn_lock_def)
  have "serving c = {#}" by (simp add: serving_def MockReceive)
  note spec = receive_value_spec [OF r this]
  have "queue_ok c'"
    using assms(2) spec receive_value_mode [of v w "(st, c)"] r by (auto simp: queue_ok_def)
  with spec never_disconnects_on [of st v] show ?thesis by (auto simp: serves_def)
next
  case (MockRead m)
  with assms read_message_spec [of env m w c] show ?thesis
    by (cases "mk_fault st = HalfOpen") (auto simp: conn_lock_def queue_ok_def keeps_account_def accounted_def serving_mode serving_def [of c])
next
  case (MockForward v)
  with assms show ?thesis
    by (auto simp: conn_lock_def queue_ok_def keeps_account_def accounted_def serving_def [of c] serving_send serving_mode
        answered_send response_id.simps mock_send_mode simp del: mock_send_simps(3) split: if_splits)
next
  case (MockResume i params)
  with assms show ?thesis
    by (auto simp: conn_lock_def queue_ok_def keeps_account_def accounted_def serving_def [of c] serving_send serving_mode
        answered_send mock_send_mode simp del: mock_send_simps(3) split: if_splits)
next
  case (MockResult i meth params)
  with assms show ?thesis
    by (auto simp: conn_lock_def queue_ok_def keeps_account_def accounted_def serving_def [of c] serving_send serving_mode
        answered_send mock_send_mode simp del: mock_send_simps(3) split: if_splits)
qed (use assms in \<open>auto simp: conn_lock_def queue_ok_def keeps_account_def accounted_def serving_def split: if_splits\<close>)

lemma conn_step_spec:
  assumes "conn_step env x (st, c) = Some (st', c')" and "queue_ok c"
  shows "mk_fault st' = mk_fault st \<and> mk_threads st' = mk_threads st \<and> queue_ok c' \<and>
    (mk_received st' = mk_received st \<and> keeps_account (reliable (MockConn n x)) c c' \<or>
     (\<exists>v. mk_received st' = mk_received st @ [v] \<and> serves v (reliable (MockConn n x) \<and> never_disconnects st) c c'))"
proof (cases x)
  case (ConnLock w)
  with conn_lock_spec [of env w st c st' c'] assms show ?thesis by (simp add: conn_step_def)
next
  case (ConnUpgrade path err)
  with assms show ?thesis
    by (cases "mc_mode c"; cases "upgrade_answer path"; cases err)
      (auto simp: conn_step_def queue_ok_def keeps_account_def accounted_def serving_def)
next
  case (ConnRead r)
  with assms show ?thesis
    by (cases "mc_mode c"; cases r) (auto simp: conn_step_def queue_ok_def keeps_account_def accounted_def serving_def)
next
  case ConnOutgoing
  with assms show ?thesis
    by (cases "mc_mode c"; cases "mc_queue c")
      (auto simp: conn_step_def queue_ok_def keeps_account_def accounted_def serving_def split: if_splits)
qed

definition server_accounted :: "mock_server \<Rightarrow> json multiset" where
  "server_accounted s = sum_list (map accounted (ms_conns s))"

lemma server_accounted_sum: "server_accounted s = server_answered s + server_serving s"
  by (simp add: server_accounted_def server_answered_def server_serving_def accounted_def [abs_def] sum_list_addf)

lemma server_accounted_update:
  assumes "n < length (ms_conns s)"
  shows "server_accounted (s\<lparr>ms_state := st, ms_conns := (ms_conns s)[n := c]\<rparr>) + accounted (ms_conns s ! n) =
    server_accounted s + accounted c"
proof -
  from assms obtain xs y ys where "ms_conns s = xs @ y # ys" "length xs = n"
    by (metis id_take_nth_drop length_take min.absorb2 order_less_imp_le)
  then show ?thesis by (auto simp: server_accounted_def ac_simps)
qed

lemma accounted_enqueue [simp]: "accounted (enqueue v c) = accounted c"
  by (simp add: enqueue_def accounted_def serving_def)

lemma queue_ok_enqueue: "queue_ok c \<Longrightarrow> v = JNull \<or> jget ''method'' v \<noteq> None \<Longrightarrow> queue_ok (enqueue v c)"
  by (auto simp: queue_ok_def enqueue_def dest: list.set_sel(2) [rotated])

lemma broadcast_spec:
  "server_accounted (broadcast v s) = server_accounted s" "ms_state (broadcast v s) = ms_state s"
  "list_all queue_ok (ms_conns s) \<Longrightarrow> v = JNull \<or> jget ''method'' v \<noteq> None \<Longrightarrow> list_all queue_ok (ms_conns (broadcast v s))"
  by (simp_all add: broadcast_def server_accounted_def comp_def list_all_iff queue_ok_enqueue)

lemma envelope_methods [simp]: "jget ''method'' (notification_envelope m p) \<noteq> None" "jget ''method'' (request_envelope i m p) \<noteq> None"
  by (simp_all add: notification_envelope_def request_envelope_def)

lemma mock_perform_spec:
  "server_accounted (mock_perform op s) = server_accounted s"
  "mk_received (ms_state (mock_perform op s)) = mk_received (ms_state s)"
  "list_all queue_ok (ms_conns s) \<Longrightarrow> list_all queue_ok (ms_conns (mock_perform op s))"
  "reliable (MockOp op) \<Longrightarrow> never_disconnects (ms_state s) \<Longrightarrow> never_disconnects (ms_state (mock_perform op s))"
proof -
  have a: "server_accounted (on_state f s) = server_accounted s" "ms_conns (on_state f s) = ms_conns s" for f
    by (simp_all add: on_state_def server_accounted_def)
  show "server_accounted (mock_perform op s) = server_accounted s"
    by (cases op) (simp_all add: broadcast_spec a Let_def, simp add: server_accounted_def)
  show "mk_received (ms_state (mock_perform op s)) = mk_received (ms_state s)"
    by (cases op) (simp_all add: broadcast_spec(2) on_state_def Let_def)
  show "list_all queue_ok (ms_conns s) \<Longrightarrow> list_all queue_ok (ms_conns (mock_perform op s))"
    by (cases op) (simp_all add: broadcast_spec(3) a Let_def)
  show "reliable (MockOp op) \<Longrightarrow> never_disconnects (ms_state s) \<Longrightarrow> never_disconnects (ms_state (mock_perform op s))"
  proof (cases op)
    case (SetFault f)
    then show "reliable (MockOp op) \<Longrightarrow> never_disconnects (ms_state (mock_perform op s))"
      by (cases f) (simp_all add: broadcast_spec(2) on_state_def never_disconnects_def)
  qed (simp_all add: broadcast_spec(2) on_state_def never_disconnects_def Let_def)
qed

text \<open>What holds of a server after the inputs \<open>xs\<close>.\<close>

definition conversation_ok :: "mock_input list \<Rightarrow> mock_server \<Rightarrow> bool" where
  "conversation_ok xs s \<longleftrightarrow> list_all queue_ok (ms_conns s) \<and>
     server_accounted s \<subseteq># asked (mk_received (ms_state s)) \<and>
     (list_all reliable xs \<longrightarrow> never_disconnects (ms_state s) \<and> requested (mk_received (ms_state s)) \<subseteq># server_accounted s)"

lemma conversation_account:
  assumes I: "conversation_ok xs s" and n: "n < length (ms_conns s)" and "queue_ok c'"
    and account: "server_accounted s' \<subseteq># asked (mk_received st')"
      "list_all reliable (xs @ [x]) \<Longrightarrow> requested (mk_received st') \<subseteq># server_accounted s'"
    and fault: "mk_fault st' = mk_fault (ms_state s)"
    and s': "s' = s\<lparr>ms_state := st', ms_conns := (ms_conns s)[n := c']\<rparr>"
  shows "conversation_ok (xs @ [x]) s'"
proof -
  have "list_all queue_ok ((ms_conns s)[n := c'])"
    using I assms(3) by (auto simp: conversation_ok_def list_all_iff dest!: set_update_subset_insert [THEN subsetD])
  with I account fault show ?thesis by (auto simp: conversation_ok_def never_disconnects_def s')
qed

lemma conversation_serves:
  assumes I: "conversation_ok xs s" and n: "n < length (ms_conns s)"
    and v: "mk_received st' = mk_received (ms_state s) @ [v]"
    and serves: "serves v (reliable x \<and> never_disconnects (ms_state s)) (ms_conns s ! n) c'"
    and s': "s' = s\<lparr>ms_state := st', ms_conns := (ms_conns s)[n := c']\<rparr>"
  shows "server_accounted s' \<subseteq># asked (mk_received st')"
    and "list_all reliable (xs @ [x]) \<Longrightarrow> requested (mk_received st') \<subseteq># server_accounted s'"
proof -
  from serves obtain A where A: "accounted c' = accounted (ms_conns s ! n) + A"
    "A \<subseteq># (if get_str ''method'' v = None then {#} else {#jindex v ''id''#})"
    "reliable x \<and> never_disconnects (ms_state s) \<and> get_str ''method'' v \<noteq> None \<and> jget ''id'' v \<noteq> None \<Longrightarrow>
      A = {#jindex v ''id''#}" unfolding serves_def by blast
  have sa: "server_accounted s' = server_accounted s + A"
    using server_accounted_update [OF n, where st = st' and c = c'] A(1) unfolding s' by (simp add: ac_simps)
  show "server_accounted s' \<subseteq># asked (mk_received st')"
    unfolding v asked_snoc sa using I A(2) by (intro subset_mset.add_mono) (simp_all add: conversation_ok_def)
  assume r: "list_all reliable (xs @ [x])"
  then have "requested (mk_received (ms_state s)) \<subseteq># server_accounted s" and nd: "never_disconnects (ms_state s)"
    using I by (auto simp: conversation_ok_def)
  moreover have "(case jget ''id'' v of Some i \<Rightarrow> if get_str ''method'' v = None then {#} else {#i#} | None \<Rightarrow> {#}) \<subseteq># A"
    using A(3) r nd by (auto simp: jindex_def split: option.splits)
  ultimately show "requested (mk_received st') \<subseteq># server_accounted s'"
    by (simp add: v requested_snoc sa subset_mset.add_mono)
qed

lemma conversation_keeps:
  assumes I: "conversation_ok xs s" and n: "n < length (ms_conns s)"
    and v: "mk_received st' = mk_received (ms_state s)"
    and keeps: "keeps_account (reliable x) (ms_conns s ! n) c'"
    and s': "s' = s\<lparr>ms_state := st', ms_conns := (ms_conns s)[n := c']\<rparr>"
  shows "server_accounted s' \<subseteq># asked (mk_received st')"
    and "list_all reliable (xs @ [x]) \<Longrightarrow> requested (mk_received st') \<subseteq># server_accounted s'"
proof -
  note sa = server_accounted_update [OF n, where st = st' and c = c', folded s']
  have "server_accounted s' + accounted (ms_conns s ! n) \<subseteq># server_accounted s + accounted (ms_conns s ! n)"
    unfolding sa using keeps by (simp add: keeps_account_def)
  then have "server_accounted s' \<subseteq># server_accounted s" by simp
  with I v show "server_accounted s' \<subseteq># asked (mk_received st')"
    by (auto simp: conversation_ok_def intro: subset_mset.trans)
  assume r: "list_all reliable (xs @ [x])"
  then have "server_accounted s' = server_accounted s" using sa keeps by (simp add: keeps_account_def)
  with I r v show "requested (mk_received st') \<subseteq># server_accounted s'" by (simp add: conversation_ok_def)
qed

lemma conversation_step:
  assumes I: "conversation_ok xs s" and step: "mock_step env x s = Some s'"
  shows "conversation_ok (xs @ [x]) s'"
proof (cases x)
  case (MockAccept ok)
  have "accounted mock_conn_new = {#}" "queue_ok mock_conn_new"
    by (simp_all add: accounted_def serving_def) (simp_all add: mock_conn_new_def queue_ok_def)
  with assms MockAccept show ?thesis
    by (auto simp: conversation_ok_def mock_step_def server_accounted_def split: if_splits)
next
  case MockStopAccepting
  with assms show ?thesis by (auto simp: conversation_ok_def mock_step_def server_accounted_def split: if_splits)
next
  case (MockOp op)
  with assms show ?thesis by (auto simp: conversation_ok_def mock_step_def mock_perform_spec)
next
  case (MockConn n cx)
  with step obtain st' c' where n: "n < length (ms_conns s)"
    and c: "conn_step env cx (ms_state s, ms_conns s ! n) = Some (st', c')"
    and s': "s' = s\<lparr>ms_state := st', ms_conns := (ms_conns s)[n := c']\<rparr>"
    by (auto simp: mock_step_def split: if_splits)
  have q: "queue_ok (ms_conns s ! n)" using I n by (simp add: conversation_ok_def list_all_length)
  note spec = conn_step_spec [OF c q, of n, folded MockConn]
  from spec have "server_accounted s' \<subseteq># asked (mk_received st')"
      "list_all reliable (xs @ [x]) \<Longrightarrow> requested (mk_received st') \<subseteq># server_accounted s'"
    using conversation_serves [OF I n _ _ s'] conversation_keeps [OF I n _ _ s'] by blast+
  from conversation_account [OF I n _ this _ s'] spec show ?thesis by blast
qed

section \<open>One message on its own\<close>

text \<open>A value served with nothing in between and every write successful.\<close>

definition serve_value :: "mock_env \<Rightarrow> json \<Rightarrow> mock_state \<times> mock_conn \<Rightarrow> mock_state \<times> mock_conn" where
  "serve_value env v sc =
     (let st1 = mock_receive v (fst sc); c = snd sc
      in if disconnects v st1 then (st1, c\<lparr>mc_mode := MockEnded None\<rparr>)
         else
           (let (failing, st2) = take_request_failure v st1
            in if failing then
                 (st2, mock_send (MockText (error_response (jindex v ''id'') (- 32001) ''transient mock failure'')) None c)
               else
                 (let c1 = (if interrupts_early v st2 then mock_send (MockText (early_completion v)) None c
                            else c\<lparr>mc_mode := MockTop\<rparr>);
                      (response, st3) = mock_handle_request env v st2
                  in (st3, case response of None \<Rightarrow> c1 | Some r \<Rightarrow> mock_send (MockText r) None c1))))"

text \<open>The steps of a connection until it is at the top of its loop again, every write successful.\<close>

inductive locks :: "mock_env \<Rightarrow> mock_state \<times> mock_conn \<Rightarrow> mock_state \<times> mock_conn \<Rightarrow> bool" for env where
  locks_done: "mc_mode (snd sc) \<in> {MockTop, MockEnded None} \<Longrightarrow> locks env sc sc"
| locks_step: "mc_mode (snd sc) \<noteq> MockTop \<Longrightarrow> conn_step env (ConnLock None) sc = Some sd \<Longrightarrow> locks env sd se \<Longrightarrow> locks env sc se"

lemma handle_locks:
  assumes "mc_mode c = handling v"
  shows "locks env (st, c) (case mock_handle_request env v st of
    (response, st') \<Rightarrow> (st', case response of None \<Rightarrow> c\<lparr>mc_mode := MockTop\<rparr> | Some r \<Rightarrow> mock_send (MockText r) None c))"
proof (cases "\<exists>i meth. jget ''id'' v = Some i \<and> get_str ''method'' v = Some meth")
  case False
  with assms have top: "mc_mode c = MockTop" and h: "mock_handle_request env v st = (None, st)"
    by (auto simp: handling_def mock_handle_request_def split: option.splits)
  from top have "c\<lparr>mc_mode := MockTop\<rparr> = c" by (intro mock_conn.equality) simp_all
  moreover have "locks env (st, c) (st, c)" using top by (intro locks_done) simp
  ultimately show ?thesis by (simp only: h prod.case option.case)
next
  case True
  then obtain i meth where v: "jget ''id'' v = Some i" "get_str ''method'' v = Some meth" by blast
  let ?params = "unwrap_or (jget ''params'' v) JNull"
  have result: "locks env (st, d) (st, mock_send (MockText (result_response i (mock_result env st meth ?params))) None c)"
    if "mc_mode d = MockResult i meth ?params" "d = c\<lparr>mc_mode := mc_mode d\<rparr>" for d
  proof (rule locks_step)
    have "mock_send out None d = mock_send out None c" for out
      by (subst that(2)) simp
    then show "conn_step env (ConnLock None) (st, d) =
        Some (st, mock_send (MockText (result_response i (mock_result env st meth ?params))) None c)"
      by (simp add: conn_step_def conn_lock_def that(1) del: mock_send_simps)
  qed (use that(1) in \<open>auto intro: locks_done\<close>)
  show ?thesis
  proof (cases "meth = ''thread/resume''")
    case False
    with v assms result [of c] show ?thesis by (simp add: handling_def mock_handle_request_def Let_def)
  next
    case resume: True
    with v assms have c: "mc_mode c = MockResume i ?params" by (simp add: handling_def Let_def)
    show ?thesis
    proof (cases "mk_resume_failures st")
      case 0
      have "locks env (st, c) (st, mock_send (MockText (result_response i (mock_result env st meth ?params))) None c)"
        using locks_step [OF _ _ result [of "c\<lparr>mc_mode := MockResult i meth ?params\<rparr>"], of "(st, c)"]
        by (simp add: conn_step_def conn_lock_def c 0 resume)
      with v resume 0 show ?thesis by (simp add: mock_handle_request_def)
    next
      case (Suc n)
      have "locks env (st, c) (st\<lparr>mk_resume_failures := n\<rparr>, mock_send (MockText (error_response i (- 32000) ''no rollout found'')) None c)"
        by (rule locks_step [OF _ _ locks_done]) (simp_all add: conn_step_def conn_lock_def c Suc)
      with v resume Suc show ?thesis by (simp add: mock_handle_request_def)
    qed
  qed
qed

lemma serve_value_locks:
  assumes "mc_mode c = MockReceive v"
  shows "locks env (st, c) (serve_value env v (st, c))"
proof -
  have step: "conn_step env (ConnLock None) (st, c) = Some (receive_value v None (st, c))" "mc_mode c \<noteq> MockTop"
    by (simp_all add: conn_step_def conn_lock_def assms)
  have "locks env (receive_value v None (st, c)) (serve_value env v (st, c))"
  proof (cases "disconnects v (mock_receive v st)")
    case True
    then show ?thesis by (auto simp: receive_value_def serve_value_def intro: locks_done)
  next
    case False
    obtain b st2 where f: "take_request_failure v (mock_receive v st) = (b, st2)" by fastforce
    define c1 where "c1 = (if interrupts_early v st2 then mock_send (MockText (early_completion v)) None c else c)"
    show ?thesis
    proof (cases b)
      case True
      with False f show ?thesis by (auto simp: receive_value_def serve_value_def Let_def intro: locks_done)
    next
      case no: False
      have "receive_value v None (st, c) = (st2, c1\<lparr>mc_mode := handling v\<rparr>)"
        using False f no by (simp add: receive_value_def c1_def Let_def mock_ended_def)
      moreover have "serve_value env v (st, c) = (case mock_handle_request env v st2 of
          (response, st') \<Rightarrow> (st', case response of None \<Rightarrow> c1\<lparr>mc_mode := MockTop\<rparr>
             | Some r \<Rightarrow> mock_send (MockText r) None (c1\<lparr>mc_mode := handling v\<rparr>)))"
        using False f no by (auto simp: serve_value_def c1_def Let_def split: prod.splits option.splits)
      moreover obtain r st3 where "mock_handle_request env v st2 = (r, st3)" by fastforce
      ultimately show ?thesis
        using handle_locks [of "c1\<lparr>mc_mode := handling v\<rparr>" v env st2] by (cases r) simp_all
    qed
  qed
  with locks_step [OF _ step(1)] step(2) show ?thesis by simp
qed

section \<open>Properties\<close>

text \<open>The response to a request and what it takes from the budgets of failures.\<close>

definition spec_response :: "mock_env \<Rightarrow> mock_state \<Rightarrow> json \<Rightarrow> string \<Rightarrow> json \<Rightarrow> json" where
  "spec_response env st i meth params =
     (if unwrap_or (mk_request_failures st meth) 0 \<noteq> 0 then error_response i (- 32001) ''transient mock failure''
      else if meth = ''thread/resume'' \<and> mk_resume_failures st \<noteq> 0 then error_response i (- 32000) ''no rollout found''
      else result_response i (mock_result env st meth params))"

definition spec_budgets :: "string \<Rightarrow> (string \<rightharpoonup> nat) \<times> nat \<Rightarrow> (string \<rightharpoonup> nat) \<times> nat" where
  "spec_budgets meth b =
     (if unwrap_or (fst b meth) 0 \<noteq> 0 then ((fst b)(meth \<mapsto> the (fst b meth) - 1), snd b)
      else (fst b, if meth = ''thread/resume'' then snd b - 1 else snd b))"

lemma mock_result_cong:
  assumes "mk_threads st' = mk_threads st" and "mk_hooks_response st' = mk_hooks_response st"
  shows "mock_result env st' meth params = mock_result env st meth params"
  unfolding mock_result_def mock_threads_listed_def assms ..

lemma serve_request:
  assumes "jget ''id'' v = Some i" and "get_str ''method'' v = Some meth" and "mk_fault st \<noteq> DisconnectOnMethod meth"
  shows "\<exists>st'. serve_value env v (st, c) =
      (st', c\<lparr>mc_mode := MockTop, mc_sent := mc_sent c @
         (if mk_fault st = InterruptCompletionBeforeResponse \<and> meth = ''turn/interrupt'' \<and>
             unwrap_or (mk_request_failures st meth) 0 = 0
          then [MockText (early_completion v)] else []) @
         [MockText (spec_response env st i meth (unwrap_or (jget ''params'' v) JNull))]\<rparr>) \<and>
    (mk_request_failures st', mk_resume_failures st') = spec_budgets meth (mk_request_failures st, mk_resume_failures st) \<and>
    mk_received st' = mk_received st @ [v] \<and> mk_threads st' = mk_threads st \<and> mk_fault st' = mk_fault st \<and>
    mk_hooks_response st' = mk_hooks_response st"
proof -
  have m: "jindex v ''method'' = JString meth" using assms(2) by (simp add: jindex_method)
  have nd: "\<not> disconnects v (mock_receive v st)"
    using assms(3) by (auto simp: disconnects_def mock_receive_def m split: fault.splits)
  have i: "jindex v ''id'' = i" using assms(1) by (simp add: jindex_def)
  have res: "mock_result env (mock_receive v st) meth params = mock_result env st meth params" for params
    by (rule mock_result_cong) (simp_all add: mock_receive_def)
  show ?thesis
  proof (cases "unwrap_or (mk_request_failures st meth) 0")
    case 0
    then have tf: "take_request_failure v (mock_receive v st) = (False, mock_receive v st)"
      by (auto simp: take_request_failure_def m mock_receive_def split: option.splits nat.splits)
    define early where "early \<longleftrightarrow> mk_fault st = InterruptCompletionBeforeResponse \<and> meth = ''turn/interrupt''"
    define r where "r = spec_response env st i meth (unwrap_or (jget ''params'' v) JNull)"
    define st3 where "st3 = (if meth = ''thread/resume'' then (mock_receive v st)\<lparr>mk_resume_failures := mk_resume_failures st - 1\<rparr>
      else mock_receive v st)"
    have e: "interrupts_early v (mock_receive v st) \<longleftrightarrow> early"
      by (simp add: interrupts_early_def m mock_receive_def early_def)
    have h: "mock_handle_request env v (mock_receive v st) = (Some r, st3)"
      using 0 by (simp add: mock_handle_request_def assms spec_response_def res r_def st3_def) (simp add: mock_receive_def)
    have st3: "mk_received st3 = mk_received st @ [v]" "mk_threads st3 = mk_threads st" "mk_fault st3 = mk_fault st" "mk_hooks_response st3 = mk_hooks_response st"
      "(mk_request_failures st3, mk_resume_failures st3) = spec_budgets meth (mk_request_failures st, mk_resume_failures st)"
      using 0 by (simp_all add: st3_def mock_receive_def spec_budgets_def)
    have "serve_value env v (st, c) =
      (st3, c\<lparr>mc_mode := MockTop, mc_sent := mc_sent c @ (if early then [MockText (early_completion v)] else []) @ [MockText r]\<rparr>)"
      using nd tf e h by (simp add: serve_value_def Let_def mock_ended_def)
    with st3 0 show ?thesis unfolding r_def early_def by simp
  next
    case (Suc n)
    then have f: "mk_request_failures st meth = Some (Suc n)" by (cases "mk_request_failures st meth") auto
    then have "take_request_failure v (mock_receive v st) =
        (True, (mock_receive v st)\<lparr>mk_request_failures := (mk_request_failures st)(meth \<mapsto> n)\<rparr>)"
      by (simp add: take_request_failure_def m mock_receive_def)
    with nd f i show ?thesis
      by (simp add: serve_value_def Let_def spec_budgets_def spec_response_def) (simp add: mock_receive_def)
  qed
qed

text \<open>A request is answered with one response that carries its id, whatever its method. While the
  method has failures left the response is the transient error and one is used up; a resume uses
  up its own failures next; otherwise it is the method's result. The early completion of an
  interrupt, if the server has that fault, is sent before the response and never with an error.
  The request is recorded, the threads and the fault are left as they were.\<close>

theorem mock_answers_request:
  assumes "jget ''id'' v = Some i" and "get_str ''method'' v = Some meth" and "mk_fault st \<noteq> DisconnectOnMethod meth"
  shows "\<exists>st'. serve_value env v (st, c) =
      (st', c\<lparr>mc_mode := MockTop, mc_sent := mc_sent c @
         (if mk_fault st = InterruptCompletionBeforeResponse \<and> meth = ''turn/interrupt'' \<and>
             unwrap_or (mk_request_failures st meth) 0 = 0
          then [MockText (early_completion v)] else []) @
         [MockText (spec_response env st i meth (unwrap_or (jget ''params'' v) JNull))]\<rparr>) \<and>
    (mk_request_failures st', mk_resume_failures st') = spec_budgets meth (mk_request_failures st, mk_resume_failures st) \<and>
    mk_received st' = mk_received st @ [v] \<and> mk_threads st' = mk_threads st \<and> mk_fault st' = mk_fault st"
  using serve_request [OF assms] by blast

text \<open>A server with a resume failure and the early completion of interrupts, for the closed instances.\<close>

definition sample_mock_state :: mock_state where
  "sample_mock_state = mock_state_new\<lparr>mk_fault := InterruptCompletionBeforeResponse, mk_resume_failures := 1\<rparr>"

definition sample_mock_env :: mock_env where
  "sample_mock_env =
     \<lparr> me_from_str = (\<lambda>s. if s = ''resume'' then Inr (request_envelope (RpcNumber 1) ''thread/resume'' (JObject []))
                          else Inl ''invalid''),
       me_from_slice = (\<lambda>_. Inl ''invalid''), me_thread_order = (\<lambda>_. []) \<rparr>"

theorem mock_answers_request_witness:
  "\<exists>st'. serve_value sample_mock_env (request_envelope (RpcNumber 1) ''thread/resume'' (JObject []))
      (sample_mock_state, mock_conn_new) =
      (st', mock_conn_new\<lparr>mc_mode := MockTop,
         mc_sent := [MockText (error_response (JNumber (PosInt 1)) (- 32000) ''no rollout found'')]\<rparr>) \<and>
    mk_resume_failures st' = 0"
  using mock_answers_request [of "request_envelope (RpcNumber 1) ''thread/resume'' (JObject [])" "JNumber (PosInt 1)"
      "''thread/resume''" sample_mock_state sample_mock_env mock_conn_new]
  by (auto simp: request_envelope_def sample_mock_state_def mock_state_new_def mock_conn_new_def spec_response_def spec_budgets_def)

text \<open>C35. Over any run of the server, with any connections, faults and broadcasts and in any order of
  their steps, it never answers unasked: the ids of all responses sent and of the requests being
  served are, with their multiplicities, among the ids of the messages with a method it received.
  And where no disconnect is configured and no write fails, every request it received has been
  answered, as often as it was received, or is being served.\<close>

theorem mock_answers_each_request_once:
  assumes "mock_start exists removed bound = Inr s" and "mock_run env xs s = Some s'"
  shows "server_answered s' + server_serving s' \<subseteq># asked (mk_received (ms_state s')) \<and>
    (list_all reliable xs \<longrightarrow> requested (mk_received (ms_state s')) \<subseteq># server_answered s' + server_serving s')"
proof -
  have "conversation_ok [] s"
    using assms(1) by (auto simp: mock_start_def conversation_ok_def server_accounted_def mock_state_new_def asked_def requested_def
        never_disconnects_def map_filter_def split: if_splits option.splits)
  then have "conversation_ok xs s'"
    by (rule mock.run_history [OF _ _ assms(2)]) (rule conversation_step)
  then show ?thesis by (simp add: conversation_ok_def server_accounted_sum)
qed

text \<open>Two connections; the resume of the first waits while the second is accepted and a thread starts.\<close>

definition sample_mock_inputs :: "mock_input list" where
  "sample_mock_inputs =
     [MockAccept True, MockOp (SetResumeFailures 1), MockConn 0 (ConnUpgrade ''/rpc'' None), MockConn 0 (ConnLock None),
      MockConn 0 (ConnRead (ReadMessage (MsgText ''resume''))), MockConn 0 (ConnLock None), MockConn 0 (ConnLock None),
      MockAccept True, MockOp (EmitNotification ''thread/started'' JNull), MockConn 0 (ConnLock None),
      MockConn 0 (ConnLock None), MockConn 0 ConnOutgoing, MockConn 0 (ConnLock None)]"

theorem mock_answers_each_request_once_witness:
  "\<exists>s s'. mock_start False None None = Inr s \<and> mock_run sample_mock_env sample_mock_inputs s = Some s' \<and>
    server_answered s' = {#JNumber (PosInt 1)#}"
proof -
  let ?v = "request_envelope (RpcNumber 1) ''thread/resume'' (JObject [])"
  obtain s where s: "mock_start False None None = Inr s"
    by (simp add: mock_start_def)
  have v: "jget ''id'' ?v = Some (JNumber (PosInt 1))" "get_str ''method'' ?v = Some ''thread/resume''"
    "jget ''params'' ?v = Some (JObject [])"
    by (simp_all add: request_envelope_def)
  obtain s' where run: "mock_run sample_mock_env sample_mock_inputs s = Some s'" and received: "mk_received (ms_state s') = [?v]"
    and idle: "server_serving s' = {#}"
    using s by (auto simp: mock_start_def sample_mock_inputs_def mock_step_def conn_step_def conn_lock_def read_message_def
        receive_value_def handling_def server_serving_def serving_def
        sample_mock_env_def Let_def on_state_def mock_conn_new_def mock_state_new_def upgrade_answer_def mock_receive_def
        disconnects_def take_request_failure_def message_method_get [unfolded message_method_def] v interrupts_early_def
        mock_ended_def broadcast_def enqueue_def notification_envelope_def split: prod.splits)
  have "asked [?v] = {#JNumber (PosInt 1)#}" "requested [?v] = {#JNumber (PosInt 1)#}"
    by (simp_all add: asked_def requested_def v map_filter_def) (simp add: jindex_def v)
  moreover have "list_all reliable sample_mock_inputs" by (simp add: sample_mock_inputs_def)
  ultimately show ?thesis
    using mock_answers_each_request_once [OF s run] s run received idle by (auto intro: subset_mset.antisym)
qed

end
