(* ===== verification/Rehearsal.thy ===== *)
theory Rehearsal
  imports Mock Threads Ingest Control Connection
begin

text \<open>
  The crates against the app-server of \<open>src/transport/src/mock.rs\<close>, as the integration tests
  run them: a contract of a server that answers its requests, what the transport and a client
  make of such a server, and the listing, the read, a discovery and an interrupt with the mock
  server behind the client.
\<close>

section \<open>A server that answers\<close>

text \<open>
  What a client relies on: a request leads to frames of which the last is the response with the
  request's id, and the ones before it are no responses.
\<close>

locale rpc_server =
  fixes serve :: "json \<Rightarrow> 's \<Rightarrow> json list \<times> 's"
    and willing :: "string \<Rightarrow> 's \<Rightarrow> bool"
  assumes serves: "willing meth s \<Longrightarrow> \<exists>pre r. fst (serve (request_envelope i meth params) s) = pre @ [r] \<and>
      jget ''method'' r = None \<and> jget ''id'' r = Some (rpc_id_value i) \<and>
      list_all (\<lambda>v. \<exists>f. parse_frame v = Inr f \<and> frame_method f \<noteq> None) pre"

text \<open>The answer a client takes from the frames: that of the first response with its id.\<close>

definition response_in :: "string \<Rightarrow> rpc_id \<Rightarrow> json \<Rightarrow> (request_error + json) option" where
  "response_in meth i v =
     (case parse_frame v of
        Inr (Response j result err _) \<Rightarrow> if j = i then Some (response_answer meth result err) else None
      | _ \<Rightarrow> None)"

definition answer_from :: "string \<Rightarrow> rpc_id \<Rightarrow> json list \<Rightarrow> (request_error + json) option" where
  "answer_from meth i vs = (case List.map_filter (response_in meth i) vs of [] \<Rightarrow> None | a # _ \<Rightarrow> Some a)"

definition answer_of_response :: "string \<Rightarrow> json \<Rightarrow> request_error + json" where
  "answer_of_response meth r = response_answer meth (jget ''result'' r) (jget ''error'' r)"

lemma parse_response:
  assumes "jget ''method'' r = None" and "jget ''id'' r = Some (rpc_id_value i)"
  shows "parse_frame r = Inr (Response i (jget ''result'' r) (jget ''error'' r) r)"
  using assms by (simp add: parse_frame_def get_str_def Let_def)

lemma response_in_other: "parse_frame v = Inr f \<Longrightarrow> frame_method f \<noteq> None \<Longrightarrow> response_in meth i v = None"
  by (cases f) (simp_all add: response_in_def)

lemma answer_from_served:
  assumes "jget ''method'' r = None" and "jget ''id'' r = Some (rpc_id_value i)"
    and "list_all (\<lambda>v. \<exists>f. parse_frame v = Inr f \<and> frame_method f \<noteq> None) pre"
  shows "answer_from meth i (pre @ [r]) = Some (answer_of_response meth r)"
proof -
  have "List.map_filter (response_in meth i) pre = []"
    using assms(3) by (induction pre) (auto simp: map_filter_def dest: response_in_other [of _ _ meth i])
  then show ?thesis
    by (simp add: answer_from_def answer_of_response_def map_filter_def response_in_def parse_response [OF assms(1,2)])
qed

section \<open>The transport at a server\<close>

text \<open>One text message while a connection is driven.\<close>

definition text_read :: "clock \<Rightarrow> (json \<Rightarrow> string) \<Rightarrow> json \<Rightarrow> transport_input" where
  "text_read clock print v = Task (DriveRead clock (RxMessage (MsgText (print v))) None)"

fun frame_resolves :: "incoming_frame \<Rightarrow> (rpc_id \<times> pending) list \<Rightarrow> (channel \<times> resolution) list" where
  "frame_resolves (Response i result err _) ps =
     (case map_of ps i of None \<Rightarrow> [] | Some p \<Rightarrow> [(pd_response p, Resolved (response_answer (pd_method p) result err))])"
| "frame_resolves _ ps = []"

fun frame_leaves :: "incoming_frame \<Rightarrow> (rpc_id \<times> pending) list \<Rightarrow> (rpc_id \<times> pending) list" where
  "frame_leaves (Response i _ _ _) ps = filter (\<lambda>q. fst q \<noteq> i) ps"
| "frame_leaves _ ps = ps"

lemma filter_absent: "map_of ps i = None \<Longrightarrow> filter (\<lambda>q. fst q \<noteq> i) ps = ps"
  by (auto simp: map_of_eq_None_iff filter_id_conv)

lemma read_text_frame:
  assumes "tr_task t = AtDrive ps rd" and "tr_ingress_open t"
    and "te_from_str tenv (print v) = Inr v" and "parse_frame v = Inr f"
  shows "\<exists>t' e. transport_step tenv (text_read clock print v) t = Some t' \<and>
    tr_task t' = AtDrive (frame_leaves f ps) (ck_read clock) \<and> tr_ingress_open t' \<and> tr_commands t' = tr_commands t \<and>
    tr_resolved t' = tr_resolved t @ frame_resolves f ps \<and> tr_ingress t' = tr_ingress t @ [e] \<and> ev_frame e = f \<and>
    tr_written t' = tr_written t"
proof (cases f)
  case (Response i result err raw)
  with assms show ?thesis
    by (auto simp: text_read_def task_step_def drive_read_def message_json_def drive_frame_def next_event_def Let_def
        send_ingress_def send_inbound_def drive_next_def resolve_def filter_absent split: option.splits)
qed (use assms in \<open>auto simp: text_read_def task_step_def drive_read_def message_json_def drive_frame_def next_event_def Let_def
        send_ingress_def send_inbound_def drive_next_def\<close>)

lemma read_text_frames:
  assumes "list_all (\<lambda>v. te_from_str tenv (print v) = Inr v) vs" and "list_all (\<lambda>v. \<exists>f. parse_frame v = Inr f \<and> frame_method f \<noteq> None) vs"
    and "tr_task t = AtDrive ps rd" and "tr_ingress_open t"
  shows "\<exists>t' rd' es. transport_run tenv (map (text_read clock print) vs) t = Some t' \<and>
    tr_task t' = AtDrive ps rd' \<and> tr_ingress_open t' \<and> tr_commands t' = tr_commands t \<and>
    tr_resolved t' = tr_resolved t \<and> tr_ingress t' = tr_ingress t @ es \<and> map (\<lambda>e. Inr (ev_frame e)) es = map parse_frame vs \<and>
    tr_written t' = tr_written t"
  using assms
proof (induction vs arbitrary: t rd)
  case (Cons v vs)
  then obtain f where f: "parse_frame v = Inr f" "frame_method f \<noteq> None" by auto
  then have frames: "frame_leaves f ps = ps" "frame_resolves f ps = []" by (cases f; simp)+
  from read_text_frame [where print = print, OF Cons.prems(3,4) _ f(1), of tenv clock] Cons.prems(1) frames obtain t1 e where
    t1: "transport_step tenv (text_read clock print v) t = Some t1" "tr_task t1 = AtDrive ps (ck_read clock)" "tr_ingress_open t1"
      "tr_commands t1 = tr_commands t" "tr_resolved t1 = tr_resolved t" "tr_ingress t1 = tr_ingress t @ [e]" "ev_frame e = f"
      "tr_written t1 = tr_written t" by auto
  from Cons.IH [OF _ _ t1(2,3)] Cons.prems(1,2) obtain t' rd' es where
    "transport_run tenv (map (text_read clock print) vs) t1 = Some t'" "tr_task t' = AtDrive ps rd'" "tr_ingress_open t'"
    "tr_commands t' = tr_commands t1" "tr_resolved t' = tr_resolved t1" "tr_ingress t' = tr_ingress t1 @ es"
    "map (\<lambda>e. Inr (ev_frame e)) es = map parse_frame vs" "tr_written t' = tr_written t1" by auto
  with t1 f(1) show ?case by (intro exI [of _ t'] exI [of _ rd'] exI [of _ "e # es"]) simp
qed (auto intro: exI [of _ "[]"])

context rpc_server
begin

lemma request_served:
  assumes "willing meth s" and "list_all (\<lambda>v. te_from_str tenv (print v) = Inr v) (fst (serve (request_envelope i meth params) s))"
    and "tr_task t = AtDrive ps rd" and "tr_ingress_open t"
    and "tr_commands t = CmdRequest i meth params k # cs" and "map_of ps i = None"
  shows "\<exists>r t' es. last (fst (serve (request_envelope i meth params) s)) = r \<and>
    transport_run tenv (Task (DriveCommand None) # map (text_read clock print) (fst (serve (request_envelope i meth params) s))) t = Some t' \<and>
    tr_resolved t' = tr_resolved t @ [(k, Resolved (answer_of_response meth r))] \<and>
    tr_task t' = AtDrive ps (ck_read clock) \<and> tr_commands t' = cs \<and>
    tr_written t' = tr_written t @ [(RequestFrame k i meth params, True)] \<and>
    tr_ingress t' = tr_ingress t @ es \<and>
    map (\<lambda>e. Inr (ev_frame e)) es = map parse_frame (fst (serve (request_envelope i meth params) s))"
proof -
  from serves [OF assms(1)] obtain pre r where served: "fst (serve (request_envelope i meth params) s) = pre @ [r]"
    and r: "jget ''method'' r = None" "jget ''id'' r = Some (rpc_id_value i)"
    and pre: "list_all (\<lambda>v. \<exists>f. parse_frame v = Inr f \<and> frame_method f \<noteq> None) pre" by blast
  let ?p = "\<lparr> pd_method = meth, pd_response = k \<rparr>"
  obtain t1 where t1: "transport_step tenv (Task (DriveCommand None)) t = Some t1" "tr_task t1 = AtDrive ((i, ?p) # ps) rd"
    "tr_ingress_open t1" "tr_commands t1 = cs" "tr_resolved t1 = tr_resolved t" "tr_ingress t1 = tr_ingress t"
    "tr_written t1 = tr_written t @ [(RequestFrame k i meth params, True)]"
    using assms(3-6)
    by (auto simp: task_step_def recv_command_def drive_command_def drive_next_def insert_pending_def Let_def socket_send_def filter_absent)
  from read_text_frames [of tenv print, OF _ pre t1(2,3), of clock] assms(2) served obtain t2 rd' es where
    t2: "transport_run tenv (map (text_read clock print) pre) t1 = Some t2" "tr_task t2 = AtDrive ((i, ?p) # ps) rd'" "tr_ingress_open t2"
      "tr_commands t2 = tr_commands t1" "tr_resolved t2 = tr_resolved t1" "tr_ingress t2 = tr_ingress t1 @ es"
      "map (\<lambda>e. Inr (ev_frame e)) es = map parse_frame pre" "tr_written t2 = tr_written t1" by auto
  note pr = parse_response [OF r]
  from read_text_frame [where print = print, OF t2(2,3) _ pr, of tenv clock] assms(2,6) served obtain t' e where
    t': "transport_step tenv (text_read clock print r) t2 = Some t'" "tr_task t' = AtDrive ps (ck_read clock)"
      "tr_commands t' = tr_commands t2" "tr_resolved t' = tr_resolved t2 @ [(k, Resolved (answer_of_response meth r))]"
      "tr_ingress t' = tr_ingress t2 @ [e]" "ev_frame e = Response i (jget ''result'' r) (jget ''error'' r) r"
      "tr_written t' = tr_written t2"
    by (auto simp: filter_absent answer_of_response_def)
  have "transport_run tenv (Task (DriveCommand None) # map (text_read clock print) (pre @ [r])) t = Some t'"
    using t1(1) t2(1) t'(1) by (simp add: trun.run_append del: transport_step.simps)
  with served t1 t2 t' pr show ?thesis by (intro exI [of _ r] exI [of _ t'] exI [of _ "es @ [e]"]) simp
qed

end

section \<open>The mock server behind a client\<close>

text \<open>
  What a connection of the mock server sends back for one message when nothing comes between its
  steps: \<open>serve_value\<close> is where they lead (lemma \<open>serve_value_locks\<close>).
\<close>

fun sent_text :: "mock_out \<Rightarrow> json option" where
  "sent_text (MockText v) = Some v"
| "sent_text (MockPong _) = None"

definition mock_serve :: "mock_env \<Rightarrow> json \<Rightarrow> mock_state \<Rightarrow> json list \<times> mock_state" where
  "mock_serve env v st =
     (if mk_fault st = HalfOpen then ([], st)
      else (let (st', c) = serve_value env v (st, mock_conn_new\<lparr>mc_mode := MockReceive v\<rparr>)
            in (List.map_filter sent_text (mc_sent c), st')))"

definition mock_willing :: "string \<Rightarrow> mock_state \<Rightarrow> bool" where
  "mock_willing meth st \<longleftrightarrow> mk_fault st \<noteq> HalfOpen \<and> mk_fault st \<noteq> DisconnectOnMethod meth"

text \<open>The interrupt completes before its response.\<close>

definition completes_early :: "string \<Rightarrow> mock_state \<Rightarrow> bool" where
  "completes_early meth st \<longleftrightarrow>
     mk_fault st = InterruptCompletionBeforeResponse \<and> meth = ''turn/interrupt'' \<and> unwrap_or (mk_request_failures st meth) 0 = 0"

lemma envelope_fields [simp]:
  "jget ''id'' (request_envelope i m p) = Some (rpc_id_value i)" "get_str ''method'' (request_envelope i m p) = Some m"
  "jget ''params'' (request_envelope i m p) = Some p"
  by (simp_all add: request_envelope_def)

lemma spec_response_fields:
  "jget ''method'' (spec_response env st i m p) = None" "jget ''id'' (spec_response env st i m p) = Some i"
  by (simp_all add: spec_response_def error_response_def result_response_def)

lemma mock_serve_request:
  assumes "mock_willing meth st"
  shows "\<exists>st'. mock_serve env (request_envelope i meth params) st =
      ((if completes_early meth st then [early_completion (request_envelope i meth params)] else []) @
         [spec_response env st (rpc_id_value i) meth params], st') \<and>
    (mk_request_failures st', mk_resume_failures st') = spec_budgets meth (mk_request_failures st, mk_resume_failures st) \<and>
    mk_threads st' = mk_threads st \<and> mk_fault st' = mk_fault st \<and> mk_hooks_response st' = mk_hooks_response st"
proof -
  have w: "mk_fault st \<noteq> HalfOpen" "mk_fault st \<noteq> DisconnectOnMethod meth" using assms by (simp_all add: mock_willing_def)
  from serve_request [where v = "request_envelope i meth params" and env = env
      and c = "mock_conn_new\<lparr>mc_mode := MockReceive (request_envelope i meth params)\<rparr>",
      OF envelope_fields(1,2) w(2)] show ?thesis
    using w(1) by (auto simp: mock_serve_def completes_early_def mock_conn_new_def map_filter_def)
qed

lemma early_completion_parses:
  "\<exists>f. parse_frame (early_completion v) = Inr f \<and> frame_method f \<noteq> None"
  by (simp add: early_completion_def Let_def parse_frame_def notification_envelope_def)

interpretation mock_peer: rpc_server "mock_serve env" mock_willing for env
proof
  fix meth :: string and s :: mock_state and i :: rpc_id and params :: json
  assume "mock_willing meth s"
  from mock_serve_request [OF this, of env i params] early_completion_parses spec_response_fields
  show "\<exists>pre r. fst (mock_serve env (request_envelope i meth params) s) = pre @ [r] \<and>
      jget ''method'' r = None \<and> jget ''id'' r = Some (rpc_id_value i) \<and>
      list_all (\<lambda>v. \<exists>f. parse_frame v = Inr f \<and> frame_method f \<noteq> None) pre"
    by (intro exI [of _ "if completes_early meth s then [early_completion (request_envelope i meth params)] else []"]
        exI [of _ "spec_response env s (rpc_id_value i) meth params"]) auto
qed

text \<open>
  A session: the calls one after another, each request with the next id. A call whose response
  never comes is answered as the transport answers it when the connection ends.
\<close>

fun call_method :: "rpc_call \<Rightarrow> string" where
  "call_method (Request m _) = m"
| "call_method (RequestAction m _) = m"
| "call_method (Notify m _) = m"

fun call_value :: "u64 \<Rightarrow> rpc_call \<Rightarrow> json" where
  "call_value q (Request m p) = request_envelope (RpcNumber q) m p"
| "call_value q (RequestAction m p) = request_envelope (RpcNumber q) m p"
| "call_value q (Notify m p) = notification_envelope m p"

fun is_request :: "rpc_call \<Rightarrow> bool" where
  "is_request (Notify _ _) = False"
| "is_request _ = True"

definition session_step :: "(json \<Rightarrow> 's \<Rightarrow> json list \<times> 's) \<Rightarrow> rpc_call \<Rightarrow> u64 \<times> 's \<Rightarrow> u64 \<times> 's" where
  "session_step serve c s = (if is_request c then fst s + 1 else fst s, snd (serve (call_value (fst s) c) (snd s)))"

definition session_answer :: "(json \<Rightarrow> 's \<Rightarrow> json list \<times> 's) \<Rightarrow> rpc_call \<Rightarrow> u64 \<times> 's \<Rightarrow> request_error + json" where
  "session_answer serve c s =
     (if is_request c then
        (case answer_from (call_method c) (RpcNumber (fst s)) (fst (serve (call_value (fst s) c) (snd s))) of
           Some a \<Rightarrow> a
         | None \<Rightarrow> Inl (WrittenOutcomeUnknown (RpcNumber (fst s)) (call_method c) ''connection closed''))
      else Inr JNull)"

definition server_client :: "(json \<Rightarrow> 's \<Rightarrow> json list \<times> 's) \<Rightarrow> u64 \<times> 's \<Rightarrow> (rpc_call list \<Rightarrow> reducer_op list) \<Rightarrow> client" where
  "server_client serve s activity calls =
     (activity calls, session_answer serve (last calls) (fold (session_step serve) (butlast calls) s))"

context rpc_server
begin

lemma session_answered:
  assumes "willing (call_method c) (snd s)" and "is_request c"
  shows "\<exists>r. last (fst (serve (call_value (fst s) c) (snd s))) = r \<and> session_answer serve c s = answer_of_response (call_method c) r"
proof -
  have "\<exists>i p. call_value (fst s) c = request_envelope i (call_method c) p \<and> i = RpcNumber (fst s)"
    using assms(2) by (cases c) auto
  then obtain p where c: "call_value (fst s) c = request_envelope (RpcNumber (fst s)) (call_method c) p" by blast
  from serves [OF assms(1), of "RpcNumber (fst s)" p] obtain pre r where
    s: "fst (serve (call_value (fst s) c) (snd s)) = pre @ [r]" "jget ''method'' r = None" "jget ''id'' r = Some (rpc_id_value (RpcNumber (fst s)))"
      "list_all (\<lambda>v. \<exists>f. parse_frame v = Inr f \<and> frame_method f \<noteq> None) pre" unfolding c by blast
  from answer_from_served [OF s(2-4), of "call_method c"] s(1) assms(2) show ?thesis by (simp add: session_answer_def)
qed

end

text \<open>A mock server that no longer fails: it answers every method, with no failure left but for resumes.\<close>

definition plain :: "mock_state \<Rightarrow> bool" where
  "plain st \<longleftrightarrow> mk_fault st \<in> {NoFault, InterruptCompletionBeforeResponse} \<and> (\<forall>m. unwrap_or (mk_request_failures st m) 0 = 0)"

definition same_content :: "mock_state \<Rightarrow> mock_state \<Rightarrow> bool" where
  "same_content st st' \<longleftrightarrow> mk_threads st' = mk_threads st \<and> mk_fault st' = mk_fault st \<and>
     mk_request_failures st' = mk_request_failures st \<and> mk_hooks_response st' = mk_hooks_response st"

lemma plain_willing [simp]: "plain st \<Longrightarrow> mock_willing m st"
  by (auto simp: plain_def mock_willing_def)

lemma plain_same: "same_content st st' \<Longrightarrow> plain st \<Longrightarrow> plain st'"
  by (simp add: same_content_def plain_def)

lemma serve_plain_request:
  assumes "plain st"
  shows "same_content st (snd (mock_serve env (request_envelope i m p) st))"
    and "mk_resume_failures (snd (mock_serve env (request_envelope i m p) st)) =
      mk_resume_failures st - (if m = ''thread/resume'' then 1 else 0)"
    and "last (fst (mock_serve env (request_envelope i m p) st)) = spec_response env st (rpc_id_value i) m p"
  using mock_serve_request [OF plain_willing [OF assms, of m], of env i p] assms
  by (auto simp: same_content_def spec_budgets_def plain_def)

lemma serve_plain_notification:
  assumes "plain st"
  shows "same_content st (snd (mock_serve env (notification_envelope m p) st))"
    and "mk_resume_failures (snd (mock_serve env (notification_envelope m p) st)) = mk_resume_failures st"
proof -
  let ?v = "notification_envelope m p"
  have v: "jget ''id'' ?v = None" "get_str ''method'' ?v = Some m" by (simp_all add: notification_envelope_def)
  then have m: "jindex ?v ''method'' = JString m" by (simp add: jindex_method)
  have "mk_request_failures st m = None \<or> mk_request_failures st m = Some 0"
    using assms by (cases "mk_request_failures st m") (auto simp: plain_def dest: spec [of _ m])
  then have "take_request_failure ?v (mock_receive ?v st) = (False, mock_receive ?v st)"
    by (auto simp: take_request_failure_def m mock_receive_def)
  moreover have "\<not> disconnects ?v (mock_receive ?v st)" using assms by (auto simp: disconnects_def mock_receive_def plain_def)
  moreover have "mock_handle_request env ?v (mock_receive ?v st) = (None, mock_receive ?v st)"
    by (simp add: mock_handle_request_def v)
  moreover have "mk_fault st \<noteq> HalfOpen" using assms by (auto simp: plain_def)
  ultimately have "snd (mock_serve env ?v st) = mock_receive ?v st"
    by (simp add: mock_serve_def serve_value_def Let_def split_beta)
  then show "same_content st (snd (mock_serve env ?v st))" "mk_resume_failures (snd (mock_serve env ?v st)) = mk_resume_failures st"
    by (simp_all add: same_content_def mock_receive_def)
qed

lemma session_step_plain:
  assumes "plain (snd s)"
  shows "same_content (snd s) (snd (session_step (mock_serve env) c s))"
    and "mk_resume_failures (snd (session_step (mock_serve env) c s)) =
      mk_resume_failures (snd s) - (if is_request c \<and> call_method c = ''thread/resume'' then 1 else 0)"
  using serve_plain_request(1,2) [OF assms] serve_plain_notification [OF assms] by (cases c; auto simp: session_step_def)+

lemma session_plain:
  "plain (snd s) \<Longrightarrow> same_content (snd s) (snd (fold (session_step (mock_serve env)) cs s)) \<and>
    mk_resume_failures (snd (fold (session_step (mock_serve env)) cs s)) =
      mk_resume_failures (snd s) - length (filter (\<lambda>c. is_request c \<and> call_method c = ''thread/resume'') cs)"
proof (induction cs arbitrary: s)
  case (Cons c cs)
  note step = session_step_plain [OF Cons.prems, of env c]
  from Cons.IH [OF plain_same [OF step(1) Cons.prems]] step show ?case by (auto simp: same_content_def)
qed (simp add: same_content_def)

text \<open>The answer of the mock client to its last call.\<close>

lemma mock_client_answer:
  assumes "plain (snd s)" and "is_request c"
  shows "snd (server_client (mock_serve env) s act (cs @ [c])) =
    (if call_method c = ''thread/resume'' \<and>
        length (filter (\<lambda>c. is_request c \<and> call_method c = ''thread/resume'') cs) < mk_resume_failures (snd s)
     then Inl (Rejected (call_method c) (JObject [(''code'', JNumber (NegInt (- 32000))), (''message'', JString ''no rollout found'')]))
     else Inr (mock_result env (snd s) (call_method c) (case c of Request m p \<Rightarrow> p | RequestAction m p \<Rightarrow> p | Notify m p \<Rightarrow> p)))"
proof -
  let ?s = "fold (session_step (mock_serve env)) cs s"
  note sp = session_plain [OF assms(1), of env cs]
  then have p: "plain (snd ?s)" using plain_same assms(1) by blast
  obtain m q where c: "call_method c = m" "call_value (fst ?s) c = request_envelope (RpcNumber (fst ?s)) m q"
    "(case c of Request m p \<Rightarrow> p | RequestAction m p \<Rightarrow> p | Notify m p \<Rightarrow> p) = q" using assms(2) by (cases c) auto
  have "snd (server_client (mock_serve env) s act (cs @ [c])) = session_answer (mock_serve env) c ?s"
    by (simp add: server_client_def)
  also have "\<dots> = answer_of_response m (spec_response env (snd ?s) (rpc_id_value (RpcNumber (fst ?s))) m q)"
    using mock_peer.session_answered [of c ?s env] p assms(2) serve_plain_request(3) [OF p, of env] c by auto
  also have "\<dots> = (if m = ''thread/resume'' \<and> mk_resume_failures (snd ?s) \<noteq> 0
      then Inl (Rejected m (JObject [(''code'', JNumber (NegInt (- 32000))), (''message'', JString ''no rollout found'')]))
      else Inr (mock_result env (snd ?s) m q))"
    using p by (simp add: answer_of_response_def spec_response_def error_response_def result_response_def plain_def)
  also have "mock_result env (snd ?s) m q = mock_result env (snd s) m q"
    by (rule mock_result_cong) (use sp in \<open>simp_all add: same_content_def\<close>)
  finally show ?thesis using sp c by simp
qed

section \<open>Reading and listing\<close>

definition listed_of :: "mock_thread \<Rightarrow> listed_thread" where
  "listed_of t =
     \<lparr> lt_id = mt_id t, lt_cwd = mt_cwd t,
       lt_metadata = rest_members [''id'', ''cwd''] (the (de_object (mock_thread_json t))) \<rparr>"

definition turns_of :: "mock_thread \<Rightarrow> read_turn list" where
  "turns_of t =
     (case mt_turn_id t of
        None \<Rightarrow> []
      | Some i \<Rightarrow> [\<lparr> rn_id = i, rn_items = [], rn_metadata = [(''status'', JString (mt_status t))] \<rparr>])"

definition read_of :: "mock_thread \<Rightarrow> read_thread" where
  "read_of t =
     \<lparr> rt_id = mt_id t, rt_turns = turns_of t,
       rt_metadata = [(''cwd'', JString (mt_cwd t)), (''status'', JObject [(''type'', JString (mt_status t))]),
         (''ephemeral'', JBool (mt_ephemeral t)), (''updatedAt'', JNumber (PosInt (mt_updated_at t)))] \<rparr>"

lemma decode_listed: "de_listed_thread (mock_thread_json t) = Some (listed_of t)"
  by (simp add: de_listed_thread_def mock_thread_json_def required_def listed_of_def)

lemma decode_read: "de_read_thread (mock_thread_json t) = Some (read_of t)"
  by (cases "mt_turn_id t")
    (simp_all add: de_read_thread_def mock_thread_json_def required_def defaulted_def de_list_def de_read_turn_def
      rest_members_def read_of_def turns_of_def)

lemma decode_listing: "de_all de_listed_thread (map mock_thread_json ts) = Some (map listed_of ts)"
  by (induction ts) (simp_all add: decode_listed)

lemma mock_results:
  "mock_result env st ''thread/read'' (read_params tid) =
     JObject [(''thread'', mock_thread_json (unwrap_or (mk_threads st tid) (absent_thread tid)))]"
  "mock_result env st ''thread/list'' p =
     JObject [(''data'', JArray (map mock_thread_json (mock_threads_listed env st))), (''nextCursor'', JNull)]"
  "mock_result env st ''turn/interrupt'' p = JObject []"
  by (simp_all add: mock_result_def read_params_def jindex_def)

text \<open>C38. Reading back a thread of the mock server gives the thread that was added: whatever calls came
  before on the connection, the decoded answer of \<open>thread/read\<close> has its id, its turn with the
  status, and every other member of it as metadata; a thread that is not there reads as an idle
  one without turns.\<close>

theorem read_returns_stored_thread:
  assumes "plain st"
  shows "fst (read_thread_op (server_client (mock_serve env) (q, st) activity) tid w) =
    Inr (read_of (unwrap_or (mk_threads st tid) (absent_thread tid)))"
proof -
  have "snd (server_client (mock_serve env) (q, st) activity (wd_calls w @ [Threads.read_thread_call tid])) =
      Inr (mock_result env st ''thread/read'' (read_params tid))"
    using mock_client_answer [of "(q, st)" "Threads.read_thread_call tid" env activity "wd_calls w"] assms
    by (simp add: Threads.read_thread_call_def read_params_def)
  then show ?thesis
    using rpc_simps(1) [of "server_client (mock_serve env) (q, st) activity" "Threads.read_thread_call tid" w]
    by (auto simp: read_thread_op_def mock_results de_thread_read_response_def required_def decode_read split: prod.splits)
qed

text \<open>A server with two threads, one of them in a turn, for the closed instances.\<close>

definition mock_thread_a :: mock_thread where
  "mock_thread_a = \<lparr> mt_id = ''a'', mt_cwd = ''/w'', mt_status = ''interrupted'', mt_turn_id = Some ''t'',
     mt_ephemeral = False, mt_updated_at = 1 \<rparr>"

definition mock_thread_b :: mock_thread where
  "mock_thread_b = \<lparr> mt_id = ''b'', mt_cwd = ''/w'', mt_status = ''idle'', mt_turn_id = None,
     mt_ephemeral = False, mt_updated_at = 2 \<rparr>"

definition two_threads :: mock_state where
  "two_threads = mock_state_new\<lparr>mk_threads := [''a'' \<mapsto> mock_thread_a, ''b'' \<mapsto> mock_thread_b], mk_resume_failures := 2\<rparr>"

definition two_threads_env :: mock_env where
  "two_threads_env = sample_mock_env\<lparr>me_thread_order := (\<lambda>m. sorted_list_of_set (dom m))\<rparr>"

lemma two_threads_plain [simp]: "plain two_threads"
  by (simp add: plain_def two_threads_def mock_state_new_def)

theorem read_returns_stored_thread_witness:
  "fst (read_thread_op (server_client (mock_serve two_threads_env) (1, two_threads) (\<lambda>_. [])) ''a'' (sample_world (the (reducer_new 4)))) =
    Inr (read_of mock_thread_a)"
  using read_returns_stored_thread [OF two_threads_plain, of two_threads_env 1 "\<lambda>_. []" "''a''" "sample_world (the (reducer_new 4))"]
  by (simp add: two_threads_def)

lemma list_one_page:
  assumes "snd (client (wd_calls w @ [page_request None])) = Inr v" and "de_thread_list_page v = Some \<lparr> pg_data = ts, pg_next_cursor = None \<rparr>"
  shows "\<exists>w'. list_all_threads client w = Some (Inr (first_by_id ts), w') \<and> wd_calls w' = wd_calls w @ [page_request None]"
proof -
  obtain w1 where r: "rpc client (page_request None) w = (Inr v, w1)" "wd_calls w1 = wd_calls w @ [page_request None]"
    using rpc_simps(1,2) [of client "page_request None" w] assms(1) by (metis prod.collapse)
  with assms(2) show ?thesis
    by (simp add: list_all_threads_def list_pages.simps [of client None] add_unseen_exact)
qed

lemma set_map_filter_map: "set (List.map_filter m ks) = {x. \<exists>k \<in> set ks. m k = Some x}"
  by (force simp: map_filter_def)

lemma first_by_id_distinct_ids: "distinct (map lt_id ts) \<Longrightarrow> first_by_id ts = ts"
  by (induction ts) (auto simp: filter_id_conv image_iff)

lemma keyed_ids:
  assumes "\<And>k t. m k = Some t \<Longrightarrow> mt_id t = k"
  shows "map mt_id (List.map_filter m ks) = filter (\<lambda>k. m k \<noteq> None) ks"
  by (induction ks) (auto simp: map_filter_def dest: assms)

text \<open>C39. Listing the threads of the mock server gives exactly the threads that were added, each once,
  the most recently updated first, decoded with every member of theirs, in one request, whatever
  order the server's hash map has.\<close>

theorem listing_returns_stored_threads:
  assumes "plain st" and "set (me_thread_order env (mk_threads st)) = dom (mk_threads st)"
    and "distinct (me_thread_order env (mk_threads st))" and "\<forall>k t. mk_threads st k = Some t \<longrightarrow> mt_id t = k"
  shows "\<exists>ts w'. list_all_threads (server_client (mock_serve env) (q, st) activity) w = Some (Inr (map listed_of ts), w') \<and>
    set ts = ran (mk_threads st) \<and> distinct (map mt_id ts) \<and>
    sorted_wrt (\<lambda>a b. mt_updated_at b \<le> mt_updated_at a) ts \<and>
    wd_calls w' = wd_calls w @ [page_request None]"
proof -
  let ?client = "server_client (mock_serve env) (q, st) activity"
  let ?ts = "mock_threads_listed env st"
  have "snd (?client (wd_calls w @ [page_request None])) = Inr (mock_result env st ''thread/list'' (case page_request None of Request m p \<Rightarrow> p | _ \<Rightarrow> JNull))"
    using mock_client_answer [of "(q, st)" "page_request None" env activity "wd_calls w"] assms(1)
    by (simp add: page_request_def)
  note answer = this [unfolded mock_results]
  have ids: "distinct (map mt_id ?ts)"
  proof -
    have "mset (map mt_id ?ts) = mset (map mt_id (List.map_filter (mk_threads st) (me_thread_order env (mk_threads st))))"
      by (simp add: mock_threads_listed_def)
    with keyed_ids [of "mk_threads st"] assms(3,4) show ?thesis by (metis distinct_filter mset_eq_imp_distinct_iff)
  qed
  have "map lt_id (map listed_of ?ts) = map mt_id ?ts" by (simp add: listed_of_def)
  then have "first_by_id (map listed_of ?ts) = map listed_of ?ts" using ids by (metis first_by_id_distinct_ids)
  with list_one_page [of ?client w, OF answer, of "map listed_of ?ts"] obtain w' where
    "list_all_threads ?client w = Some (Inr (map listed_of ?ts), w')" "wd_calls w' = wd_calls w @ [page_request None]"
    by (auto simp: de_thread_list_page_def required_def de_list_def decode_listing defaulted_def de_option_def)
  moreover have "set ?ts = ran (mk_threads st)"
    using assms(2) by (auto simp: mock_threads_listed_def set_map_filter_map ran_def)
  moreover have "sorted_wrt (\<lambda>a b. mt_updated_at b \<le> mt_updated_at a) ?ts"
  proof -
    have "sorted (map (\<lambda>t. - uint (mt_updated_at t)) ?ts)" by (simp add: mock_threads_listed_def)
    then show ?thesis by (simp add: sorted_map word_le_def sorted_wrt_map)
  qed
  ultimately show ?thesis using ids by blast
qed

theorem listing_returns_stored_threads_witness:
  "\<exists>ts w'. list_all_threads (server_client (mock_serve two_threads_env) (1, two_threads) (\<lambda>_. [])) (sample_world (the (reducer_new 4))) =
      Some (Inr (map listed_of ts), w') \<and> ts = [mock_thread_b, mock_thread_a]"
proof -
  have m: "mk_threads two_threads = [''a'' \<mapsto> mock_thread_a, ''b'' \<mapsto> mock_thread_b]" by (simp add: two_threads_def)
  have k: "\<forall>k t. mk_threads two_threads k = Some t \<longrightarrow> mt_id t = k"
    by (auto simp: m mock_thread_a_def mock_thread_b_def split: if_splits)
  have o: "set (me_thread_order two_threads_env (mk_threads two_threads)) = dom (mk_threads two_threads)"
    "distinct (me_thread_order two_threads_env (mk_threads two_threads))"
    by (auto simp: two_threads_env_def m)
  have ran: "ran (mk_threads two_threads) = {mock_thread_a, mock_thread_b}" by (simp add: m insert_commute [of mock_thread_b])
  obtain ts w' where l: "list_all_threads (server_client (mock_serve two_threads_env) (1, two_threads) (\<lambda>_. []))
      (sample_world (the (reducer_new 4))) = Some (Inr (map listed_of ts), w')"
    and ts: "set ts = {mock_thread_a, mock_thread_b}" "distinct (map mt_id ts)"
      "sorted_wrt (\<lambda>a b. mt_updated_at b \<le> mt_updated_at a) ts"
    using listing_returns_stored_threads [OF two_threads_plain o k, of 1 "\<lambda>_. []" "sample_world (the (reducer_new 4))", unfolded ran]
    by (elim exE conjE) (rule that)
  have "distinct ts" using ts(2) by (simp add: distinct_map)
  moreover have ne: "mock_thread_a \<noteq> mock_thread_b" by (simp add: mock_thread_a_def mock_thread_b_def)
  ultimately have "length ts = 2" using ts(1) distinct_card by fastforce
  then obtain x y where xy: "ts = [x, y]" by (metis (no_types) One_nat_def Suc_1 length_0_conv length_Suc_conv)
  with ts ne have "ts = [mock_thread_a, mock_thread_b] \<or> ts = [mock_thread_b, mock_thread_a]" by auto
  moreover have "ts \<noteq> [mock_thread_a, mock_thread_b]"
    using ts(3) by (auto simp: mock_thread_a_def mock_thread_b_def word_le_nat_alt)
  ultimately show ?thesis using l by auto
qed

section \<open>The wire\<close>

text \<open>C16. A request goes over the wire and back. While the transport drives a connection to the mock
  server, taking the request from the command channel and reading the frames the server sends
  for it resolves the caller's channel, once, with exactly the answer the server gave, an error
  as a rejection; the request was written once, nothing else is resolved, no pending request is
  lost, and every frame the server sent has become an event of the ingress in order.\<close>

theorem request_answered_over_the_wire:
  assumes "mock_willing meth st" and "list_all (\<lambda>v. te_from_str tenv (print v) = Inr v) (fst (mock_serve env (request_envelope i meth params) st))"
    and "tr_task t = AtDrive ps rd" and "tr_ingress_open t"
    and "tr_commands t = CmdRequest i meth params k # cs" and "map_of ps i = None"
  shows "\<exists>t' es. transport_run tenv (Task (DriveCommand None) #
        map (text_read clock print) (fst (mock_serve env (request_envelope i meth params) st))) t = Some t' \<and>
    tr_resolved t' = tr_resolved t @ [(k, Resolved (answer_of_response meth (spec_response env st (rpc_id_value i) meth params)))] \<and>
    tr_task t' = AtDrive ps (ck_read clock) \<and> tr_commands t' = cs \<and>
    tr_written t' = tr_written t @ [(RequestFrame k i meth params, True)] \<and>
    tr_ingress t' = tr_ingress t @ es \<and>
    map (\<lambda>e. Inr (ev_frame e)) es = map parse_frame (fst (mock_serve env (request_envelope i meth params) st))"
proof -
  have "last (fst (mock_serve env (request_envelope i meth params) st)) = spec_response env st (rpc_id_value i) meth params"
    using mock_serve_request [OF assms(1), of env i params] by auto
  with mock_peer.request_served [OF assms(1), where env = env and tenv = tenv and print = print and clock = clock, OF assms(2-6)]
  show ?thesis by auto
qed

text \<open>A parser that knows the one frame the server with the resume failure sends.\<close>

definition wire_env :: transport_env where
  "wire_env = sample_transport_env\<lparr>te_from_str := (\<lambda>_. Inr (error_response (JNumber (PosInt 1)) (- 32000) ''no rollout found''))\<rparr>"

definition resume_waiting :: transport where
  "resume_waiting = driving\<lparr>tr_commands := [CmdRequest (RpcNumber 1) ''thread/resume'' JNull 0]\<rparr>"

theorem request_answered_over_the_wire_witness:
  "\<exists>t'. transport_run wire_env [Task (DriveCommand None), text_read sample_clock (\<lambda>_. ''error'')
        (error_response (JNumber (PosInt 1)) (- 32000) ''no rollout found'')] resume_waiting = Some t' \<and>
    tr_resolved t' = [(0, Resolved (Inl (Rejected ''thread/resume''
      (JObject [(''code'', JNumber (NegInt (- 32000))), (''message'', JString ''no rollout found'')]))))]"
proof -
  have w: "mock_willing ''thread/resume'' sample_mock_state" by (simp add: mock_willing_def sample_mock_state_def)
  have s: "spec_response sample_mock_env sample_mock_state (rpc_id_value (RpcNumber 1)) ''thread/resume'' JNull =
      error_response (JNumber (PosInt 1)) (- 32000) ''no rollout found''"
    by (simp add: spec_response_def sample_mock_state_def mock_state_new_def)
  have f: "fst (mock_serve sample_mock_env (request_envelope (RpcNumber 1) ''thread/resume'' JNull) sample_mock_state) =
      [error_response (JNumber (PosInt 1)) (- 32000) ''no rollout found'']"
    using mock_serve_request [OF w, of sample_mock_env "RpcNumber 1" JNull] s by (auto simp: completes_early_def)
  have t: "tr_task resume_waiting = AtDrive [] 0" "tr_ingress_open resume_waiting"
    "tr_commands resume_waiting = [CmdRequest (RpcNumber 1) ''thread/resume'' JNull 0]" "tr_resolved resume_waiting = []"
    by (simp_all add: resume_waiting_def driving_def handshaking_def sample_transport_def transport_spawn_def)
  have p: "list_all (\<lambda>v. te_from_str wire_env ''error'' = Inr v)
      (fst (mock_serve sample_mock_env (request_envelope (RpcNumber 1) ''thread/resume'' JNull) sample_mock_state))"
    by (simp add: f wire_env_def)
  have "\<exists>t'. transport_run wire_env (Task (DriveCommand None) # map (text_read sample_clock (\<lambda>_. ''error''))
      [error_response (JNumber (PosInt 1)) (- 32000) ''no rollout found'']) resume_waiting = Some t' \<and>
    tr_resolved t' = [(0, Resolved (answer_of_response ''thread/resume'' (error_response (JNumber (PosInt 1)) (- 32000) ''no rollout found'')))]"
    using request_answered_over_the_wire [OF w p t(1-3), of sample_clock, unfolded f s t(4)] by auto
  then show ?thesis by (simp add: answer_of_response_def error_response_def)
qed

section \<open>Discovery\<close>

definition is_resume :: "rpc_call \<Rightarrow> bool" where
  "is_resume c \<longleftrightarrow> is_request c \<and> call_method c = ''thread/resume''"

definition no_rollout :: json where
  "no_rollout = JObject [(''code'', JNumber (NegInt (- 32000))), (''message'', JString ''no rollout found'')]"

text \<open>An ingestor at the mock server, with an encoder of JSON that keeps the text of a message.\<close>

definition at_mock :: "mock_env \<Rightarrow> u64 \<times> mock_state \<Rightarrow> ingest_env \<Rightarrow> bool" where
  "at_mock menv s env \<longleftrightarrow>
     (\<forall>calls. ingest_answer env calls = snd (server_client (mock_serve menv) s (\<lambda>_. []) calls)) \<and>
     str_contains (to_ascii_lowercase (ie_show_json env no_rollout)) ''rollout''"

lemma resume_answers:
  assumes "plain (snd s)" and "at_mock menv s env"
  shows "ingest_answer env (calls @ replicate (Suc k) (resume_call tid)) =
    (if length (filter is_resume calls) + k < mk_resume_failures (snd s) then Inl (Rejected ''thread/resume'' no_rollout)
     else Inr (mock_result menv (snd s) ''thread/resume'' (thread_params tid)))"
proof -
  have r: "is_request (resume_call tid)" "call_method (resume_call tid) = ''thread/resume''" "is_resume (resume_call tid)"
    by (simp_all add: is_resume_def)
  have "length (filter is_resume (calls @ replicate k (resume_call tid))) = length (filter is_resume calls) + k"
    using r(3) by simp
  with mock_client_answer [OF assms(1) r(1), of menv "\<lambda>_. []" "calls @ replicate k (resume_call tid)"] assms(2)
  show ?thesis by (simp add: at_mock_def replicate_append_same flip: is_resume_def no_rollout_def)
qed

text \<open>The decisions of the loop: try again while the server has failures and attempts are left.\<close>

lemma resume_decisions:
  assumes "plain (snd s)" and "at_mock menv s env"
  shows "decision_at env tid limit calls 1 k =
    (if mk_resume_failures (snd s) \<le> length (filter is_resume calls) + k then ResumeDone
     else if Suc k < limit then ResumeRetry else ResumeEphemeral)"
proof -
  have "is_ephemeral_error (ie_show_json env) no_rollout"
    using assms(2) by (simp add: at_mock_def is_ephemeral_error_def Let_def)
  then show ?thesis unfolding decision_at_def resume_answers [OF assms] by (simp add: decide_resume_def)
qed

text \<open>C36. A discovery at the mock server outlasts its resume failures exactly while it has attempts:
  with fewer failures left than the retry limit it subscribes, after one resume more than there
  were failures, and reads the thread; otherwise it gives up after as many resumes as the limit
  allows, at least one, and takes the thread for ephemeral.\<close>

theorem discovery_outlasts_resume_failures:
  assumes "plain (snd s)" and "at_mock menv s env" and "hash_order (ie_key_order env)" and "stores_ok env ig"
    and "\<not> is_some_and (in_states ig tid) is_retained"
    and "retained_count (in_states ig) < ic_subscription_cap (in_config ig)"
  shows "\<exists>ig'. (let left = mk_resume_failures (snd s) - length (filter is_resume (in_calls ig));
        limit = max 1 (ic_resume_retry_limit (in_config ig)) in
      discover env tid source ig = Some (if left < limit then OutSubscribed else OutEphemeral, ig') \<and>
      in_calls ig' = in_calls ig @ replicate (if left < limit then Suc left else limit) (resume_call tid) @
        (if left < limit then [Ingest.read_thread_call tid] else []))"
proof -
  let ?left = "mk_resume_failures (snd s) - length (filter is_resume (in_calls ig))"
  let ?limit = "ic_resume_retry_limit (in_config ig)"
  obtain out ig' where d: "discover env tid source ig = Some (out, ig')"
    using discover_total [OF assms(3,4)] by blast
  have dec: "decision_at env tid ?limit (in_calls ig) 1 k =
      (if ?left \<le> k then ResumeDone else if Suc k < ?limit then ResumeRetry else ResumeEphemeral)" for k
    using resume_decisions [OF assms(1,2)] by (simp add: diff_le_mono2 le_diff_conv add.commute)
  from discover_claimed [OF d assms(5,6)] obtain n where
    calls: "in_calls ig' = in_calls ig @ replicate (Suc n) (resume_call tid) @ (if out = OutSubscribed then [Ingest.read_thread_call tid] else [])"
    and before: "\<forall>k < n. decision_at env tid ?limit (in_calls ig) 1 k = ResumeRetry"
    and end_: "resume_end (decision_at env tid ?limit (in_calls ig) 1 n) (if out = OutSubscribed then None else Some out)" by blast
  have n: "k < ?left \<and> Suc k < ?limit" if "k < n" for k
    using before [rule_format, OF that] unfolding dec by (auto split: if_splits)
  have limit: "n < max 1 ?limit" using n [of "n - 1"] by (cases "n = 0") auto
  show ?thesis
  proof (cases "?left \<le> n")
    case True
    then have "n = ?left" using n [of ?left] by (cases "?left < n") auto
    moreover have "out = OutSubscribed" using end_ True unfolding dec by (auto split: if_splits)
    moreover have "?left < max 1 ?limit" using limit \<open>n = ?left\<close> by simp
    ultimately show ?thesis using d calls by (auto simp: Let_def)
  next
    case False
    then have e: "out = OutEphemeral" "\<not> Suc n < ?limit" using end_ unfolding dec by (auto split: if_splits)
    moreover have "Suc n = max 1 ?limit" using limit e(2) by linarith
    ultimately show ?thesis using d calls False by (auto simp: Let_def)
  qed
qed

definition mock_ingest_env :: ingest_env where
  "mock_ingest_env = calm_env\<lparr>ie_client := (\<lambda>calls. ([], snd (server_client (mock_serve two_threads_env) (1, two_threads) (\<lambda>_. []) calls))),
     ie_show_json := (\<lambda>_. ''no rollout'')\<rparr>"

interpretation mock_order: hash_order "ie_key_order mock_ingest_env"
  by unfold_locales (simp add: mock_ingest_env_def calm_env_def sorted_keys_def)

theorem discovery_outlasts_resume_failures_witness:
  "\<exists>ig'. discover mock_ingest_env ''a'' SourceThreadStarted sample_ingestor = Some (OutSubscribed, ig') \<and>
    in_calls ig' = [resume_call ''a'', resume_call ''a'', resume_call ''a'', Ingest.read_thread_call ''a'']"
proof -
  have "at_mock two_threads_env (1, two_threads) mock_ingest_env"
    by (simp add: at_mock_def mock_ingest_env_def ingest_answer_def to_ascii_lowercase_def ascii_lower_def)
  moreover have "stores_ok mock_ingest_env sample_ingestor"
    by (simp add: stores_ok_def store_inv_new)
  moreover have "mk_resume_failures two_threads = 2" by (simp add: two_threads_def)
  ultimately show ?thesis
    using discovery_outlasts_resume_failures [OF _ _ mock_order.hash_order_axioms, of "(1, two_threads)" two_threads_env
        sample_ingestor "''a''" SourceThreadStarted]
    by (simp add: ingest_config_default_def numeral_2_eq_2)
qed

section \<open>Interrupt\<close>

text \<open>The frames the server sends for the last call of a session, and the event of a frame.\<close>

definition session_frames :: "(json \<Rightarrow> 's \<Rightarrow> json list \<times> 's) \<Rightarrow> u64 \<times> 's \<Rightarrow> rpc_call list \<Rightarrow> json list" where
  "session_frames serve s calls =
     (let s' = fold (session_step serve) (butlast calls) s in fst (serve (call_value (fst s') (last calls)) (snd s')))"

definition event_of_frame :: "json \<Rightarrow> sequenced_event \<Rightarrow> bool" where
  "event_of_frame v e \<longleftrightarrow> (\<exists>now seq monotonic f. parse_frame v = Inr f \<and> e = from_frame now seq monotonic f)"

definition turn_status :: "sequenced_event \<Rightarrow> string option" where
  "turn_status e = Option.bind (frame_params (ev_frame e)) (\<lambda>p. as_str (jindex (jindex p ''turn'') ''status''))"

lemma early_event:
  assumes "event_of_frame (early_completion (request_envelope i m (JObject [(''threadId'', JString thread), (''turnId'', JString turn)]))) e"
  shows "is_completion thread turn e" "turn_status e = Some ''interrupted''"
  using assms
  by (auto simp: event_of_frame_def early_completion_def request_envelope_def parse_frame_def notification_envelope_def
      from_frame_def Let_def is_completion_def ev_method_def turn_status_def extract_thread_id_def extract_turn_id_def
      get_str_def jindex_def)

lemma early_frames:
  assumes "plain (snd s)" and "mk_fault (snd s) = InterruptCompletionBeforeResponse"
  shows "\<exists>i r. session_frames (mock_serve menv) s (calls @ [RequestAction ''turn/interrupt'' p]) =
    [early_completion (request_envelope i ''turn/interrupt'' p), r] \<and>
    jget ''method'' r = None \<and> jget ''id'' r = Some (rpc_id_value i)"
proof -
  let ?s = "fold (session_step (mock_serve menv)) calls s"
  from session_plain [OF assms(1), of menv calls] have sc: "same_content (snd s) (snd ?s)" by blast
  then have "plain (snd ?s)" "completes_early ''turn/interrupt'' (snd ?s)"
    using plain_same [OF sc assms(1)] assms by (auto simp: completes_early_def same_content_def plain_def)
  with mock_serve_request [OF plain_willing, where st = "snd ?s" and meth = "''turn/interrupt''" and env = menv
      and i = "RpcNumber (fst ?s)" and params = p] show ?thesis
    by (intro exI [of _ "RpcNumber (fst ?s)"]) (auto simp: session_frames_def Let_def spec_response_fields)
qed

lemma find_first: "find q xs = None \<Longrightarrow> q e \<Longrightarrow> find q (xs @ e # ys) = Some e"
  by (induction xs) (auto split: if_splits)

text \<open>C37. A completion that arrives before the response confirms the interrupt. At a mock server
  that completes the turn before it answers, whatever else it holds, if the ingress applies the
  events of the frames the server sends while the interrupt waits for its response, and no
  completion of the turn before them, the interrupt is confirmed with the sequence of the
  server's completion of exactly that turn, with status \<open>interrupted\<close>; the request is sent
  once and nothing is read back, whatever other tasks do.\<close>

theorem early_completion_confirms:
  assumes "plain (snd s)" and "mk_fault (snd s) = InterruptCompletionBeforeResponse"
    and "\<forall>calls. answer_to env calls = snd (server_client (mock_serve menv) s (\<lambda>_. []) calls)"
    and "senders_ok (ct_reducer c)"
    and "fst (ce_client env (ct_calls c @ [action_call (Interrupt thread turn)])) = before @ map Apply es @ after"
    and "find (is_completion thread turn) (applied_events before) = None"
    and "list_all2 event_of_frame (session_frames (mock_serve menv) s (ct_calls c @ [action_call (Interrupt thread turn)])) es"
  shows "\<exists>e c'. e \<in> set es \<and> is_completion thread turn e \<and> turn_status e = Some ''interrupted'' \<and>
    interrupt env thread turn c = Some (Confirmed (TargetTurn thread turn) (observed (ct_next_correlation c) True e
      ''matching completion observed after interrupt; correlation is not proof of causation''), c') \<and>
    ct_calls c' = ct_calls c @ [action_call (Interrupt thread turn)]"
proof -
  let ?p = "JObject [(''threadId'', JString thread), (''turnId'', JString turn)]"
  let ?q = "is_completion thread turn"
  obtain i r where "session_frames (mock_serve menv) s (ct_calls c @ [action_call (Interrupt thread turn)]) =
      [early_completion (request_envelope i ''turn/interrupt'' ?p), r]"
    using early_frames [OF assms(1,2), of menv "ct_calls c" ?p] by auto
  with assms(7) obtain e f where es: "es = [e, f]"
    and "event_of_frame (early_completion (request_envelope i ''turn/interrupt'' ?p)) e"
    by (auto simp: list_all2_Cons1)
  from early_event [OF this(2)] have e: "?q e" "turn_status e = Some ''interrupted''" by blast+
  obtain n c3 where reg: "ct_register ?q (entered thread c) = (n, c3)" by fastforce
  have c3: "ct_calls c3 = ct_calls c" "ct_activity c3 = ct_activity c" using ct_register_frames(1,2) [OF reg] by simp_all
  have accepted: "answer_to env (calls @ [RequestAction ''turn/interrupt'' ?p]) = Inr (JObject [])" for calls
    using mock_client_answer [OF assms(1), of "RequestAction ''turn/interrupt'' ?p" menv "\<lambda>_. []" calls] assms(3)
    by (simp add: mock_results)
  obtain sent c4 where sent: "send_not_written_safe env ''turn/interrupt'' ?p c3 = (sent, c4)" by fastforce
  then have c4: "sent = Inr (JObject [])" "ct_calls c4 = ct_calls c @ [action_call (Interrupt thread turn)]"
    "ct_activity c4 = ct_activity c @ before @ map Apply es @ after"
    using send_accepted [OF accepted] accepted ct_rpc_simps(1,2,6) [of env "RequestAction ''turn/interrupt'' ?p" c3] c3 assms(5)
    by auto
  let ?c5 = "snd (await_window env n c4)"
  have c5: "ct_calls ?c5 = ct_calls c4" "ct_activity ?c5 = ct_activity c4 @ ce_window env (ct_calls c4)"
    by (simp_all add: await_window_def Let_def)
  have "senders_ok (ct_reducer (entered thread c))" using assms(4) by simp
  from waiter_after_activity [OF reg this window_moved(1) [OF sent, of n]] c4(3) c5(2)
  have "rd_delivered (ct_reducer ?c5) n = find ?q (applied_events (before @ map Apply es @ after @ ce_window env (ct_calls c4)))"
    by auto
  also have "\<dots> = Some e"
    using find_first [OF assms(6) e(1)] by (simp add: es List.map_filter_def)
  finally have "fst (await_window env n c4) = Some e" by (simp add: await_window_delivered)
  with e c4 c5 show ?thesis
    by (intro exI [of _ e] exI [of _ ?c5]) (simp add: interrupt_run [OF reg sent] es)
qed

text \<open>A server with two threads that completes early, and an ingress that applies what it sends.\<close>

definition early_mock :: mock_state where
  "early_mock = two_threads\<lparr>mk_fault := InterruptCompletionBeforeResponse\<rparr>"

definition frame_event :: "sequence \<Rightarrow> json \<Rightarrow> sequenced_event option" where
  "frame_event seq v = (case parse_frame v of Inl _ \<Rightarrow> None | Inr f \<Rightarrow> Some (from_frame None seq 0 f))"

lemma frame_event_of: "frame_event seq v = Some e \<Longrightarrow> event_of_frame v e"
  by (auto simp: frame_event_def event_of_frame_def split: sum.splits)

definition early_control_env :: control_env where
  "early_control_env =
     \<lparr> ce_client = server_client (mock_serve two_threads_env) (1, early_mock)
         (\<lambda>calls. map Apply (List.map_filter (frame_event 7) (session_frames (mock_serve two_threads_env) (1, early_mock) calls))),
       ce_window = (\<lambda>_. []), ce_show_json = (\<lambda>_. []), ce_debug_id = (\<lambda>_. []) \<rparr>"

theorem early_completion_confirms_witness:
  "\<exists>e c'. turn_status e = Some ''interrupted'' \<and>
    interrupt early_control_env ''a'' ''t'' sample_controller = Some (Confirmed (TargetTurn ''a'' ''t'')
      (observed (ct_next_correlation sample_controller) True e
        ''matching completion observed after interrupt; correlation is not proof of causation''), c') \<and>
    ct_calls c' = [action_call (Interrupt ''a'' ''t'')]"
proof -
  let ?p = "JObject [(''threadId'', JString ''a''), (''turnId'', JString ''t'')]"
  let ?frames = "session_frames (mock_serve two_threads_env) (1, early_mock) [RequestAction ''turn/interrupt'' ?p]"
  let ?es = "List.map_filter (frame_event 7) ?frames"
  have plain: "plain early_mock" by (simp add: plain_def early_mock_def two_threads_def mock_state_new_def)
  obtain i r where f: "?frames = [early_completion (request_envelope i ''turn/interrupt'' ?p), r]"
    and r: "jget ''method'' r = None" "jget ''id'' r = Some (rpc_id_value i)"
    using early_frames [of "(1, early_mock)" two_threads_env "[]" ?p] plain by (auto simp: early_mock_def)
  obtain e1 e2 where e: "frame_event 7 (early_completion (request_envelope i ''turn/interrupt'' ?p)) = Some e1"
    "frame_event 7 r = Some e2"
    using early_completion_parses [of "request_envelope i ''turn/interrupt'' ?p"] parse_response [OF r]
    by (auto simp: frame_event_def)
  have "list_all2 event_of_frame ?frames ?es"
    using frame_event_of [OF e(1)] frame_event_of [OF e(2)] by (simp add: f e List.map_filter_simps)
  with early_completion_confirms [where s = "(1, early_mock)" and menv = two_threads_env and env = early_control_env
      and c = sample_controller and thread = "''a''" and turn = "''t''" and before = "[]" and after = "[]" and es = ?es] plain
  show ?thesis
    by (simp add: early_control_env_def answer_to_def server_client_def early_mock_def List.map_filter_simps) blast
qed

end
