(* ===== verification/Spec2Isabelle.thy ===== *)
theory Spec2Isabelle
  imports Assembly Rehearsal Processes
begin

text \<open>
  Codex warden: a library that observes and steers the threads of a Codex app-server on the local
  machine, and keeps the daemon and the GUI that share it running.

  The program. The supervisor makes sure that the daemon and the GUI run. The transport owns the
  socket: it connects, shakes hands, reads frames and gives each the next receipt sequence, writes
  requests and answers their callers. Every frame becomes an event of the ingress, which applies it
  to the reducer (which threads exist, which turn is active, who waits for what), records it in the
  bounded store and publishes it to the lifecycle and delta topics. Ingestion subscribes to threads
  it discovers from signals and by reconciliation. Control interrupts, steers and starts turns and
  tells what is known of the outcome. The core crate puts these together, restores a reconnected
  session before actions are let through, adds the queries for threads, skills and hooks, and hands
  all of it to the embedding program as a handle. A mock app-server serves the integration tests.

  \<^bold>\<open>The theories, in order\<close> (paths under \<open>src/\<close>):
  \<^item> \<open>Prelude\<close>: 64-bit words, durations in nanoseconds, the operations of the standard
    library on options, strings, vectors and maps that the crates use, with their lemmas.
  \<^item> \<open>Json\<close>, \<open>Serde\<close>: JSON values with their accessors (serde\_json), and the decoders
    that serde's derive makes of the typed answers.
  \<^item> \<open>Protocol\<close> (\<open>protocol/src/lib.rs\<close>): frames, their parser and classifiers, sequenced
    events, the envelopes the client writes.
  \<^item> \<open>Interfaces\<close>: the contracts between components as locales: a bounded replay log, a
    service of one-shot waiters alone and shared with other tasks, the iteration order of a hash
    map, a sink of events, a machine that runs step by step. \<open>Rehearsal\<close> adds a server that
    answers its requests. Each is interpreted where its provider is modelled.
  \<^item> \<open>Reducer\<close> (\<open>reducer/src/lib.rs\<close>), \<open>Store\<close> (\<open>store/src/lib.rs\<close>),
    \<open>Streaming\<close> (\<open>streaming/src/lib.rs\<close>): thread state, replay log and waiters; the event
    buffer with its caps and gap counters; the topics and their streams.
  \<^item> \<open>Ingress\<close>: the ingress loop of \<open>ingest/src/lib.rs\<close> and what a stream sees of a run.
  \<^item> \<open>Rpc\<close>: the client interface and its errors (\<open>transport/src/lib.rs\<close>) as its users
    see them, and the world their asynchronous code runs in.
  \<^item> \<open>Control\<close> (\<open>control/src/lib.rs\<close>), \<open>Ingest\<close> (\<open>ingest/src/lib.rs\<close>): the
    actions; discovery, reconciliation and release.
  \<^item> \<open>Transport\<close> (\<open>transport/src/lib.rs\<close>): the connection task and the handles;
    \<open>Channels\<close>, \<open>Connection\<close> and \<open>Requests\<close> hold its invariants: no answer channel is
    lost or resolved twice, the numbering and delivery of events, the gate and the health, and the
    refinement of the abstract machine of one request.
  \<^item> \<open>Supervisor\<close>, \<open>Supervision\<close>, \<open>Processes\<close> (\<open>supervisor/src/lib.rs\<close>): its
    operations, what they do and on what evidence, and the commands they come down to.
  \<^item> \<open>Threads\<close>, \<open>Skills\<close>, \<open>Hooks\<close> (\<open>core/src/threads.rs\<close>, \<open>skills.rs\<close>,
    \<open>hooks.rs\<close>): the controllers behind the handle.
  \<^item> \<open>Core\<close> and \<open>Assembly\<close> (\<open>core/src/lib.rs\<close>): configuration, handle, the ingress
    and reconnect tasks, the start and end of a run; what holds of every handle a run can reach.
  \<^item> \<open>Mock\<close> (\<open>transport/src/mock.rs\<close>) and \<open>Rehearsal\<close>: the mock server, and the
    transport, the queries, a discovery and an interrupt with that server behind them.
  \<^item> This theory: properties from the socket to the consumers and from an action to the socket.

  \<^bold>\<open>State and steps.\<close> A struct is a record with the source's fields, an enum a datatype.
  A function that awaits is a function from the state before to the result and the state after; a
  task is a step function on its state that takes one completed await at a time and is \<open>None\<close>
  where the task does not wait for that input, and a run is a fold of steps
  (\<open>transport_run\<close>, \<open>ingress_run\<close>, \<open>ingress_task_run\<close>, \<open>reconnect_run\<close>,
  \<open>monitor_run\<close>, \<open>mock_run\<close>). A oneshot channel is a number and what became of its sender.
  Interleaving is explicit: between two awaits the transport takes any operation of its handles;
  an action or a discovery lets other tasks act on the shared reducer, states and store at each of
  its awaits, as its environment says, and properties hold for every such environment.

  \<^bold>\<open>Environments.\<close> What is not under \<open>src/\<close> is an argument: what the peer, the clocks,
  the processes and the operating system answer (as functions of the calls made so far), the JSON
  parser and printer, the order in which a hash map is iterated. What is relied on is a named
  hypothesis: an order enumerates the keys of a finite map (\<open>hash_order\<close>), draining a map
  yields each entry once (\<open>drains_all\<close>), text parses back where it is printed, and the
  text of an anchor is no longer than the byte caps of the store (\<open>anchors_fit\<close>).

  \<^bold>\<open>What the lemmas show.\<close> Every theory has the functional behaviour of its operations on
  every branch, the invariants they keep and, over these, the properties, each with a closed
  instance. Integers that wrap in the code are words; where a property needs that a counter has not
  wrapped it says so by a bound on the length of a run.

  \<^bold>\<open>Loops and bounds.\<close> Loops over data are structural. The retries of an action and of a
  resume, the scan of pages and the waits of the supervisor terminate by a measure (attempts left,
  pages left, time left). The eviction of the store and the listing of all threads are partial
  functions whose value is \<open>None\<close> where they do not return; that they return is proved, the
  first from the accounting of the store, the second for a server that draws its cursors from a
  finite set. There is no fuel but in \<open>path_ancestor_count\<close>, which is given as many steps as
  the path has components and one more.

  \<^bold>\<open>Conventions.\<close> Strings and paths are their UTF-8 bytes, so the errors for paths that are
  not UTF-8 do not occur. An object is the list of its members in the order the source writes them.
  \<open>usize\<close> and durations are natural numbers. The text of an error of serde is not modelled.
  A write that fails is taken to have written nothing, as the code takes it. Each component's client
  is an environment of its own, so the calls of two components are not ordered among each other.

  \<^bold>\<open>Not modelled\<close>: the build script and the types it generates, which nothing else uses; the
  examples and the tests; the installation of the tracing subscriber; the awaits after the transport is
  told to shut down; what the mock server does after its last handle is dropped.
\<close>

section \<open>From the wire to the consumers\<close>

lemma numbered_increasing:
  assumes "numbered es" and "length es < 2 ^ 64"
  shows "sorted_wrt (<) (map ev_sequence es)"
proof -
  have "(of_nat (Suc i) :: u64) < of_nat (Suc j)" if "i < j" "j < length es" for i j
    using that assms(2) by (simp add: word_less_nat_alt unat_of_nat del: of_nat_Suc)
  with assms(1) show ?thesis unfolding numbered_def by (auto simp: sorted_wrt_iff_nth_less simp del: of_nat_Suc)
qed




text \<open>C7. A lifecycle subscriber of the running system misses nothing without being told. When the
  events the pipeline applied are a prefix of those the transport delivered, in fewer than 2^64
  frames, then in every interleaving every published lifecycle event the subscriber has moved
  past was delivered, replayed or covered by an explicit gap, and everything it was shown is a
  frame that came from the socket.\<close>

theorem subscriber_over_transport:
  assumes "hash_order order" and "watching tv order capacity cfg after first sy pos s items"
    and "transport_run env xs (transport_spawn config) = Some t" and "tr_ingress_open t"
    and "prefix (sy_applied sy) (tr_ingress t)" and "length (frames_of env xs) < 2 ^ 64"
  shows "(\<forall>e \<in> set (drop first (take pos (hub_lifecycle (sy_hub sy)))). after < ev_sequence e \<longrightarrow> reported items e) \<and>
    (\<forall>item \<in> set items. ev_frame ` set (item_events item) \<subseteq> set (frames_of env xs))"
proof -
  have ev: "map ev_frame (tr_ingress t) = frames_of env xs" "numbered (tr_ingress t)"
    using run_events [OF assms(3)] assms(4) by (simp_all add: event_view_def)
  then have "length (tr_ingress t) < 2 ^ 64" using assms(6) by (metis length_map)
  with ev(2) have "sorted_wrt (<) (map ev_sequence (tr_ingress t))" by (rule numbered_increasing)
  then have "sorted_wrt (<) (map ev_sequence (sy_applied sy))"
    using assms(5) by (auto simp: prefix_def sorted_wrt_append)
  note w = watched_reported [OF assms(1,2) this]
  have "set (lifecycle_history sy) \<subseteq> set (tr_ingress t)"
    using set_mono_prefix [OF assms(5)] by auto
  moreover have "ev_frame ` set (tr_ingress t) = set (frames_of env xs)" using ev(1) by (metis list.set_map)
  ultimately have "ev_frame ` set (item_events item) \<subseteq> set (frames_of env xs)" if "item \<in> set items" for item
    using w that by (metis image_mono order_trans)
  with w show ?thesis by blast
qed

theorem subscriber_over_transport_witness:
  "\<exists>t sy s. transport_run sample_transport_env connects sample_transport = Some t \<and>
     watching sample_tv sorted_keys 4 roomy_cfg 0 0 sy 1 s [ItemEvent hello_event] \<and>
     tr_ingress t = [hello_event] \<and> sy_applied sy = tr_ingress t \<and> reported [ItemEvent hello_event] hello_event"
proof -
  obtain t where t: "transport_run sample_transport_env connects sample_transport = Some t" "tr_ingress_open t"
      "tr_ingress t = [hello_event]"
    by (simp add: sample_eval hello_event_def)
  obtain sy where sy: "sy_applied sy = [hello_event]" "sy_published sy = [hello_event]"
    "reachable sample_tv sorted_keys 4 roomy_cfg sy"
    and watch: "watching sample_tv sorted_keys 4 roomy_cfg 0 0 sy 0 (lifecycle 0) []"
    using one_event_watched [of hello_event] by blast
  have e: "ev_plane hello_event = Lifecycle" "ev_sequence hello_event = 1"
    by (simp_all add: hello_event_def plane_for_method_def)
  have hub: "hub_lifecycle (sy_hub sy) = [hello_event]"
    using reachable_authoritative [OF sorted_order.hash_order_axioms sy(3)] by (simp add: authoritative_def sy e)
  have answer: "broadcast_recv (hub_lifecycle (sy_hub sy)) 0 (RecvOk hello_event) 1"
    using recv_ok [of 0 "hub_lifecycle (sy_hub sy)"] by (simp add: hub)
  have recv: "lifecycle_recv (RecvOk hello_event) (sy_reducer sy) (lifecycle 0) =
      (ItemEvent hello_event, (lifecycle 0)\<lparr>ls_cursor := ev_sequence hello_event\<rparr>)"
    by (simp add: lifecycle_recv_def)
  have after: "watching sample_tv sorted_keys 4 roomy_cfg 0 0 sy 1
      ((lifecycle 0)\<lparr>ls_cursor := ev_sequence hello_event\<rparr>) [ItemEvent hello_event]"
    using watch_recv [OF watch answer recv] by simp
  have len: "length (frames_of sample_transport_env connects) < 2 ^ 64"
    by (simp add: frames_of_def connects_def frame_in_def message_json_def sample_transport_env_def)
  have "prefix (sy_applied sy) (tr_ingress t)" by (simp add: sy t)
  from subscriber_over_transport [OF sorted_order.hash_order_axioms after t(1) [unfolded sample_transport_def] t(2) this len]
  have "reported [ItemEvent hello_event] hello_event" by (simp add: hub e)
  moreover have "sy_applied sy = tr_ingress t" by (simp only: sy t)
  ultimately show ?thesis using t(1,3) after by (intro exI conjI)
qed

section \<open>An action over the transport\<close>

text \<open>
  How an attempt of an action got its answer: refused at the gate, with no channel, or from the
  wait on its channel in some state the transport went through.
\<close>

definition attempt_answered :: "transport_env \<Rightarrow> transport_input list \<Rightarrow> transport_config \<Rightarrow> string \<Rightarrow>
    channel option \<Rightarrow> request_error + json \<Rightarrow> bool" where
  "attempt_answered tenv xs config meth ch answer \<longleftrightarrow>
     (case ch of
        None \<Rightarrow> answer = Inl (NotWritten ''reconciliation gate is closed'')
      | Some k \<Rightarrow> \<exists>ys zs u elapsed. xs = ys @ zs \<and> transport_run tenv ys (transport_spawn config) = Some u \<and>
          request_await elapsed meth k u = Some answer)"

definition successful_writes :: "channel option \<Rightarrow> transport \<Rightarrow> nat" where
  "successful_writes ch t = (case ch of None \<Rightarrow> 0 | Some k \<Rightarrow> length (filter snd (requests_to k (tr_written t))))"

definition attempts_made :: "action \<Rightarrow> controller \<Rightarrow> controller \<Rightarrow> nat" where
  "attempts_made a c c' = length (filter (\<lambda>call. call = action_call a) (drop (length (ct_calls c)) (ct_calls c')))"

lemma attempts_made_Suc:
  assumes "ct_calls c' \<in> {ct_calls c @ replicate (Suc n) (action_call a),
      ct_calls c @ replicate (Suc n) (action_call a) @ (if is_interrupt a then [read_call (action_thread a)] else [])}"
  shows "attempts_made a c c' = Suc n"
proof -
  have "read_call th \<noteq> action_call a" for th by (cases a) (simp_all add: read_call_def)
  with assms show ?thesis by (auto simp: attempts_made_def filter_replicate simp del: action_call.simps)
qed

lemma unwritten_attempt:
  assumes "drains_all tenv" and "transport_run tenv xs (transport_spawn config) = Some t"
    and "attempt_answered tenv xs config meth ch answer" and "not_written answer"
  shows "successful_writes ch t = 0"
proof (cases ch)
  case (Some k)
  with assms(3) obtain ys zs u elapsed where xs: "xs = ys @ zs"
      and u: "transport_run tenv ys (transport_spawn config) = Some u" "request_await elapsed meth k u = Some answer"
    by (auto simp: attempt_answered_def)
  from assms(4) obtain d where d: "answer = Inl (NotWritten d)" by (cases answer rule: not_written.cases) auto
  with u(2) have "(k, Resolved answer) \<in> set (tr_resolved u)"
    by (auto simp: request_await_def split: option.splits resolution.splits if_splits dest: map_of_SomeD)
  moreover have "transport_run tenv zs u = Some t" using assms(2) u(1) by (simp add: xs trun.run_append)
  from run_progresses [OF assms(1) run_channels [OF assms(1) u(1)] this]
  have "set (tr_resolved u) \<subseteq> set (tr_resolved t)" by (simp add: progresses_def set_mono_prefix)
  ultimately have "(k, Resolved answer) \<in> set (tr_resolved t)" by blast
  then have "settled (set (frames_of tenv xs)) (tr_written t) k (Resolved answer)"
    using run_ledger [OF assms(1,2)] unfolding ledger_def ledger_ok_def by blast
  with d Some show ?thesis by (auto simp: successful_writes_def)
qed (simp add: successful_writes_def)

text \<open>C3. An action never reaches the wire twice. When every attempt of an action was answered by the
  transport, refused at the gate or through its channel, then over all its attempts together at
  most one request frame was written successfully, whatever the connection did meanwhile.\<close>

theorem action_written_at_most_once:
  assumes "perform env a c = Some (out, c')"
    and "drains_all tenv" and "transport_run tenv xs (transport_spawn config) = Some t"
    and "\<And>j. j < attempts_made a c c' \<Longrightarrow>
      attempt_answered tenv xs config meth (ch j) (answer_to env (ct_calls c @ replicate (Suc j) (action_call a)))"
  shows "(\<Sum>j < attempts_made a c c'. successful_writes (ch j) t) \<le> 1"
proof -
  obtain n where n: "attempts env a c n" "attempts_made a c c' = Suc n"
    using perform_spec [OF assms(1)] attempts_made_Suc by blast
  have "successful_writes (ch j) t = 0" if "j < n" for j
    by (rule unwritten_attempt [OF assms(2,3) assms(4)])
      (use that n in \<open>auto simp: attempts_def simp del: action_call.simps\<close>)
  moreover have "successful_writes (ch n) t \<le> 1"
    using written_at_most_once [OF run_channels [OF assms(2,3)] run_ledger [OF assms(2,3)]] 
    by (auto simp: successful_writes_def split: option.splits intro: order_trans [OF length_filter_le])
  ultimately show ?thesis by (simp add: n(2))
qed

text \<open>A session in which an action is sent once the gate is open, and the connection breaks.\<close>

definition action_session :: "transport_input list" where
  "action_session = connects @
     [Handle MarkReconciled, Handle (SendCommand 0), Task (DriveCommand None),
      Handle (RequestBegin ''turn/start'' JNull True), Handle (SendCommand 0), Task (DriveCommand None),
      Task (DriveRead sample_clock RxEnded None)]"

definition unlucky_env :: control_env where
  "unlucky_env = silent_env\<lparr>ce_client := (\<lambda>calls. ([],
     if length calls = 1 then Inl (NotWritten ''reconciliation gate is closed'')
     else Inl (WrittenOutcomeUnknown (RpcNumber 1) ''turn/start'' ''websocket stream ended'')))\<rparr>"

theorem action_written_at_most_once_witness:
  "\<exists>out c' t. perform unlucky_env (Start ''t'' []) sample_controller = Some (out, c') \<and>
     transport_run sample_transport_env action_session sample_transport = Some t \<and>
     attempts_made (Start ''t'' []) sample_controller c' = 2 \<and> successful_writes (Some 1) t = 1 \<and>
     (\<Sum>j < (2::nat). successful_writes (if j = 0 then None else Some 1) t) \<le> 1"
proof -
  let ?a = "Start ''t'' []" and ?c = sample_controller and ?ch = "\<lambda>j. if j = (0::nat) then None else Some (1::nat)"
  let ?call = "action_call ?a"
  obtain out c' where run: "perform unlucky_env ?a ?c = Some (out, c')" using perform_total [of unlucky_env ?a ?c] by (metis not_None_eq surj_pair)
  obtain n where n: "attempts unlucky_env ?a ?c n" "attempts_made ?a ?c c' = Suc n"
    using perform_spec [OF run] attempts_made_Suc by blast
  have ans: "answer_to unlucky_env (ct_calls ?c @ replicate (Suc k) ?call) =
      (if k = 0 then Inl (NotWritten ''reconciliation gate is closed'')
       else Inl (WrittenOutcomeUnknown (RpcNumber 1) ''turn/start'' ''websocket stream ended''))" for k
    by (simp add: answer_to_def unlucky_env_def)
  have "n = 1"
  proof -
    have "not_written (answer_to unlucky_env (ct_calls ?c @ replicate (Suc k) ?call))" if "k < n" for k
      using n(1) that unfolding attempts_def by blast
    from this [of 1] have "\<not> 1 < n" unfolding ans by auto
    moreover have "n \<noteq> 0"
    proof
      assume "n = 0"
      with n(1) have "not_written (answer_to unlucky_env (ct_calls ?c @ replicate (Suc 0) ?call)) \<longrightarrow>
          0 = cc_not_written_retries (ct_config ?c)"
        unfolding attempts_def by fastforce
      then show False unfolding ans by simp
    qed
    ultimately show ?thesis by simp
  qed
  obtain t where t: "transport_run sample_transport_env action_session sample_transport = Some t"
      "tr_resolved t = [(0, Done),
         (1, Resolved (Inl (WrittenOutcomeUnknown (RpcNumber 1) ''turn/start'' ''websocket stream ended'')))]"
      "successful_writes (Some 1) t = 1"
    by (simp add: action_session_def sample_eval successful_writes_def requests_to_def)
  have "attempt_answered sample_transport_env action_session (transport_config_default None ''1'') ''turn/start'' (?ch j)
      (answer_to unlucky_env (ct_calls ?c @ replicate (Suc j) ?call))" if "j < attempts_made ?a ?c c'" for j
  proof (cases "j = 0")
    case True
    then show ?thesis by (simp only: ans) (simp add: attempt_answered_def)
  next
    case False
    have "request_await False ''turn/start'' 1 t =
        Some (Inl (WrittenOutcomeUnknown (RpcNumber 1) ''turn/start'' ''websocket stream ended''))"
      by (simp add: request_await_def t(2))
    with False t(1) show ?thesis unfolding ans by (auto simp: attempt_answered_def sample_transport_def)
  qed
  note bound = action_written_at_most_once [OF run sample_env_drains t(1) [unfolded sample_transport_def] this]
  have made: "attempts_made ?a ?c c' = 2" unfolding n(2) \<open>n = 1\<close> by simp
  have "(\<Sum>j < 2. successful_writes (?ch j) t) \<le> 1" using bound unfolding made .
  with run t(1,3) made show ?thesis by blast
qed

end
